(* ===== verification/Net_Prelude.thy ===== *)
theory Net_Prelude
  imports Main "HOL-Library.Word"
begin

text \<open>
  Shared ground of the development: Go's machine integers and byte slices, its error values,
  slicing with Go's bounds checks, \<open>copy\<close>, the big-endian words of \<open>encoding/binary\<close>, and
  the byte stream a connection delivers, cut into the segments that successive \<open>Read\<close> calls
  return. The generic lemmas on these live here, together with the collections \<open>wire\<close>
  (big-endian layout) and \<open>stream\<close> (segmented input) and the two interfaces
  \<open>prefix_codec\<close> and \<open>fixed_codec\<close> that every wire format of the program is an instance of.
\<close>

unbundle bit_operations_syntax

named_theorems wire
named_theorems stream

section \<open>Go's integers, slices and errors\<close>

type_synonym byte = "8 word"
type_synonym u32 = "32 word"
type_synonym u64 = "64 word"

text \<open>
  Errors are values: the sentinel errors of package \<open>io\<close>, an error made from a message,
  \<open>errors.Wrap\<close> (a wrapped error is no longer equal to the error inside, which
  \<open>isClientDisconnect\<close> in the server depends on) and a run-time panic, which ends the calling
  goroutine unless a deferred function recovers it.
\<close>

datatype go_error =
    EOF
  | UnexpectedEOF
  | ErrMsg string
  | Wrap string go_error
  | Panic string

fun is_panic :: "go_error \<Rightarrow> bool" where
  "is_panic (Panic m) = True"
| "is_panic EOF = False"
| "is_panic UnexpectedEOF = False"
| "is_panic (ErrMsg m) = False"
| "is_panic (Wrap m e) = False"

text \<open>\<open>[]byte(s)\<close> of an ASCII string.\<close>

definition bytes_of :: "string \<Rightarrow> byte list" where
  "bytes_of s = map (\<lambda>c. word_of_nat (of_char c)) s"

lemma length_bytes_of [simp]: "length (bytes_of s) = length s"
  by (simp add: bytes_of_def)

text \<open>The slice expression \<open>xs[lo:hi]\<close>: a panic unless \<open>0 <= lo <= hi <= len(xs)\<close>.\<close>

definition go_slice :: "'a list \<Rightarrow> int \<Rightarrow> int \<Rightarrow> go_error + 'a list" where
  "go_slice xs lo hi =
     (if 0 \<le> lo \<and> lo \<le> hi \<and> hi \<le> int (length xs)
      then Inr (take (nat (hi - lo)) (drop (nat lo) xs))
      else Inl (Panic ''slice bounds out of range''))"

lemma go_slice_ok:
  "0 \<le> lo \<Longrightarrow> lo \<le> hi \<Longrightarrow> hi \<le> int (length xs) \<Longrightarrow>
     go_slice xs lo hi = Inr (take (nat (hi - lo)) (drop (nat lo) xs))"
  by (simp add: go_slice_def)

lemma go_slice_panic:
  "\<not> (0 \<le> lo \<and> lo \<le> hi \<and> hi \<le> int (length xs)) \<Longrightarrow>
     go_slice xs lo hi = Inl (Panic ''slice bounds out of range'')"
  by (auto simp: go_slice_def)

lemma go_slice_from_len [simp]:
  "go_slice xs lo (int (length xs)) =
     (if 0 \<le> lo \<and> lo \<le> int (length xs) then Inr (drop (nat lo) xs)
      else Inl (Panic ''slice bounds out of range''))"
  by (auto simp: go_slice_def)

text \<open>
  \<open>copy(dst[off:], src)\<close> for an \<open>off\<close> inside \<open>dst\<close>: as many bytes as fit, and the number
  copied.
\<close>

definition go_copy :: "'a list \<Rightarrow> nat \<Rightarrow> 'a list \<Rightarrow> 'a list \<times> nat" where
  "go_copy dst off src =
     (let n = min (length dst - off) (length src)
      in (take off dst @ take n src @ drop (off + n) dst, n))"

lemma length_go_copy [simp]:
  "off \<le> length dst \<Longrightarrow> length (fst (go_copy dst off src)) = length dst"
  by (auto simp: go_copy_def Let_def)

lemma go_copy_count [simp]: "snd (go_copy dst off src) = min (length dst - off) (length src)"
  by (simp add: go_copy_def Let_def)

lemma go_copy_fits:
  "off + length src \<le> length dst \<Longrightarrow>
     go_copy dst off src = (take off dst @ src @ drop (off + length src) dst, length src)"
  by (auto simp: go_copy_def Let_def min_def)

lemma take_append_exact: "take (length xs) (xs @ ys) = xs"
  by simp

lemma take_take_le: "n \<le> length (take m xs) \<Longrightarrow> take n (take m xs) = take n xs"
  by (simp add: min_absorb1)

lemma take_split: "take k xs @ take j (drop k xs) = take (k + j) xs"
  by (simp add: take_add)

lemma drop_split: "drop j (drop k xs) = drop (k + j) xs"
  by (simp add: add.commute)

lemma map_of_snoc: "k \<notin> fst ` set xs \<Longrightarrow> map_of (xs @ [(k, v)]) = (map_of xs)(k \<mapsto> v)"
  by (induction xs) (auto simp: fun_upd_twist)

lemma sum_fun_upd:
  fixes f :: "'a \<Rightarrow> nat" and k n :: nat
  assumes "k < n"
  shows "(\<Sum>j<n. f ((g(k := x)) j)) + f (g k) = (\<Sum>j<n. f (g j)) + f x"
proof -
  have "(\<Sum>j<n. f ((g(k := x)) j)) = f x + (\<Sum>j\<in>{..<n} - {k}. f ((g(k := x)) j))"
    using sum.remove [of "{..<n}" k "\<lambda>j. f ((g(k := x)) j)"] assms by simp
  moreover have "(\<Sum>j\<in>{..<n} - {k}. f ((g(k := x)) j)) = (\<Sum>j\<in>{..<n} - {k}. f (g j))"
    by (intro sum.cong) auto
  moreover have "(\<Sum>j<n. f (g j)) = f (g k) + (\<Sum>j\<in>{..<n} - {k}. f (g j))"
    using sum.remove [of "{..<n}" k "\<lambda>j. f (g j)"] assms by simp
  ultimately show ?thesis by simp
qed

text \<open>Go's integer division truncates towards zero.\<close>

definition go_div :: "int \<Rightarrow> int \<Rightarrow> int" where
  "go_div a b = sgn a * sgn b * (\<bar>a\<bar> div \<bar>b\<bar>)"

definition go_mod :: "int \<Rightarrow> int \<Rightarrow> int" where
  "go_mod a b = a - b * go_div a b"

lemma go_div_nonneg: "0 \<le> a \<Longrightarrow> 0 < b \<Longrightarrow> go_div a b = a div b"
  by (cases "a = 0") (auto simp: go_div_def)

lemma go_mod_nonneg: "0 \<le> a \<Longrightarrow> 0 < b \<Longrightarrow> go_mod a b = a mod b"
  by (simp add: go_mod_def go_div_nonneg minus_mult_div_eq_mod)

section \<open>Big-endian words\<close>

text \<open>
  \<open>binary.BigEndian\<close>: \<open>PutUint32\<close> and \<open>PutUint64\<close> store the most significant byte
  first; \<open>Uint32\<close> and \<open>Uint64\<close> read the first four or eight bytes of a slice and panic on a
  shorter one.
\<close>

definition put_u32 :: "u32 \<Rightarrow> byte list" where
  "put_u32 v = [ucast (drop_bit 24 v), ucast (drop_bit 16 v), ucast (drop_bit 8 v), ucast v]"

definition put_u64 :: "u64 \<Rightarrow> byte list" where
  "put_u64 v =
     [ucast (drop_bit 56 v), ucast (drop_bit 48 v), ucast (drop_bit 40 v), ucast (drop_bit 32 v),
      ucast (drop_bit 24 v), ucast (drop_bit 16 v), ucast (drop_bit 8 v), ucast v]"

fun be_u32 :: "byte list \<Rightarrow> u32" where
  "be_u32 (a # b # c # d # _) =
     ucast d OR push_bit 8 (ucast c) OR push_bit 16 (ucast b) OR push_bit 24 (ucast a)"
| "be_u32 _ = 0"

fun be_u64 :: "byte list \<Rightarrow> u64" where
  "be_u64 (a # b # c # d # e # f # g # h # _) =
     ucast h OR push_bit 8 (ucast g) OR push_bit 16 (ucast f) OR push_bit 24 (ucast e)
     OR push_bit 32 (ucast d) OR push_bit 40 (ucast c) OR push_bit 48 (ucast b)
     OR push_bit 56 (ucast a)"
| "be_u64 _ = 0"

definition get_u32 :: "byte list \<Rightarrow> go_error + u32" where
  "get_u32 bs = (if length bs < 4 then Inl (Panic ''index out of range'') else Inr (be_u32 bs))"

definition get_u64 :: "byte list \<Rightarrow> go_error + u64" where
  "get_u64 bs = (if length bs < 8 then Inl (Panic ''index out of range'') else Inr (be_u64 bs))"

lemma length_put_u32 [simp]: "length (put_u32 v) = 4"
  by (simp add: put_u32_def)

lemma length_put_u64 [simp]: "length (put_u64 v) = 8"
  by (simp add: put_u64_def)

lemma bit_byte_at:
  fixes v :: "'a::len word"
  shows "bit (push_bit k (ucast (ucast (drop_bit k v) :: byte)) :: 'a word) n \<longleftrightarrow>
     k \<le> n \<and> n < k + 8 \<and> bit v n"
proof -
  have "bit v n \<Longrightarrow> n < LENGTH('a)"
    by (rule bit_imp_le_length)
  then show ?thesis
    by (auto simp: bit_simps)
qed

lemma bit_byte_low:
  fixes v :: "'a::len word"
  shows "bit (ucast (ucast v :: byte) :: 'a word) n \<longleftrightarrow> n < 8 \<and> bit v n"
  using bit_byte_at [of 0 v n] by simp

lemma be_u32_put [simp]: "be_u32 (put_u32 v @ r) = v"
proof (rule bit_word_eqI)
  fix n assume "n < LENGTH(32)"
  then have n: "n < 32" by simp
  show "bit (be_u32 (put_u32 v @ r)) n = bit v n"
  proof (cases "bit v n")
    case True
    with n show ?thesis
      by (simp add: put_u32_def bit_or_iff bit_byte_at bit_byte_low) arith
  qed (simp add: put_u32_def bit_or_iff bit_byte_at bit_byte_low)
qed

lemma be_u64_put [simp]: "be_u64 (put_u64 v @ r) = v"
proof (rule bit_word_eqI)
  fix n assume "n < LENGTH(64)"
  then have n: "n < 64" by simp
  show "bit (be_u64 (put_u64 v @ r)) n = bit v n"
  proof (cases "bit v n")
    case True
    with n show ?thesis
      by (simp add: put_u64_def bit_or_iff bit_byte_at bit_byte_low) arith
  qed (simp add: put_u64_def bit_or_iff bit_byte_at bit_byte_low)
qed

lemma be_put_exact [simp]: "be_u32 (put_u32 v) = v" "be_u64 (put_u64 w) = w"
  using be_u32_put [of v "[]"] be_u64_put [of w "[]"] by simp_all

section \<open>Codec interfaces\<close>

text \<open>
  Every message of the program is laid out so that its reader knows where it ends:
  \<open>prefix_codec\<close> is that contract (decoding an encoding followed by anything gives the value
  and the rest), for the values \<open>ok\<close> that the format can represent. A \<open>fixed_codec\<close> is a
  format of constant width whose decoder reads the front of a slice; it is a prefix codec.
\<close>

fun dec_times :: "nat \<Rightarrow> ('b list \<Rightarrow> ('a \<times> 'b list) option) \<Rightarrow> 'b list \<Rightarrow> ('a list \<times> 'b list) option" where
  "dec_times 0 dec bs = Some ([], bs)"
| "dec_times (Suc n) dec bs =
     (case dec bs of
        None \<Rightarrow> None
      | Some (x, r) \<Rightarrow>
          (case dec_times n dec r of None \<Rightarrow> None | Some (xs, r') \<Rightarrow> Some (x # xs, r')))"

locale prefix_codec =
  fixes enc :: "'a \<Rightarrow> 'b list"
    and dec :: "'b list \<Rightarrow> ('a \<times> 'b list) option"
    and ok :: "'a \<Rightarrow> bool"
  assumes dec_enc: "ok x \<Longrightarrow> dec (enc x @ r) = Some (x, r)"
begin

lemma dec_enc_exact: "ok x \<Longrightarrow> dec (enc x) = Some (x, [])"
  using dec_enc [of x "[]"] by simp

lemma enc_prefix_free:
  assumes "ok x" "ok y" "enc x @ r = enc y @ s"
  shows "x = y \<and> r = s"
proof -
  have "Some (x, r) = Some (y, s)"
    using assms dec_enc by metis
  then show ?thesis by simp
qed

lemma dec_times_concat:
  "list_all ok xs \<Longrightarrow> dec_times (length xs) dec (concat (map enc xs) @ r) = Some (xs, r)"
  by (induction xs) (auto simp: dec_enc)

end

locale fixed_codec =
  fixes enc :: "'a \<Rightarrow> 'b list"
    and get :: "'b list \<Rightarrow> 'a"
    and width :: nat
    and ok :: "'a \<Rightarrow> bool"
  assumes length_enc: "length (enc x) = width"
    and get_enc: "ok x \<Longrightarrow> get (enc x @ r) = x"
begin

definition split_dec :: "'b list \<Rightarrow> ('a \<times> 'b list) option" where
  "split_dec bs = (if length bs < width then None else Some (get bs, drop width bs))"

lemma get_enc_exact: "ok x \<Longrightarrow> get (enc x) = x"
  using get_enc [of x "[]"] by simp

lemma split_dec_short: "split_dec bs = None \<longleftrightarrow> length bs < width"
  by (simp add: split_dec_def)

lemma split_dec_enc: "ok x \<Longrightarrow> split_dec (enc x @ r) = Some (x, r)"
  by (simp add: split_dec_def length_enc get_enc)

end

sublocale fixed_codec \<subseteq> prefix: prefix_codec enc split_dec ok
  by unfold_locales (rule split_dec_enc)

interpretation u32c: fixed_codec put_u32 be_u32 4 "\<lambda>_. True"
  by unfold_locales simp_all

interpretation u64c: fixed_codec put_u64 be_u64 8 "\<lambda>_. True"
  by unfold_locales simp_all

section \<open>Streams\<close>

text \<open>
  What a connection will deliver: the remaining bytes, cut into the segments that the kernel
  hands out. One \<open>Read(p)\<close> returns bytes of one segment only, at most \<open>len(p)\<close> of them; an
  empty stream is at end of file.
\<close>

type_synonym stream = "byte list list"

fun drop_segs :: "nat \<Rightarrow> stream \<Rightarrow> stream" where
  "drop_segs n [] = []"
| "drop_segs n (s # ss) =
     (if n = 0 then s # ss
      else if n < length s then drop n s # ss
      else drop_segs (n - length s) ss)"

lemma concat_drop_segs [simp, stream]: "concat (drop_segs n ss) = drop n (concat ss)"
  by (induction n ss rule: drop_segs.induct) auto

text \<open>
  \<open>io.ReadFull\<close> (and \<open>binary.Read\<close>, which calls it): \<open>EOF\<close> if not one byte came,
  \<open>ErrUnexpectedEOF\<close> if some but not all did.
\<close>

definition read_full :: "nat \<Rightarrow> stream \<Rightarrow> (go_error + byte list) \<times> stream" where
  "read_full n ss =
     (let bs = concat ss in
      if n = 0 then (Inr [], ss)
      else if bs = [] then (Inl EOF, [])
      else if length bs < n then (Inl UnexpectedEOF, [])
      else (Inr (take n bs), drop_segs n ss))"

lemma read_full_ok [stream]:
  "n \<le> length (concat ss) \<Longrightarrow> fst (read_full n ss) = Inr (take n (concat ss))"
  by (auto simp: read_full_def Let_def simp del: concat_eq_Nil_conv)

lemma read_full_rest [stream]:
  "n \<le> length (concat ss) \<Longrightarrow> concat (snd (read_full n ss)) = drop n (concat ss)"
  by (auto simp: read_full_def Let_def simp del: concat_eq_Nil_conv)

lemma read_full_short:
  "length (concat ss) < n \<Longrightarrow>
     read_full n ss = (Inl (if concat ss = [] then EOF else UnexpectedEOF), [])"
  by (auto simp: read_full_def Let_def)

lemma read_full_exact:
  assumes "concat ss = bs @ r" "n = length bs"
  obtains ss' where "read_full n ss = (Inr bs, ss')" "concat ss' = r"
proof -
  have "n \<le> length (concat ss)" using assms by simp
  from read_full_ok [OF this] read_full_rest [OF this] that [of "snd (read_full n ss)"] assms
  show ?thesis by (cases "read_full n ss") auto
qed

text \<open>
  \<open>io.CopyN(dst, src, n)\<close> into a destination without \<open>ReadFrom\<close>: the chunks handed to
  \<open>dst.Write\<close>, one per \<open>Read\<close>, each at most the 32 KiB of the copy buffer.
\<close>

definition copy_buf :: nat where
  "copy_buf = 32768"

function copy_chunks :: "nat \<Rightarrow> stream \<Rightarrow> byte list list \<times> stream" where
  "copy_chunks n [] = ([], [])"
| "copy_chunks n (s # ss) =
     (if n = 0 then ([], s # ss)
      else if s = [] then copy_chunks n ss
      else let k = min copy_buf (min n (length s));
               (cs, r) = copy_chunks (n - k) (if k = length s then ss else drop k s # ss)
           in (take k s # cs, r))"
  by pat_completeness auto
termination
  by (relation "measures [fst, \<lambda>(n, ss). length ss]") (auto simp: copy_buf_def)

declare copy_chunks.simps(2) [simp del]

lemma copy_chunks_0 [simp]: "copy_chunks 0 ss = ([], ss)"
  by (cases ss) (simp_all add: copy_chunks.simps(2))

lemma copy_chunks_spec:
  "concat (fst (copy_chunks n ss)) = take n (concat ss) \<and>
   concat (snd (copy_chunks n ss)) = drop n (concat ss) \<and>
   [] \<notin> set (fst (copy_chunks n ss))"
proof (induction n ss rule: copy_chunks.induct)
  case (1 n)
  show ?case by simp
next
  case (2 n s ss)
  let ?k = "min copy_buf (min n (length s))"
  show ?case
  proof (cases "n = 0 \<or> s = []")
    case True
    then show ?thesis using 2(1) by (auto simp: copy_chunks.simps(2) [of n s ss])
  next
    case False
    let ?ss = "if ?k = length s then ss else drop ?k s # ss"
    have k: "0 < ?k" "?k \<le> n" "?k \<le> length s"
      using False by (auto simp: copy_buf_def)
    have rest: "concat ?ss = drop ?k (concat (s # ss))"
      using k by simp
    obtain cs r where cr: "copy_chunks (n - ?k) ?ss = (cs, r)"
      by (cases "copy_chunks (n - ?k) ?ss")
    have IH: "concat cs = take (n - ?k) (concat ?ss) \<and> concat r = drop (n - ?k) (concat ?ss)
        \<and> [] \<notin> set cs"
      using 2(2) [OF _ _ refl] False cr by simp
    have eq: "copy_chunks n (s # ss) = (take ?k s # cs, r)"
      using False cr by (simp add: copy_chunks.simps(2) [of n s ss] Let_def)
    have "take n (concat (s # ss)) = take ?k (concat (s # ss)) @ take (n - ?k) (drop ?k (concat (s # ss)))"
      using k by (metis le_add_diff_inverse take_add)
    moreover have "take ?k (concat (s # ss)) = take ?k s"
      using k by simp
    moreover have "drop n (concat (s # ss)) = drop (n - ?k) (drop ?k (concat (s # ss)))"
      using k by simp
    moreover have "take ?k s \<noteq> []"
      using k False by auto
    ultimately show ?thesis
      using IH rest unfolding eq by simp
  qed
qed

end
