(* ===== verification/Ring_Buffer.thy ===== *)
theory Ring_Buffer
  imports Net_Prelude
begin

text \<open>
  The growable ring buffer of \<open>pkg/iorpc/buffer.go\<close> in which the message decoder collects
  headers: its state, \<open>Read\<close>, \<open>Write\<close>, \<open>TrySlice\<close>, \<open>Produce\<close>, \<open>Consume\<close> and
  \<open>Reset\<close>, with every slice expression bounds-checked and every remainder by the capacity
  guarded, as the Go run-time does. The abstract specification is a first-in first-out byte
  queue (locale \<open>byte_fifo\<close>), which the ring buffer is shown to implement wherever it does not
  panic; the theory also pins down exactly when \<open>Write\<close> panics.
\<close>

named_theorems ring

section \<open>State and operations\<close>

record ring =
  rb_start :: int
  rb_size :: int
  rb_buf :: "byte list"

definition newRingBuffer :: "nat \<Rightarrow> ring" where
  "newRingBuffer c = \<lparr>rb_start = 0, rb_size = 0, rb_buf = replicate c 0\<rparr>"

definition rb_capacity :: "ring \<Rightarrow> int" where
  "rb_capacity b = int (length (rb_buf b))"

definition rb_reset :: "ring \<Rightarrow> ring" where
  "rb_reset b = b\<lparr>rb_start := 0, rb_size := 0\<rparr>"

text \<open>\<open>a % b.Capacity()\<close>, which panics on an empty buffer.\<close>

definition mod_capacity :: "int \<Rightarrow> ring \<Rightarrow> go_error + int" where
  "mod_capacity a b =
     (if rb_capacity b = 0 then Inl (Panic ''integer divide by zero'')
      else Inr (go_mod a (rb_capacity b)))"

definition rb_produce :: "(go_error + ring \<times> nat) \<Rightarrow> go_error + ring \<times> nat" where
  "rb_produce r =
     (case r of
        Inl e \<Rightarrow> Inl e
      | Inr (b, n) \<Rightarrow> Inr (b\<lparr>rb_size := rb_size b + int n\<rparr>, n))"

definition rb_consume :: "ring \<Rightarrow> nat \<Rightarrow> go_error + ring" where
  "rb_consume b n =
     (case mod_capacity (rb_start b + int n) b of
        Inl e \<Rightarrow> Inl e
      | Inr s \<Rightarrow> Inr (b\<lparr>rb_start := s, rb_size := rb_size b - int n\<rparr>))"

text \<open>\<open>read(p)\<close> with \<open>len(p) = plen\<close>: the bytes stored at the front of \<open>p\<close>.\<close>

definition rb_read_raw :: "ring \<Rightarrow> nat \<Rightarrow> go_error + byte list" where
  "rb_read_raw b plen =
     (if rb_size b = 0 then Inl EOF
      else if rb_start b + rb_size b \<le> rb_capacity b
      then (case go_slice (rb_buf b) (rb_start b) (rb_start b + rb_size b) of
              Inl e \<Rightarrow> Inl e
            | Inr d \<Rightarrow> Inr (take plen d))
      else (case go_slice (rb_buf b) (rb_start b) (rb_capacity b) of
              Inl e \<Rightarrow> Inl e
            | Inr d1 \<Rightarrow>
                (let n = min plen (length d1) in
                 if plen > n
                 then (case mod_capacity (rb_start b + rb_size b) b of
                         Inl e \<Rightarrow> Inl e
                       | Inr m \<Rightarrow>
                           (case go_slice (rb_buf b) 0 m of
                              Inl e \<Rightarrow> Inl e
                            | Inr d2 \<Rightarrow> Inr (take n d1 @ take (plen - n) d2)))
                 else Inr (take n d1))))"

definition rb_read :: "ring \<Rightarrow> nat \<Rightarrow> go_error + (byte list \<times> ring)" where
  "rb_read b plen =
     (case rb_read_raw b plen of
        Inl e \<Rightarrow> Inl e
      | Inr d \<Rightarrow> (case rb_consume b (length d) of Inl e \<Rightarrow> Inl e | Inr b' \<Rightarrow> Inr (d, b')))"

definition rb_trySlice :: "ring \<Rightarrow> int \<Rightarrow> go_error + (byte list \<times> bool)" where
  "rb_trySlice b want =
     (if rb_size b = 0 then Inr ([], False)
      else let size = (if rb_size b < want then rb_size b else want) in
        if rb_start b + size \<le> rb_capacity b
        then (case go_slice (rb_buf b) (rb_start b) (rb_start b + size) of
                Inl e \<Rightarrow> Inl e
              | Inr d \<Rightarrow> Inr (d, True))
        else (case rb_read_raw b (nat size) of
                Inl e \<Rightarrow> Inl e
              | Inr d \<Rightarrow> Inr (d, False)))"

definition rb_TrySlice :: "ring \<Rightarrow> int \<Rightarrow> go_error + (byte list \<times> bool \<times> ring)" where
  "rb_TrySlice b want =
     (case rb_trySlice b want of
        Inl e \<Rightarrow> Inl e
      | Inr (d, sliced) \<Rightarrow>
          (case rb_consume b (length d) of Inl e \<Rightarrow> Inl e | Inr b' \<Rightarrow> Inr (d, sliced, b')))"

text \<open>
  \<open>write(p)\<close>. When the content and \<open>p\<close> exceed the capacity, the content is moved to the front
  of a buffer of exactly their joint size; otherwise \<open>p\<close> is copied behind the content,
  continuing at the front of the buffer. The slice \<open>b.buf[b.start+b.size:]\<close> is taken without
  reducing its bound modulo the capacity.
\<close>

definition rb_write_raw :: "ring \<Rightarrow> byte list \<Rightarrow> go_error + ring \<times> nat" where
  "rb_write_raw b p =
     (if rb_size b + int (length p) > rb_capacity b
      then (case rb_trySlice b (rb_size b) of
              Inl e \<Rightarrow> Inl e
            | Inr (d, sliced) \<Rightarrow> Inr (b\<lparr>rb_start := 0, rb_buf := d @ p\<rparr>, length p))
      else (case go_slice (rb_buf b) (rb_start b + rb_size b) (rb_capacity b) of
              Inl e \<Rightarrow> Inl e
            | Inr behind \<Rightarrow>
                (let (buf1, n) = go_copy (rb_buf b) (nat (rb_start b + rb_size b)) p in
                 if length p > n
                 then (let (buf2, m) = go_copy buf1 0 (drop n p)
                       in Inr (b\<lparr>rb_buf := buf2\<rparr>, n + m))
                 else Inr (b\<lparr>rb_buf := buf1\<rparr>, n))))"

definition rb_write :: "ring \<Rightarrow> byte list \<Rightarrow> go_error + ring \<times> nat" where
  "rb_write b p = rb_produce (rb_write_raw b p)"

section \<open>Well-formed rings and their content\<close>

definition rb_wf :: "ring \<Rightarrow> bool" where
  "rb_wf b \<longleftrightarrow> 0 \<le> rb_start b \<and> (rb_start b < rb_capacity b \<or> rb_start b = 0)
      \<and> 0 \<le> rb_size b \<and> rb_size b \<le> rb_capacity b"

text \<open>The content, oldest byte first: what lies from \<open>start\<close> on, then from the front.\<close>

definition rb_abs :: "ring \<Rightarrow> byte list" where
  "rb_abs b = take (nat (rb_size b)) (drop (nat (rb_start b)) (rb_buf b) @ rb_buf b)"

text \<open>A write that does not run into the unreduced slice bound.\<close>

definition rb_ready :: "ring \<Rightarrow> byte list \<Rightarrow> bool" where
  "rb_ready b p \<longleftrightarrow> rb_size b + int (length p) > rb_capacity b
      \<or> rb_start b + rb_size b \<le> rb_capacity b"

lemma rb_wf_new [simp]: "rb_wf (newRingBuffer c)"
  by (simp add: rb_wf_def newRingBuffer_def rb_capacity_def)

lemma rb_abs_new [simp]: "rb_abs (newRingBuffer c) = []"
  by (simp add: rb_abs_def newRingBuffer_def)

lemma rb_capacity_new [simp]: "rb_capacity (newRingBuffer c) = int c"
  by (simp add: rb_capacity_def newRingBuffer_def)

lemma rb_wf_reset [simp]: "rb_wf b \<Longrightarrow> rb_wf (rb_reset b)"
  by (simp add: rb_wf_def rb_reset_def rb_capacity_def)

lemma length_rb_abs [ring]: "rb_wf b \<Longrightarrow> length (rb_abs b) = nat (rb_size b)"
  by (auto simp: rb_wf_def rb_abs_def rb_capacity_def)

lemma rb_abs_empty: "rb_wf b \<Longrightarrow> rb_abs b = [] \<longleftrightarrow> rb_size b = 0"
  using length_rb_abs [of b] by (auto simp: rb_wf_def)

lemma rb_abs_flat:
  "rb_wf b \<Longrightarrow> rb_start b + rb_size b \<le> rb_capacity b \<Longrightarrow>
     rb_abs b = take (nat (rb_size b)) (drop (nat (rb_start b)) (rb_buf b))"
  by (auto simp: rb_wf_def rb_abs_def rb_capacity_def)

lemma rb_abs_front:
  assumes wf: "rb_wf b" and m: "m \<le> rb_size b" and fits: "rb_start b + m \<le> rb_capacity b"
  shows "take (nat m) (rb_abs b) = take (nat m) (drop (nat (rb_start b)) (rb_buf b))"
proof -
  have "nat m \<le> nat (rb_size b)" using m by simp
  moreover have "nat m \<le> length (drop (nat (rb_start b)) (rb_buf b))"
    using wf fits by (auto simp: rb_wf_def rb_capacity_def)
  ultimately show ?thesis by (simp add: rb_abs_def min_def)
qed

lemma rb_abs_wrapped:
  assumes "rb_wf b" "rb_capacity b < rb_start b + rb_size b"
  shows "rb_abs b = drop (nat (rb_start b)) (rb_buf b)
      @ take (nat (rb_start b + rb_size b - rb_capacity b)) (rb_buf b)"
proof -
  have "nat (rb_size b) - (length (rb_buf b) - nat (rb_start b))
      = nat (rb_start b + rb_size b - rb_capacity b)"
    using assms by (auto simp: rb_wf_def rb_capacity_def)
  with assms show ?thesis by (auto simp: rb_abs_def rb_wf_def rb_capacity_def)
qed

section \<open>Reading\<close>

lemma mod_capacity_ok:
  "0 \<le> a \<Longrightarrow> 0 < rb_capacity b \<Longrightarrow> mod_capacity a b = Inr (a mod rb_capacity b)"
  by (simp add: mod_capacity_def go_mod_nonneg)

lemma wrap_mod:
  fixes a c :: int
  assumes "c \<le> a" "a < 2 * c"
  shows "a mod c = a - c"
proof -
  have "a mod c = (a - c) mod c" by simp
  also have "\<dots> = a - c" using assms by (intro mod_pos_pos_trivial) auto
  finally show ?thesis .
qed

lemma rb_read_raw_empty [simp]: "rb_size b = 0 \<Longrightarrow> rb_read_raw b plen = Inl EOF"
  by (simp add: rb_read_raw_def)

lemma rb_read_raw_ok [ring]:
  assumes wf: "rb_wf b" and ne: "rb_size b \<noteq> 0"
  shows "rb_read_raw b plen = Inr (take plen (rb_abs b))"
proof (cases "rb_start b + rb_size b \<le> rb_capacity b")
  case True
  then show ?thesis
    using wf ne rb_abs_flat [OF wf True]
    by (auto simp: rb_read_raw_def rb_wf_def rb_capacity_def go_slice_ok)
next
  case False
  let ?s = "rb_start b" and ?z = "rb_size b" and ?c = "rb_capacity b"
  have bounds: "0 \<le> ?s" "?s < ?c" "0 < ?z" "?z \<le> ?c" "?c < ?s + ?z"
    using wf ne False by (auto simp: rb_wf_def)
  have md: "mod_capacity (?s + ?z) b = Inr (?s + ?z - ?c)"
    using bounds by (simp add: mod_capacity_ok wrap_mod)
  have s1: "go_slice (rb_buf b) ?s ?c = Inr (drop (nat ?s) (rb_buf b))"
    using bounds by (simp add: rb_capacity_def)
  have s2: "go_slice (rb_buf b) 0 (?s + ?z - ?c) = Inr (take (nat (?s + ?z - ?c)) (rb_buf b))"
    using bounds by (simp add: go_slice_def rb_capacity_def)
  have ab: "rb_abs b = drop (nat ?s) (rb_buf b) @ take (nat (?s + ?z - ?c)) (rb_buf b)"
    using rb_abs_wrapped [OF wf] bounds by simp
  show ?thesis
    using False ne by (auto simp: rb_read_raw_def s1 s2 md ab Let_def min_def)
qed

text \<open>Dropping \<open>n\<close> bytes of content moves the start along, around the end of the buffer.\<close>

lemma rb_consume_ok [ring]:
  assumes wf: "rb_wf b" and n: "n \<le> length (rb_abs b)" and c: "0 < rb_capacity b"
  obtains b' where "rb_consume b n = Inr b'" "rb_wf b'" "rb_abs b' = drop n (rb_abs b)"
    "rb_capacity b' = rb_capacity b" "rb_size b' = rb_size b - int n"
proof -
  let ?s = "rb_start b" and ?z = "rb_size b" and ?c = "rb_capacity b"
  have bounds: "0 \<le> ?s" "?s < ?c" "0 \<le> ?z" "?z \<le> ?c" "int n \<le> ?z"
    using wf c n length_rb_abs [OF wf] by (auto simp: rb_wf_def)
  define s' where "s' = (?s + int n) mod ?c"
  define b' where "b' = b\<lparr>rb_start := s', rb_size := ?z - int n\<rparr>"
  have len: "int (length (rb_buf b)) = ?c"
    by (simp add: rb_capacity_def)
  have s': "0 \<le> s'" "s' < ?c" using c by (simp_all add: s'_def)
  have con: "rb_consume b n = Inr b'"
    using bounds c by (simp add: rb_consume_def mod_capacity_ok b'_def s'_def)
  have wf': "rb_wf b'"
    using s' bounds by (simp add: rb_wf_def b'_def rb_capacity_def)
  have z: "nat (?z - int n) = nat ?z - n" by simp
  have drp: "drop n (rb_abs b) = take (nat ?z - n) (drop n (drop (nat ?s) (rb_buf b) @ rb_buf b))"
    by (simp only: rb_abs_def drop_take)
  have "rb_abs b' = drop n (rb_abs b)"
  proof (cases "?s + int n < ?c")
    case True
    then have "s' = ?s + int n" using bounds by (simp add: s'_def)
    then have s: "nat s' = nat ?s + n" using bounds by simp
    have "n \<le> length (drop (nat ?s) (rb_buf b))"
      using True bounds len by simp
    then have "drop n (drop (nat ?s) (rb_buf b) @ rb_buf b) = drop (nat s') (rb_buf b) @ rb_buf b"
      by (simp add: s add.commute)
    then show ?thesis
      unfolding drp by (simp add: rb_abs_def b'_def z)
  next
    case False
    then have "s' = ?s + int n - ?c" using bounds by (simp add: s'_def wrap_mod)
    then have s: "nat s' = n - length (drop (nat ?s) (rb_buf b))"
      using bounds False len by simp
    have "drop n (drop (nat ?s) (rb_buf b) @ rb_buf b) = drop (nat s') (rb_buf b)"
      using bounds False len by (simp add: s)
    moreover have "nat ?z - n \<le> length (drop (nat s') (rb_buf b))"
      using bounds False len s by simp
    ultimately show ?thesis
      unfolding drp by (simp add: rb_abs_def b'_def z)
  qed
  with con wf' that show ?thesis
    by (simp add: b'_def rb_capacity_def)
qed

lemma rb_read_ok [ring]:
  assumes wf: "rb_wf b" and ne: "rb_size b \<noteq> 0"
  obtains b' where "rb_read b plen = Inr (take plen (rb_abs b), b')" "rb_wf b'"
    "rb_abs b' = drop plen (rb_abs b)" "rb_capacity b' = rb_capacity b"
proof -
  have c: "0 < rb_capacity b" using wf ne by (auto simp: rb_wf_def)
  obtain b' where b': "rb_consume b (length (take plen (rb_abs b))) = Inr b'" "rb_wf b'"
      "rb_abs b' = drop (length (take plen (rb_abs b))) (rb_abs b)" "rb_capacity b' = rb_capacity b"
    using rb_consume_ok [OF wf _ c, of "length (take plen (rb_abs b))"] by auto
  have "rb_read b plen = Inr (take plen (rb_abs b), b')"
    using b'(1) by (simp add: rb_read_def rb_read_raw_ok [OF wf ne])
  moreover have "rb_abs b' = drop plen (rb_abs b)"
    using b'(3) by (simp add: min_def split: if_splits)
  ultimately show ?thesis using that b' by blast
qed

lemma rb_trySlice_ok [ring]:
  assumes wf: "rb_wf b" and k: "0 \<le> k"
  obtains sliced where "rb_trySlice b k = Inr (take (nat k) (rb_abs b), sliced)"
    "sliced \<longleftrightarrow> rb_size b \<noteq> 0 \<and> rb_start b + min (rb_size b) k \<le> rb_capacity b"
proof (cases "rb_size b = 0")
  case True
  then show ?thesis
    using that [of False] wf rb_abs_empty [OF wf] by (simp add: rb_trySlice_def)
next
  case False
  let ?m = "if rb_size b < k then rb_size b else k"
  have m: "?m = min (rb_size b) k" by (auto simp: min_def)
  have tk: "take (nat ?m) (rb_abs b) = take (nat k) (rb_abs b)"
    using length_rb_abs [OF wf] by auto
  show ?thesis
  proof (cases "rb_start b + ?m \<le> rb_capacity b")
    case True
    have ab: "take (nat ?m) (rb_abs b) = take (nat ?m) (drop (nat (rb_start b)) (rb_buf b))"
      using rb_abs_front [OF wf _ True] k by simp
    have sl: "go_slice (rb_buf b) (rb_start b) (rb_start b + ?m)
        = Inr (take (nat ?m) (drop (nat (rb_start b)) (rb_buf b)))"
      using True wf k by (subst go_slice_ok) (simp_all add: rb_wf_def rb_capacity_def)
    have "rb_trySlice b k = Inr (take (nat ?m) (rb_abs b), True)"
      using False True by (simp add: rb_trySlice_def Let_def ab sl)
    then show ?thesis using that [of True] False True m tk by simp
  next
    case wrap: False
    have "rb_trySlice b k = Inr (take (nat ?m) (rb_abs b), False)"
      using False wrap by (simp add: rb_trySlice_def Let_def rb_read_raw_ok [OF wf False])
    then show ?thesis using that [of False] False wrap m tk by simp
  qed
qed

lemma rb_TrySlice_ok [ring]:
  assumes wf: "rb_wf b" and k: "0 \<le> k" and c: "0 < rb_capacity b"
  obtains sliced b' where "rb_TrySlice b k = Inr (take (nat k) (rb_abs b), sliced, b')"
    "rb_wf b'" "rb_abs b' = drop (nat k) (rb_abs b)" "rb_capacity b' = rb_capacity b"
    "sliced \<longleftrightarrow> rb_size b \<noteq> 0 \<and> rb_start b + min (rb_size b) k \<le> rb_capacity b"
proof -
  obtain sliced where t: "rb_trySlice b k = Inr (take (nat k) (rb_abs b), sliced)"
      "sliced \<longleftrightarrow> rb_size b \<noteq> 0 \<and> rb_start b + min (rb_size b) k \<le> rb_capacity b"
    using rb_trySlice_ok [OF wf k] by blast
  obtain b' where b': "rb_consume b (length (take (nat k) (rb_abs b))) = Inr b'" "rb_wf b'"
      "rb_abs b' = drop (length (take (nat k) (rb_abs b))) (rb_abs b)"
      "rb_capacity b' = rb_capacity b"
    using rb_consume_ok [OF wf _ c, of "length (take (nat k) (rb_abs b))"] by auto
  have "rb_abs b' = drop (nat k) (rb_abs b)"
    using b'(3) by (simp add: min_def split: if_splits)
  then show ?thesis
    using that [of sliced b'] t b' by (simp add: rb_TrySlice_def)
qed

section \<open>Writing\<close>

lemma rb_write_grows:
  assumes wf: "rb_wf b" and big: "rb_capacity b < rb_size b + int (length p)"
  shows "rb_write b p =
    Inr (b\<lparr>rb_start := 0, rb_buf := rb_abs b @ p, rb_size := rb_size b + int (length p)\<rparr>, length p)"
proof -
  obtain sliced where "rb_trySlice b (rb_size b) = Inr (take (nat (rb_size b)) (rb_abs b), sliced)"
    using rb_trySlice_ok [OF wf, of "rb_size b"] wf by (auto simp: rb_wf_def)
  then show ?thesis
    using big length_rb_abs [OF wf] by (simp add: rb_write_def rb_produce_def rb_write_raw_def)
qed

text \<open>The bytes behind the content, and those that continue at the front of the buffer.\<close>

lemma rb_write_fits:
  assumes wf: "rb_wf b" and fits: "rb_size b + int (length p) \<le> rb_capacity b"
    and flat: "rb_start b + rb_size b \<le> rb_capacity b"
  defines "off \<equiv> nat (rb_start b + rb_size b)"
  defines "n \<equiv> min (length (rb_buf b) - off) (length p)"
  shows "rb_write b p = Inr (b\<lparr>rb_buf :=
      (let b1 = take off (rb_buf b) @ take n p @ drop (off + n) (rb_buf b)
       in drop n p @ drop (length p - n) b1), rb_size := rb_size b + int (length p)\<rparr>, length p)"
proof -
  have sl: "go_slice (rb_buf b) (rb_start b + rb_size b) (rb_capacity b) = Inr (drop off (rb_buf b))"
    using wf flat by (simp add: rb_capacity_def off_def rb_wf_def)
  have lp: "length p \<le> length (rb_buf b)"
    using fits wf by (simp add: rb_capacity_def rb_wf_def)
  let ?b1 = "take off (rb_buf b) @ take n p @ drop (off + n) (rb_buf b)"
  have c1: "go_copy (rb_buf b) off p = (?b1, n)"
    by (simp add: go_copy_def n_def Let_def)
  have l1: "length ?b1 = length (rb_buf b)"
    using flat wf by (auto simp: n_def off_def rb_capacity_def rb_wf_def)
  have c2: "go_copy ?b1 0 (drop n p) = (drop n p @ drop (length p - n) ?b1, length p - n)"
    using lp l1 by (subst go_copy_fits) simp_all
  have n: "n \<le> length p" by (simp add: n_def)
  show ?thesis
  proof (cases "n < length p")
    case True
    then show ?thesis
      using fits n by (simp add: rb_write_def rb_produce_def rb_write_raw_def sl c1 c2 Let_def
          off_def [symmetric])
  next
    case False
    then have "n = length p" using n by simp
    then show ?thesis
      using fits by (simp add: rb_write_def rb_produce_def rb_write_raw_def sl c1 Let_def
          off_def [symmetric])
  qed
qed

lemma rb_write_panic:
  assumes wf: "rb_wf b" and "\<not> rb_ready b p"
  shows "rb_write b p = Inl (Panic ''slice bounds out of range'')"
proof -
  have b: "rb_size b + int (length p) \<le> rb_capacity b" "rb_capacity b < rb_start b + rb_size b"
    using assms(2) by (auto simp: rb_ready_def)
  then have "go_slice (rb_buf b) (rb_start b + rb_size b) (rb_capacity b)
      = Inl (Panic ''slice bounds out of range'')"
    by (intro go_slice_panic) simp
  then show ?thesis
    using b by (simp add: rb_write_def rb_produce_def rb_write_raw_def)
qed

lemma rb_write_ok [ring]:
  assumes wf: "rb_wf b" and rdy: "rb_ready b p"
  obtains b' where "rb_write b p = Inr (b', length p)" "rb_wf b'" "rb_abs b' = rb_abs b @ p"
    "rb_capacity b' = max (rb_capacity b) (rb_size b + int (length p))"
    "rb_size b' = rb_size b + int (length p)"
    "rb_size b + int (length p) \<le> rb_capacity b \<Longrightarrow> rb_start b' = rb_start b"
proof (cases "rb_capacity b < rb_size b + int (length p)")
  case True
  let ?b = "b\<lparr>rb_start := 0, rb_buf := rb_abs b @ p, rb_size := rb_size b + int (length p)\<rparr>"
  have z: "int (length (rb_abs b)) = rb_size b" "0 \<le> rb_size b"
    using length_rb_abs [OF wf] wf by (auto simp: rb_wf_def)
  have "rb_wf ?b" "rb_capacity ?b = rb_size b + int (length p)"
    using z by (simp_all add: rb_wf_def rb_capacity_def)
  moreover have "rb_abs ?b = rb_abs b @ p"
  proof -
    have "nat (rb_size b + int (length p)) = length (rb_abs b @ p)"
      using z by (simp add: nat_add_distrib flip: z(1))
    moreover have "rb_abs ?b = take (nat (rb_size b + int (length p)))
        ((rb_abs b @ p) @ rb_abs b @ p)"
      by (simp add: rb_abs_def [of ?b])
    ultimately show ?thesis by (simp only: take_append_exact)
  qed
  ultimately show ?thesis
    using that [OF rb_write_grows [OF wf True]] True by simp
next
  case False
  let ?L = "length (rb_buf b)" and ?s = "nat (rb_start b)" and ?z = "nat (rb_size b)"
  have fits: "rb_size b + int (length p) \<le> rb_capacity b" using False by simp
  have flat: "rb_start b + rb_size b \<le> rb_capacity b" using rdy fits by (simp add: rb_ready_def)
  define off where "off = nat (rb_start b + rb_size b)"
  define n where "n = min (?L - off) (length p)"
  define b1 where "b1 = take off (rb_buf b) @ take n p @ drop (off + n) (rb_buf b)"
  define b2 where "b2 = drop n p @ drop (length p - n) b1"
  let ?b = "b\<lparr>rb_buf := b2, rb_size := rb_size b + int (length p)\<rparr>"
  have w: "rb_write b p = Inr (?b, length p)"
    using rb_write_fits [OF wf fits flat] unfolding b2_def b1_def n_def off_def by (simp add: Let_def)
  have off: "off = ?s + ?z" "?s + ?z \<le> ?L" "?z + length p \<le> ?L"
    using wf flat fits by (auto simp: off_def rb_wf_def rb_capacity_def)
  have offL: "off \<le> ?L" using off by simp
  have np: "n \<le> length p" and n2: "n \<le> ?L - off"
    unfolding n_def by (rule min.cobounded2, rule min.cobounded1)
  have l1: "length b1 = ?L"
    unfolding b1_def using offL n2 np by simp
  have l2: "length b2 = ?L"
    unfolding b2_def using l1 np off(3) by simp
  have wf': "rb_wf ?b" and cap': "rb_capacity ?b = rb_capacity b"
    using wf fits l2 by (auto simp: rb_wf_def rb_capacity_def)
  have m: "length p - n \<le> ?s" using off unfolding n_def by linarith
  have "drop ?s b2 = drop ?s b1"
    using m np by (simp add: b2_def)
  also have "\<dots> = take ?z (drop ?s (rb_buf b)) @ take n p @ drop (off + n) (rb_buf b)"
    using off by (simp add: b1_def drop_take)
  finally have d2: "drop ?s b2 = take ?z (drop ?s (rb_buf b)) @ take n p @ drop (off + n) (rb_buf b)" .
  have lz: "length (take ?z (drop ?s (rb_buf b))) = ?z" using off by simp
  have ab: "rb_abs b = take ?z (drop ?s (rb_buf b))" using rb_abs_flat [OF wf flat] .
  have nz: "nat (rb_size b + int (length p)) = ?z + length p"
    using wf by (simp add: rb_wf_def nat_add_distrib)
  have "rb_abs ?b = take (?z + length p) (drop ?s b2 @ b2)"
    by (simp add: rb_abs_def nz)
  also have "\<dots> = rb_abs b @ p"
  proof (cases "n = length p")
    case True
    then show ?thesis unfolding d2 ab using lz by simp
  next
    case False
    then have "n = ?L - off" unfolding n_def by linarith
    then have "drop (off + n) (rb_buf b) = []" using off by simp
    moreover have "take (length p - n) b2 = drop n p" by (simp add: b2_def)
    ultimately show ?thesis unfolding d2 ab using lz np by simp
  qed
  finally have "rb_abs ?b = rb_abs b @ p" .
  then show ?thesis
    using that [OF w wf'] cap' fits by simp
qed

lemma rb_ready_empty [simp]:
  assumes "rb_wf b" "rb_abs b = []"
  shows "rb_ready b p"
  using assms rb_abs_empty [of b] by (auto simp: rb_ready_def rb_wf_def)

section \<open>The queue the ring buffer implements\<close>

text \<open>
  The contract the message decoder relies on: an accepted write appends, a slice takes from the
  front, and an empty queue accepts any write. \<open>run_queue\<close> drives an implementation through a
  list of operations and collects what the slices return; \<open>fifo_run\<close> is the specification, a
  plain byte list.
\<close>

datatype queue_op = QWrite "byte list" | QSlice nat

fun run_queue :: "('q \<Rightarrow> byte list \<Rightarrow> 'q option) \<Rightarrow> ('q \<Rightarrow> nat \<Rightarrow> (byte list \<times> 'q) option) \<Rightarrow>
    'q \<Rightarrow> queue_op list \<Rightarrow> (byte list list \<times> 'q) option" where
  "run_queue wr sl q [] = Some ([], q)"
| "run_queue wr sl q (QWrite p # ops) =
     (case wr q p of None \<Rightarrow> None | Some q' \<Rightarrow> run_queue wr sl q' ops)"
| "run_queue wr sl q (QSlice n # ops) =
     (case sl q n of
        None \<Rightarrow> None
      | Some (d, q') \<Rightarrow>
          (case run_queue wr sl q' ops of None \<Rightarrow> None | Some (ds, q'') \<Rightarrow> Some (d # ds, q'')))"

fun fifo_run :: "byte list \<Rightarrow> queue_op list \<Rightarrow> byte list list \<times> byte list" where
  "fifo_run xs [] = ([], xs)"
| "fifo_run xs (QWrite p # ops) = fifo_run (xs @ p) ops"
| "fifo_run xs (QSlice n # ops) = (let (ds, ys) = fifo_run (drop n xs) ops in (take n xs # ds, ys))"

fun write_all :: "('q \<Rightarrow> byte list \<Rightarrow> 'q option) \<Rightarrow> 'q \<Rightarrow> byte list list \<Rightarrow> 'q option" where
  "write_all wr q [] = Some q"
| "write_all wr q (c # cs) = (case wr q c of None \<Rightarrow> None | Some q' \<Rightarrow> write_all wr q' cs)"

locale byte_fifo =
  fixes inv :: "'q \<Rightarrow> bool"
    and content :: "'q \<Rightarrow> byte list"
    and wr :: "'q \<Rightarrow> byte list \<Rightarrow> 'q option"
    and sl :: "'q \<Rightarrow> nat \<Rightarrow> (byte list \<times> 'q) option"
  assumes wr_inv: "inv q \<Longrightarrow> wr q p = Some q' \<Longrightarrow> inv q' \<and> content q' = content q @ p"
    and wr_empty: "inv q \<Longrightarrow> content q = [] \<Longrightarrow> wr q p \<noteq> None"
    and sl_take: "inv q \<Longrightarrow> \<exists>q'. sl q n = Some (take n (content q), q') \<and> inv q'
        \<and> content q' = drop n (content q)"
begin

lemma run_refines:
  "inv q \<Longrightarrow> run_queue wr sl q ops = Some (ds, q') \<Longrightarrow>
     inv q' \<and> fifo_run (content q) ops = (ds, content q')"
proof (induction ops arbitrary: q ds)
  case Nil
  then show ?case by simp
next
  case (Cons op ops)
  show ?case
  proof (cases op)
    case (QWrite p)
    obtain q1 where q1: "wr q p = Some q1" "run_queue wr sl q1 ops = Some (ds, q')"
      using Cons.prems(2) QWrite by (auto split: option.splits)
    have "inv q1" "content q1 = content q @ p" using wr_inv [OF Cons.prems(1) q1(1)] by auto
    then show ?thesis using Cons.IH [OF _ q1(2)] QWrite by simp
  next
    case (QSlice n)
    obtain q1 where "sl q n = Some (take n (content q), q1)" "inv q1"
        "content q1 = drop n (content q)"
      using sl_take [OF Cons.prems(1)] by blast
    with Cons QSlice show ?thesis by (fastforce split: option.splits prod.splits)
  qed
qed

lemma write_all_content:
  "inv q \<Longrightarrow> write_all wr q cs = Some q' \<Longrightarrow> inv q' \<and> content q' = content q @ concat cs"
  by (induction cs arbitrary: q) (auto split: option.splits dest: wr_inv)

text \<open>The decoder's pattern: fill an empty queue, then take exactly what was put in.\<close>

lemma fill_then_slice:
  assumes "inv q" "content q = []" "write_all wr q cs = Some q'" "n = length (concat cs)"
  shows "\<exists>q''. sl q' n = Some (concat cs, q'') \<and> inv q'' \<and> content q'' = []"
proof -
  have "inv q'" "content q' = concat cs"
    using write_all_content [OF assms(1,3)] assms(2) by auto
  then show ?thesis using sl_take [of q' n] assms(4) by auto
qed

lemma write_one_chunk:
  "inv q \<Longrightarrow> content q = [] \<Longrightarrow> write_all wr q [c] \<noteq> None"
  using wr_empty by (auto split: option.splits)

end

text \<open>The ring buffer as such a queue: a panic is \<open>None\<close>.\<close>

definition rb_put :: "ring \<Rightarrow> byte list \<Rightarrow> ring option" where
  "rb_put b p = (case rb_write b p of Inl e \<Rightarrow> None | Inr (b', n) \<Rightarrow> Some b')"

definition rb_get :: "ring \<Rightarrow> nat \<Rightarrow> (byte list \<times> ring) option" where
  "rb_get b n = (case rb_TrySlice b (int n) of Inl e \<Rightarrow> None | Inr (d, sliced, b') \<Rightarrow> Some (d, b'))"

definition rb_inv :: "ring \<Rightarrow> bool" where
  "rb_inv b \<longleftrightarrow> rb_wf b \<and> 0 < rb_capacity b"

lemma rb_put_cases:
  assumes "rb_wf b" "rb_put b p = Some b'"
  shows "rb_ready b p"
proof (rule ccontr)
  assume "\<not> rb_ready b p"
  then show False using assms rb_write_panic [of b p] by (simp add: rb_put_def)
qed

interpretation rb: byte_fifo rb_inv rb_abs rb_put rb_get
proof unfold_locales
  fix q p q' assume q: "rb_inv q" and w: "rb_put q p = Some q'"
  have "rb_ready q p" using rb_put_cases q w by (simp add: rb_inv_def)
  then obtain b' where "rb_write q p = Inr (b', length p)" "rb_wf b'" "rb_abs b' = rb_abs q @ p"
      "rb_capacity b' = max (rb_capacity q) (rb_size q + int (length p))"
    using rb_write_ok [of q p] q by (auto simp: rb_inv_def)
  with w q show "rb_inv q' \<and> rb_abs q' = rb_abs q @ p"
    by (auto simp: rb_put_def rb_inv_def)
next
  fix q p assume q: "rb_inv q" and e: "rb_abs q = []"
  have "rb_ready q p" using rb_ready_empty q e by (simp add: rb_inv_def)
  then obtain b' where "rb_write q p = Inr (b', length p)"
    using rb_write_ok [of q p] q by (auto simp: rb_inv_def)
  then show "rb_put q p \<noteq> None" by (simp add: rb_put_def)
next
  fix q n assume q: "rb_inv q"
  obtain sliced b' where "rb_TrySlice q (int n) = Inr (take n (rb_abs q), sliced, b')" "rb_wf b'"
      "rb_abs b' = drop n (rb_abs q)" "rb_capacity b' = rb_capacity q"
    using q rb_TrySlice_ok [of q "int n"] unfolding rb_inv_def by (metis nat_int of_nat_0_le_iff)
  then show "\<exists>q'. rb_get q n = Some (take n (rb_abs q), q') \<and> rb_inv q' \<and> rb_abs q' = drop n (rb_abs q)"
    using q by (auto simp: rb_get_def rb_inv_def)
qed

section \<open>Properties\<close>

text \<open>
  The specification with the panics: a byte list, the capacity and the offset of the first byte. A write that
  exceeds the capacity makes it the new size and moves the content to offset 0; a write that fits is refused
  (\<open>None\<close>) if the content reaches past the end of the buffer; a slice moves the offset around the buffer.
\<close>

fun bounded_fifo :: "nat \<Rightarrow> nat \<Rightarrow> byte list \<Rightarrow> queue_op list \<Rightarrow> (byte list list \<times> byte list) option" where
  "bounded_fifo c off xs [] = Some ([], xs)"
| "bounded_fifo c off xs (QWrite p # ops) =
     (if c < length xs + length p then bounded_fifo (length xs + length p) 0 (xs @ p) ops
      else if c < off + length xs then None
      else bounded_fifo c off (xs @ p) ops)"
| "bounded_fifo c off xs (QSlice n # ops) =
     (case bounded_fifo c ((off + min n (length xs)) mod c) (drop n xs) ops of
        None \<Rightarrow> None
      | Some (ds, ys) \<Rightarrow> Some (take n xs # ds, ys))"

lemma bounded_fifo_run: "bounded_fifo c off xs ops = Some r \<Longrightarrow> fifo_run xs ops = r"
  by (induction c off xs ops arbitrary: r rule: bounded_fifo.induct) (auto split: if_splits option.splits prod.splits)

lemma rb_inv_bounds:
  assumes "rb_inv b"
  shows "int (nat (rb_capacity b)) = rb_capacity b" "int (nat (rb_start b)) = rb_start b"
    "int (length (rb_abs b)) = rb_size b" "0 < rb_capacity b" "rb_wf b"
  using assms length_rb_abs [of b] by (auto simp: rb_inv_def rb_wf_def)

lemma rb_put_grows:
  assumes b: "rb_inv b" and big: "rb_capacity b < rb_size b + int (length p)"
  shows "\<exists>b'. rb_put b p = Some b' \<and> rb_inv b' \<and> rb_abs b' = rb_abs b @ p
     \<and> rb_capacity b' = rb_size b + int (length p) \<and> rb_start b' = 0"
proof -
  obtain b' where b': "rb_write b p = Inr (b', length p)" "rb_wf b'" "rb_abs b' = rb_abs b @ p"
      "rb_capacity b' = max (rb_capacity b) (rb_size b + int (length p))"
    using rb_write_ok [of b p] b big by (auto simp: rb_inv_def rb_ready_def)
  moreover have "rb_start b' = 0" using rb_write_grows [OF _ big] b b'(1) by (auto simp: rb_inv_def)
  ultimately show ?thesis using b big by (auto simp: rb_put_def rb_inv_def)
qed

lemma rb_put_fits:
  assumes b: "rb_inv b" and fits: "rb_size b + int (length p) \<le> rb_capacity b" "rb_start b + rb_size b \<le> rb_capacity b"
  shows "\<exists>b'. rb_put b p = Some b' \<and> rb_inv b' \<and> rb_abs b' = rb_abs b @ p
     \<and> rb_capacity b' = rb_capacity b \<and> rb_start b' = rb_start b"
proof -
  obtain b' where "rb_write b p = Inr (b', length p)" "rb_wf b'" "rb_abs b' = rb_abs b @ p"
      "rb_capacity b' = max (rb_capacity b) (rb_size b + int (length p))"
      "rb_size b + int (length p) \<le> rb_capacity b \<Longrightarrow> rb_start b' = rb_start b"
    using rb_write_ok [of b p] b fits by (auto simp: rb_inv_def rb_ready_def)
  then show ?thesis using b fits by (auto simp: rb_put_def rb_inv_def)
qed

lemma rb_get_moves:
  assumes b: "rb_inv b"
  shows "\<exists>b'. rb_get b n = Some (take n (rb_abs b), b') \<and> rb_inv b' \<and> rb_abs b' = drop n (rb_abs b)
     \<and> rb_capacity b' = rb_capacity b
     \<and> rb_start b' = (rb_start b + int (min n (length (rb_abs b)))) mod rb_capacity b"
proof -
  note bb = rb_inv_bounds [OF b]
  obtain sliced b' where t: "rb_TrySlice b (int n) = Inr (take n (rb_abs b), sliced, b')" "rb_wf b'"
      "rb_abs b' = drop n (rb_abs b)" "rb_capacity b' = rb_capacity b"
    by (rule rb_TrySlice_ok [OF bb(5) _ bb(4), of "int n"]) (simp, use that in simp)
  have "rb_consume b (length (take n (rb_abs b))) = Inr b'"
    using t(1) by (auto simp: rb_TrySlice_def split: sum.splits)
  then have "rb_start b' = (rb_start b + int (min n (length (rb_abs b)))) mod rb_capacity b"
    using bb b by (auto simp: rb_consume_def mod_capacity_ok rb_wf_def min.commute split: sum.splits)
  then show ?thesis using t b by (auto simp: rb_get_def rb_inv_def)
qed

lemma ring_run:
  "rb_inv b \<Longrightarrow>
   case bounded_fifo (nat (rb_capacity b)) (nat (rb_start b)) (rb_abs b) ops of
     None \<Rightarrow> run_queue rb_put rb_get b ops = None
   | Some (ds, xs) \<Rightarrow> \<exists>b'. run_queue rb_put rb_get b ops = Some (ds, b') \<and> rb_abs b' = xs \<and> rb_wf b'"
proof (induction ops arbitrary: b)
  case Nil
  then show ?case by (simp add: rb_inv_def)
next
  case (Cons op ops)
  note bb = rb_inv_bounds [OF Cons.prems]
  show ?case
  proof (cases op)
    case (QWrite p)
    consider (grow) "rb_capacity b < rb_size b + int (length p)"
      | (fit) "rb_size b + int (length p) \<le> rb_capacity b" "rb_start b + rb_size b \<le> rb_capacity b"
      | (panic) "rb_size b + int (length p) \<le> rb_capacity b" "rb_capacity b < rb_start b + rb_size b"
      by linarith
    then show ?thesis
    proof cases
      case grow
      then obtain b' where b': "rb_put b p = Some b'" "rb_inv b'" "rb_abs b' = rb_abs b @ p"
          "rb_capacity b' = rb_size b + int (length p)" "rb_start b' = 0"
        using rb_put_grows [OF Cons.prems grow] by blast
      have c: "nat (rb_capacity b) < length (rb_abs b) + length p"
          "nat (rb_capacity b') = length (rb_abs b) + length p" using grow bb b'(4) by linarith+
      show ?thesis using Cons.IH [OF b'(2)] b'(1,3,5) c by (auto simp: QWrite split: option.splits)
    next
      case fit
      then obtain b' where b': "rb_put b p = Some b'" "rb_inv b'" "rb_abs b' = rb_abs b @ p"
          "rb_capacity b' = rb_capacity b" "rb_start b' = rb_start b"
        using rb_put_fits [OF Cons.prems fit] by blast
      have c: "\<not> nat (rb_capacity b) < length (rb_abs b) + length p"
          "\<not> nat (rb_capacity b) < nat (rb_start b) + length (rb_abs b)" using fit bb by linarith+
      show ?thesis using Cons.IH [OF b'(2)] b' c by (auto simp: QWrite split: option.splits)
    next
      case panic
      then have "rb_put b p = None" using rb_write_panic [OF bb(5), of p] by (simp add: rb_put_def rb_ready_def)
      moreover have "\<not> nat (rb_capacity b) < length (rb_abs b) + length p"
          "nat (rb_capacity b) < nat (rb_start b) + length (rb_abs b)" using panic bb by linarith+
      ultimately show ?thesis by (simp add: QWrite)
    qed
  next
    case (QSlice n)
    obtain b' where b': "rb_get b n = Some (take n (rb_abs b), b')" "rb_inv b'" "rb_abs b' = drop n (rb_abs b)"
        "rb_capacity b' = rb_capacity b" "rb_start b' = (rb_start b + int (min n (length (rb_abs b)))) mod rb_capacity b"
      using rb_get_moves [OF Cons.prems] by blast
    have "int (nat (rb_start b')) = int ((nat (rb_start b) + min n (length (rb_abs b))) mod nat (rb_capacity b))"
      using rb_inv_bounds [OF b'(2)] bb b'(5) by (simp only: zmod_int of_nat_add)
    then have "nat (rb_start b') = (nat (rb_start b) + min n (length (rb_abs b))) mod nat (rb_capacity b)"
      by (simp only: of_nat_eq_iff)
    then show ?thesis using Cons.IH [OF b'(2)] b' by (auto simp: QSlice split: option.splits)
  qed
qed

text \<open>
  C2. The ring buffer refines a byte queue of growing capacity, panics included: from a new buffer of positive
  capacity, any sequence of writes and slices panics exactly where the specification refuses a write (one that
  would fit while the content wraps around the end); otherwise it returns what the specification returns, with
  its bytes as the final content. And what the specification returns is what a plain first-in first-out list does.
\<close>

theorem ring_refines_fifo:
  assumes "0 < c"
  shows "case bounded_fifo c 0 [] ops of
           None \<Rightarrow> run_queue rb_put rb_get (newRingBuffer c) ops = None
         | Some (ds, xs) \<Rightarrow> fifo_run [] ops = (ds, xs)
             \<and> (\<exists>b. run_queue rb_put rb_get (newRingBuffer c) ops = Some (ds, b) \<and> rb_abs b = xs \<and> rb_wf b)"
proof -
  have "rb_inv (newRingBuffer c)" "rb_start (newRingBuffer c) = 0"
    using assms by (simp add: rb_inv_def, simp add: newRingBuffer_def)
  then show ?thesis
    using ring_run [of "newRingBuffer c" ops] bounded_fifo_run [of c 0 "[]" ops] by (auto split: option.splits)
qed

theorem ring_refines_fifo_witness:
  "(\<exists>b. run_queue rb_put rb_get (newRingBuffer 8)
      [QWrite [1, 2, 3, 4, 5, 6], QSlice 5, QWrite [7, 8, 9], QSlice 3, QWrite [10]]
        = Some ([[1, 2, 3, 4, 5], [6, 7, 8]], b) \<and> rb_abs b = [9, 10])
   \<and> run_queue rb_put rb_get (newRingBuffer 8)
      [QWrite [1, 2, 3, 4, 5, 6], QSlice 5, QWrite [7, 8, 9], QWrite [10]] = None"
proof -
  let ?ops = "[QWrite [1, 2, 3, 4, 5, 6], QSlice 5, QWrite [7, 8, 9], QSlice 3, QWrite [10 :: byte]]"
  have "bounded_fifo 8 0 [] ?ops = Some ([[1, 2, 3, 4, 5], [6, 7, 8]], [9, 10])"
      "bounded_fifo 8 0 [] [QWrite [1, 2, 3, 4, 5, 6], QSlice 5, QWrite [7, 8, 9], QWrite [10 :: byte]] = None"
    by simp_all
  then show ?thesis
    using ring_refines_fifo [of 8 ?ops]
      ring_refines_fifo [of 8 "[QWrite [1, 2, 3, 4, 5, 6], QSlice 5, QWrite [7, 8, 9], QWrite [10]]"] by auto
qed

text \<open>
  C22. A write panics exactly when the buffer's content already reaches past the end of the
  buffer (it wraps around) and the new bytes would still fit: there the slice bound
  \<open>start+size\<close> exceeds the length of the buffer. In every other case the write succeeds.
\<close>

theorem ring_write_panics_iff:
  assumes "rb_wf b"
  shows "(\<exists>m. rb_write b p = Inl (Panic m)) \<longleftrightarrow>
     rb_capacity b < rb_start b + rb_size b \<and> rb_size b + int (length p) \<le> rb_capacity b"
proof (cases "rb_ready b p")
  case True
  then obtain b' where "rb_write b p = Inr (b', length p)" using rb_write_ok [OF assms] by blast
  with True show ?thesis by (auto simp: rb_ready_def)
next
  case False
  then show ?thesis using rb_write_panic [OF assms False] by (auto simp: rb_ready_def)
qed

definition wrapped_ring :: ring where
  "wrapped_ring = \<lparr>rb_start = 6, rb_size = 5, rb_buf = [3, 4, 5, 0, 0, 0, 1, 2]\<rparr>"

theorem ring_write_panics_iff_witness:
  "rb_wf wrapped_ring
   \<and> run_queue rb_put rb_get (newRingBuffer 8)
       [QWrite [0, 0, 0, 0, 0, 0], QSlice 6, QWrite [1, 2, 3, 4, 5]] = Some ([[0, 0, 0, 0, 0, 0]], wrapped_ring)
   \<and> (\<exists>m. rb_write wrapped_ring [6] = Inl (Panic m))"
proof -
  have wf: "rb_wf wrapped_ring" by (simp add: rb_wf_def wrapped_ring_def rb_capacity_def)
  have "run_queue rb_put rb_get (newRingBuffer 8)
       [QWrite [0, 0, 0, 0, 0, 0], QSlice 6, QWrite [1, 2, 3, 4, 5]] = Some ([[0, 0, 0, 0, 0, 0]], wrapped_ring)"
    by code_simp
  moreover have "\<exists>m. rb_write wrapped_ring [6] = Inl (Panic m)"
    by (subst ring_write_panics_iff [OF wf]) (simp add: wrapped_ring_def rb_capacity_def)
  ultimately show ?thesis using wf by blast
qed

end
