(* ===== verification/Conn_Stats.thy ===== *)
theory Conn_Stats
  imports Net_Prelude "HOL-Library.Multiset"
begin

text \<open>
  The connection statistics of \<open>pkg/iorpc/conn_stats*.go\<close>: fourteen 64-bit counters that
  concurrently running goroutines bump with atomic additions. Each update function of the source
  is a definition; \<open>stat_op\<close> reifies an update, so that the updates of several goroutines, in
  any interleaving, are a list. The lemmas show that the interleaving does not matter and that
  each counter is the sum of what was added to it, modulo \<open>2 ^ 64\<close>.
\<close>

named_theorems stat

record conn_stats =
  RPCCalls :: u64
  RPCTime :: u64
  BodyWritten :: u64
  BodyRead :: u64
  HeadWritten :: u64
  HeadRead :: u64
  ReadCalls :: u64
  ReadErrors :: u64
  WriteCalls :: u64
  WriteErrors :: u64
  DialCalls :: u64
  DialErrors :: u64
  AcceptCalls :: u64
  AcceptErrors :: u64

definition zero_stats :: conn_stats where
  "zero_stats = \<lparr>RPCCalls = 0, RPCTime = 0, BodyWritten = 0, BodyRead = 0, HeadWritten = 0, HeadRead = 0, ReadCalls = 0, ReadErrors = 0, WriteCalls = 0, WriteErrors = 0, DialCalls = 0, DialErrors = 0, AcceptCalls = 0, AcceptErrors = 0\<rparr>"

text \<open>\<open>Snapshot\<close> loads the counters one by one; \<open>Reset\<close> stores zero in each.\<close>

definition Snapshot :: "conn_stats \<Rightarrow> conn_stats" where
  "Snapshot cs = \<lparr>RPCCalls = RPCCalls cs,
     RPCTime = RPCTime cs,
     BodyWritten = BodyWritten cs,
     BodyRead = BodyRead cs,
     HeadWritten = HeadWritten cs,
     HeadRead = HeadRead cs,
     ReadCalls = ReadCalls cs,
     ReadErrors = ReadErrors cs,
     WriteCalls = WriteCalls cs,
     WriteErrors = WriteErrors cs,
     DialCalls = DialCalls cs,
     DialErrors = DialErrors cs,
     AcceptCalls = AcceptCalls cs,
     AcceptErrors = AcceptErrors cs\<rparr>"

definition stats_Reset :: "conn_stats \<Rightarrow> conn_stats" where
  "stats_Reset cs = cs\<lparr>RPCCalls := 0,
     RPCTime := 0,
     HeadWritten := 0,
     BodyWritten := 0,
     HeadRead := 0,
     BodyRead := 0,
     WriteCalls := 0,
     WriteErrors := 0,
     ReadCalls := 0,
     ReadErrors := 0,
     DialCalls := 0,
     DialErrors := 0,
     AcceptCalls := 0,
     AcceptErrors := 0\<rparr>"

definition incRPCCalls :: "conn_stats \<Rightarrow> conn_stats" where [stat]:
  "incRPCCalls cs = cs\<lparr>RPCCalls := RPCCalls cs + 1\<rparr>"

definition incRPCTime :: "u64 \<Rightarrow> conn_stats \<Rightarrow> conn_stats" where [stat]:
  "incRPCTime n cs = cs\<lparr>RPCTime := RPCTime cs + n\<rparr>"

definition addHeadWritten :: "u64 \<Rightarrow> conn_stats \<Rightarrow> conn_stats" where [stat]:
  "addHeadWritten n cs = cs\<lparr>HeadWritten := HeadWritten cs + n\<rparr>"

definition addHeadRead :: "u64 \<Rightarrow> conn_stats \<Rightarrow> conn_stats" where [stat]:
  "addHeadRead n cs = cs\<lparr>HeadRead := HeadRead cs + n\<rparr>"

definition addBodyWritten :: "u64 \<Rightarrow> conn_stats \<Rightarrow> conn_stats" where [stat]:
  "addBodyWritten n cs = cs\<lparr>BodyWritten := BodyWritten cs + n\<rparr>"

definition addBodyRead :: "u64 \<Rightarrow> conn_stats \<Rightarrow> conn_stats" where [stat]:
  "addBodyRead n cs = cs\<lparr>BodyRead := BodyRead cs + n\<rparr>"

definition incReadCalls :: "conn_stats \<Rightarrow> conn_stats" where [stat]:
  "incReadCalls cs = cs\<lparr>ReadCalls := ReadCalls cs + 1\<rparr>"

definition incReadErrors :: "conn_stats \<Rightarrow> conn_stats" where [stat]:
  "incReadErrors cs = cs\<lparr>ReadErrors := ReadErrors cs + 1\<rparr>"

definition incWriteCalls :: "conn_stats \<Rightarrow> conn_stats" where [stat]:
  "incWriteCalls cs = cs\<lparr>WriteCalls := WriteCalls cs + 1\<rparr>"

definition incWriteErrors :: "conn_stats \<Rightarrow> conn_stats" where [stat]:
  "incWriteErrors cs = cs\<lparr>WriteErrors := WriteErrors cs + 1\<rparr>"

definition incDialCalls :: "conn_stats \<Rightarrow> conn_stats" where [stat]:
  "incDialCalls cs = cs\<lparr>DialCalls := DialCalls cs + 1\<rparr>"

definition incDialErrors :: "conn_stats \<Rightarrow> conn_stats" where [stat]:
  "incDialErrors cs = cs\<lparr>DialErrors := DialErrors cs + 1\<rparr>"

definition incAcceptCalls :: "conn_stats \<Rightarrow> conn_stats" where [stat]:
  "incAcceptCalls cs = cs\<lparr>AcceptCalls := AcceptCalls cs + 1\<rparr>"

definition incAcceptErrors :: "conn_stats \<Rightarrow> conn_stats" where [stat]:
  "incAcceptErrors cs = cs\<lparr>AcceptErrors := AcceptErrors cs + 1\<rparr>"

section \<open>Interleavings\<close>

datatype stat_op =
    IncRPCCalls
  | IncRPCTime u64
  | AddHeadWritten u64
  | AddHeadRead u64
  | AddBodyWritten u64
  | AddBodyRead u64
  | IncReadCalls
  | IncReadErrors
  | IncWriteCalls
  | IncWriteErrors
  | IncDialCalls
  | IncDialErrors
  | IncAcceptCalls
  | IncAcceptErrors

fun apply_stat :: "stat_op \<Rightarrow> conn_stats \<Rightarrow> conn_stats" where
  "apply_stat IncRPCCalls = incRPCCalls"
| "apply_stat (IncRPCTime n) = incRPCTime n"
| "apply_stat (AddHeadWritten n) = addHeadWritten n"
| "apply_stat (AddHeadRead n) = addHeadRead n"
| "apply_stat (AddBodyWritten n) = addBodyWritten n"
| "apply_stat (AddBodyRead n) = addBodyRead n"
| "apply_stat IncReadCalls = incReadCalls"
| "apply_stat IncReadErrors = incReadErrors"
| "apply_stat IncWriteCalls = incWriteCalls"
| "apply_stat IncWriteErrors = incWriteErrors"
| "apply_stat IncDialCalls = incDialCalls"
| "apply_stat IncDialErrors = incDialErrors"
| "apply_stat IncAcceptCalls = incAcceptCalls"
| "apply_stat IncAcceptErrors = incAcceptErrors"

definition run_stats :: "stat_op list \<Rightarrow> conn_stats \<Rightarrow> conn_stats" where
  "run_stats ops cs = fold apply_stat ops cs"

text \<open>What one update adds to a counter, given by the counter's selector.\<close>

definition added :: "(conn_stats \<Rightarrow> u64) \<Rightarrow> stat_op \<Rightarrow> u64" where
  "added counter op = counter (apply_stat op zero_stats)"

definition counters :: "(conn_stats \<Rightarrow> u64) list" where
  "counters = [RPCCalls, RPCTime, BodyWritten, BodyRead, HeadWritten, HeadRead, ReadCalls, ReadErrors, WriteCalls, WriteErrors, DialCalls, DialErrors, AcceptCalls, AcceptErrors]"

lemma stats_eqI:
  "(\<And>c. c \<in> set counters \<Longrightarrow> c s = c t) \<Longrightarrow> s = t" for s t :: conn_stats
  by (rule conn_stats.equality) (simp_all add: counters_def)

lemma apply_stat_adds:
  "c \<in> set counters \<Longrightarrow> c (apply_stat op s) = c s + added c op"
  by (cases op) (auto simp: counters_def added_def zero_stats_def stat)

lemma run_stats_sum:
  "c \<in> set counters \<Longrightarrow> c (run_stats ops s) = c s + sum_list (map (added c) ops)"
  by (induction ops arbitrary: s) (auto simp: run_stats_def apply_stat_adds add.assoc)

section \<open>Properties\<close>

text \<open>
  However the atomic updates of the goroutines interleave, the counters end the same: two
  schedules of the same updates give the same statistics.
\<close>

theorem stats_schedule_independent:
  assumes "mset ops = mset ops'"
  shows "run_stats ops s = run_stats ops' s"
proof (rule stats_eqI)
  fix c assume c: "c \<in> set counters"
  have "sum_list (map (added c) ops) = sum_mset (image_mset (added c) (mset ops))"
    by (simp add: sum_mset_sum_list flip: mset_map)
  also have "\<dots> = sum_list (map (added c) ops')"
    by (simp add: assms sum_mset_sum_list flip: mset_map)
  finally show "c (run_stats ops s) = c (run_stats ops' s)"
    by (simp add: run_stats_sum [OF c])
qed

theorem stats_schedule_independent_witness:
  "run_stats [IncRPCCalls, AddBodyRead 7, IncRPCTime 3, IncRPCCalls] zero_stats
     = run_stats [IncRPCTime 3, IncRPCCalls, IncRPCCalls, AddBodyRead 7] zero_stats
   \<and> RPCCalls (run_stats [IncRPCCalls, AddBodyRead 7, IncRPCTime 3, IncRPCCalls] zero_stats) = 2"
  using stats_schedule_independent
    [of "[IncRPCCalls, AddBodyRead 7, IncRPCTime 3, IncRPCCalls]"
        "[IncRPCTime 3, IncRPCCalls, IncRPCCalls, AddBodyRead 7]" zero_stats]
  by (simp add: run_stats_def zero_stats_def stat)

lemma stats_Reset_zero: "stats_Reset s = zero_stats"
  by (simp add: stats_Reset_def zero_stats_def)

lemma Snapshot_id: "Snapshot s = s"
  by (simp add: Snapshot_def)

text \<open>
  After a reset, every counter of a snapshot is the sum, modulo \<open>2 ^ 64\<close>, of what the
  updates since added to it: \<open>Reset\<close> forgets no counter, \<open>Snapshot\<close> mixes up none, and no
  update touches a counter that is not its own.
\<close>

theorem snapshot_sums_updates:
  "\<forall>c\<in>set counters. c (Snapshot (run_stats ops (stats_Reset s))) = sum_list (map (added c) ops)"
proof
  fix c assume c: "c \<in> set counters"
  have "c zero_stats = 0" using c by (auto simp: counters_def zero_stats_def)
  then show "c (Snapshot (run_stats ops (stats_Reset s))) = sum_list (map (added c) ops)"
    by (simp add: Snapshot_id stats_Reset_zero run_stats_sum [OF c])
qed

theorem snapshot_sums_updates_witness:
  "HeadWritten \<in> set counters
   \<and> HeadWritten (Snapshot (run_stats [AddHeadWritten (- 1), IncDialCalls, AddHeadWritten 29]
       (stats_Reset zero_stats))) = 28"
proof -
  have c: "HeadWritten \<in> set counters" by (simp add: counters_def)
  have "HeadWritten (Snapshot (run_stats [AddHeadWritten (- 1), IncDialCalls, AddHeadWritten 29]
       (stats_Reset zero_stats)))
     = sum_list (map (added HeadWritten) [AddHeadWritten (- 1), IncDialCalls, AddHeadWritten 29])"
    using snapshot_sums_updates c by blast
  then show ?thesis using c by (simp add: added_def zero_stats_def stat)
qed

end
