(* ===== verification/Body_Splice.thy ===== *)
theory Body_Splice
  imports Net_Prelude
begin

text \<open>
  Message bodies and the zero-copy path, \<open>pkg/iorpc/body.go\<close> (and \<open>alignSize\<close> of
  \<open>utils/splice_utils.go\<close>). A body is a reader with an offset and a size; \<open>spliceTo\<close> moves it
  to a socket through a kernel pipe, filled from a file, a connection or a buffer. The kernel
  calls and the \<open>splice\<close> package are not part of the repository: what they answer is an
  argument, the record \<open>splice_env\<close>, whose lists hold the outcomes of successive calls. A call
  never moves more bytes than it is asked for, nor more than there are.

  The two transfer loops of the code (filling the pipe, draining it) have the same body,
  \<open>splice_loop\<close>; it consumes one outcome per kernel call and returns \<open>None\<close> while it is still
  looping when the outcomes are used up.
\<close>

section \<open>Readers, bodies, writers\<close>

text \<open>
  The interfaces a body reader may implement, in the order of the type switch in \<open>spliceTo\<close>;
  \<open>RNoop\<close> is \<open>noopBody\<close> and \<open>RPlain\<close> any other reader. \<open>r_data\<close> is what the reader holds
  (for a file its whole contents), \<open>r_pos\<close> how far sequential reading has come, and
  \<open>r_closes\<close> counts the calls of \<open>Close\<close>.
\<close>

datatype reader_kind = RPipe | RFile | RConn | RBuffer | RPlain | RNoop

record reader =
  r_kind :: reader_kind
  r_data :: "byte list"
  r_pos :: nat
  r_closes :: nat

definition r_rest :: "reader \<Rightarrow> byte list" where
  "r_rest r = drop (r_pos r) (r_data r)"

definition r_close :: "reader \<Rightarrow> reader" where
  "r_close r = r\<lparr>r_closes := r_closes r + 1\<rparr>"

definition noopBody :: reader where
  "noopBody = \<lparr>r_kind = RNoop, r_data = [], r_pos = 0, r_closes = 0\<rparr>"

record body =
  b_Offset :: u64
  b_Size :: u64
  b_Reader :: "reader option"
  b_NotClose :: bool

definition empty_body :: body where
  "empty_body = \<lparr>b_Offset = 0, b_Size = 0, b_Reader = None, b_NotClose = False\<rparr>"

definition body_Reset :: "body \<Rightarrow> body" where
  "body_Reset b = b\<lparr>b_Offset := 0, b_Size := 0, b_Reader := None, b_NotClose := False\<rparr>"

definition body_Close :: "body \<Rightarrow> body" where
  "body_Close b =
     (if b_NotClose b \<or> b_Reader b = None then b
      else b\<lparr>b_Reader := map_option r_close (b_Reader b)\<rparr>)"

text \<open>
  The \<open>io.Writer\<close> messages go to: what it has accepted so far, how much more its \<open>Write\<close>
  accepts before it fails (\<open>None\<close>: it never does) and with which error, and whether it is a
  \<open>syscall.Conn\<close>. A failing write has accepted the bytes there was room for.
\<close>

record writer =
  w_out :: "byte list"
  w_room :: "nat option"
  w_err :: go_error
  w_isconn :: bool

definition w_write :: "writer \<Rightarrow> byte list \<Rightarrow> writer \<times> nat \<times> go_error option" where
  "w_write w p =
     (case w_room w of
        None \<Rightarrow> (w\<lparr>w_out := w_out w @ p\<rparr>, length p, None)
      | Some k \<Rightarrow>
          if length p \<le> k
          then (w\<lparr>w_out := w_out w @ p, w_room := Some (k - length p)\<rparr>, length p, None)
          else (w\<lparr>w_out := w_out w @ take k p, w_room := Some 0\<rparr>, k, Some (w_err w)))"

lemma w_write_ok:
  "w_write w p = (w', n, None) \<Longrightarrow> w_out w' = w_out w @ p \<and> n = length p \<and> w_isconn w' = w_isconn w"
  by (auto simp: w_write_def split: option.splits if_splits)

section \<open>Page alignment\<close>

text \<open>\<open>alignSize\<close> of \<open>body.go\<close> and of \<open>splice_utils.go\<close>, for a page size \<open>page\<close>.\<close>

definition alignSize :: "int \<Rightarrow> int \<Rightarrow> int" where
  "alignSize page sz = sz + page - go_mod sz page"

definition utils_alignSize :: "int \<Rightarrow> int \<Rightarrow> int" where
  "utils_alignSize page sz = go_div (sz - 1) page * page + page"

section \<open>Filling and draining the pipe\<close>

text \<open>
  One kernel call: it moved up to \<open>n\<close> bytes; it was interrupted; it would block, and the
  run-time's poller then waits until the descriptor is ready or fails with an error of its own;
  it failed with another system error; or the \<open>splice\<close> package refused with an error that is
  not an \<open>os.SyscallError\<close>.
\<close>

datatype sys_result =
    SysOk nat
  | SysIntr
  | SysAgain "go_error option"
  | SysErr go_error
  | OtherErr nat go_error

definition moved :: "nat \<Rightarrow> int \<Rightarrow> int \<Rightarrow> byte list \<Rightarrow> nat" where
  "moved n sz dn src = min n (min (length src) (nat (sz - dn)))"

fun splice_loop :: "sys_result list \<Rightarrow> int \<Rightarrow> int \<Rightarrow> byte list \<Rightarrow> byte list \<Rightarrow>
    (go_error option \<times> byte list \<times> byte list) option" where
  "splice_loop [] sz dn src dst = None"
| "splice_loop (SysIntr # rs) sz dn src dst = splice_loop rs sz dn src dst"
| "splice_loop (SysAgain None # rs) sz dn src dst = splice_loop rs sz dn src dst"
| "splice_loop (SysAgain (Some e) # rs) sz dn src dst = Some (Some e, src, dst)"
| "splice_loop (SysErr e # rs) sz dn src dst = Some (Some e, src, dst)"
| "splice_loop (SysOk n # rs) sz dn src dst =
     (let k = moved n sz dn src; dn' = dn + int k in
      if dn' < sz then splice_loop rs sz dn' (drop k src) (dst @ take k src)
      else Some (None, drop k src, dst @ take k src))"
| "splice_loop (OtherErr n e # rs) sz dn src dst =
     (let k = moved n sz dn src; dn' = dn + int k in
      if dn' < sz then splice_loop rs sz dn' (drop k src) (dst @ take k src)
      else Some (Some e, drop k src, dst @ take k src))"

text \<open>
  What becomes of the pipe pair taken from the \<open>splice\<close> package's pool: given back
  (\<open>splice.Done\<close>), discarded (\<open>splice.Drop\<close>), wrapped in the returned \<open>Pipe\<close>, or forgotten.
\<close>

datatype pair_fate = NotTaken | GivenBack | Dropped | InPipe | Forgotten

record splice_env =
  se_page :: int
  se_raw :: "go_error option"
  se_get :: "go_error option"
  se_grow :: "int \<Rightarrow> go_error option"
  se_load_at :: "go_error + nat"
  se_loads :: "sys_result list"
  se_iovec :: "(nat \<times> go_error option)"
  se_dst_raw :: "go_error option"
  se_writes :: "sys_result list"

text \<open>\<open>PipeFile\<close>: the pipe holds what \<open>LoadFromAt\<close> read from the file at the offset.\<close>

definition PipeFile :: "splice_env \<Rightarrow> byte list \<Rightarrow> int \<Rightarrow> int \<Rightarrow> (go_error + byte list) \<times> pair_fate" where
  "PipeFile env file offset sz =
     (case se_get env of
        Some e \<Rightarrow> (Inl (Wrap ''get pipe pair'' e), NotTaken)
      | None \<Rightarrow>
          (case se_grow env (alignSize (se_page env) sz * 2) of
             Some e \<Rightarrow> (Inl (Wrap ''grow pipe pair'' e), Forgotten)
           | None \<Rightarrow>
               (case se_load_at env of
                  Inl e \<Rightarrow> (Inl (Wrap ''pair load file'' e), Forgotten)
                | Inr n \<Rightarrow> (Inr (take (min n (nat sz)) (drop (nat offset) file)), InPipe))))"

text \<open>
  \<open>PipeConn\<close>: the loop over \<open>LoadFrom\<close>. The second component is what is left in the connection;
  bytes that reached the pipe before an error are gone with it.
\<close>

definition PipeConn :: "splice_env \<Rightarrow> byte list \<Rightarrow> int \<Rightarrow>
    ((go_error + byte list) \<times> byte list \<times> pair_fate) option" where
  "PipeConn env conn sz =
     (case se_raw env of
        Some e \<Rightarrow> Some (Inl (Wrap ''get raw conn'' e), conn, NotTaken)
      | None \<Rightarrow>
          (case se_get env of
             Some e \<Rightarrow> Some (Inl (Wrap ''get pipe pair'' e), conn, NotTaken)
           | None \<Rightarrow>
               (case se_grow env (alignSize (se_page env) sz * 2) of
                  Some e \<Rightarrow> Some (Inl (Wrap ''grow pipe pair'' e), conn, Dropped)
                | None \<Rightarrow>
                    (case splice_loop (se_loads env) sz 0 conn [] of
                       None \<Rightarrow> None
                     | Some (Some e, conn', pipe) \<Rightarrow>
                         Some (Inl (Wrap ''pair load file'' e), conn', GivenBack)
                     | Some (None, conn', pipe) \<Rightarrow> Some (Inr pipe, conn', InPipe)))))"

text \<open>
  \<open>PipeBuffer\<close>: one \<open>write\<close> per slice of \<open>Iovec()\<close> (the program's buffers have one slice). The
  number of bytes the write accepted is ignored.
\<close>

definition PipeBuffer :: "splice_env \<Rightarrow> byte list \<Rightarrow> int \<Rightarrow> (go_error + byte list) \<times> pair_fate" where
  "PipeBuffer env chunk sz =
     (case se_get env of
        Some e \<Rightarrow> (Inl (Wrap ''get pipe pair'' e), NotTaken)
      | None \<Rightarrow>
          (case se_grow env (alignSize (se_page env) sz * 2) of
             Some e \<Rightarrow> (Inl (Wrap ''grow pipe pair'' e), Dropped)
           | None \<Rightarrow>
               (case se_iovec env of
                  (n, Some e) \<Rightarrow> (Inl (Wrap ''pair load buffer'' e), GivenBack)
                | (n, None) \<Rightarrow> (Inr (take n chunk), InPipe))))"

text \<open>Go's conversions of a 64-bit size to \<open>int\<close> / \<open>int64\<close> reinterpret the bits.\<close>

definition to_int :: "u64 \<Rightarrow> int" where
  "to_int v = sint v"

lemma to_int_small: "uint v < 2 ^ 63 \<Longrightarrow> to_int v = uint v" for v :: u64
proof -
  assume "uint v < 2 ^ 63"
  then have "signed_take_bit 63 (uint v) = uint v"
    by (intro signed_take_bit_int_eq_self) (auto intro: order_trans [of _ 0])
  then show ?thesis by (simp add: to_int_def sint_uint)
qed

text \<open>
  \<open>spliceTo\<close>: \<open>(spliced, err)\<close>, the writer and the body afterwards. A pipe that is the body's own
  reader is closed when the function returns.
\<close>

definition drain :: "splice_env \<Rightarrow> writer \<Rightarrow> body \<Rightarrow> byte list \<Rightarrow>
    (bool \<times> go_error option \<times> writer \<times> body) option" where
  "drain env w b pipe =
     (case splice_loop (se_writes env) (to_int (b_Size b)) 0 pipe [] of
        None \<Rightarrow> None
      | Some (err, rest, out) \<Rightarrow> Some (True, err, w\<lparr>w_out := w_out w @ out\<rparr>, b))"

definition spliceTo :: "splice_env \<Rightarrow> writer \<Rightarrow> body \<Rightarrow>
    (bool \<times> go_error option \<times> writer \<times> body) option" where
  "spliceTo env w b =
     (if \<not> w_isconn w then Some (False, None, w, b)
      else if se_dst_raw env \<noteq> None then Some (False, None, w, b)
      else case b_Reader b of
        None \<Rightarrow> Some (False, None, w, b)
      | Some r \<Rightarrow>
          (case r_kind r of
             RPipe \<Rightarrow> drain env w (b\<lparr>b_Reader := Some (r_close r)\<rparr>) (r_rest r)
           | RFile \<Rightarrow>
               (case PipeFile env (r_data r) (to_int (b_Offset b)) (to_int (b_Size b)) of
                  (Inl e, fate) \<Rightarrow> Some (False, None, w, b)
                | (Inr pipe, fate) \<Rightarrow> drain env w b pipe)
           | RConn \<Rightarrow>
               (case PipeConn env (r_rest r) (to_int (b_Size b)) of
                  None \<Rightarrow> None
                | Some (res, rest, fate) \<Rightarrow>
                    (let b' = b\<lparr>b_Reader := Some (r\<lparr>r_pos := length (r_data r) - length rest\<rparr>)\<rparr> in
                     case res of
                       Inl e \<Rightarrow> Some (False, None, w, b')
                     | Inr pipe \<Rightarrow> drain env w b' pipe))
           | RBuffer \<Rightarrow>
               (case PipeBuffer env (r_rest r) (to_int (b_Size b)) of
                  (Inl e, fate) \<Rightarrow> Some (False, None, w, b)
                | (Inr pipe, fate) \<Rightarrow> drain env w b pipe)
           | RPlain \<Rightarrow> Some (False, None, w, b)
           | RNoop \<Rightarrow> Some (False, None, w, b)))"

text \<open>The bytes a body stands for on the zero-copy path: a file is read at the offset.\<close>

definition splice_payload :: "body \<Rightarrow> reader \<Rightarrow> byte list" where
  "splice_payload b r =
     (if r_kind r = RFile then drop (nat (to_int (b_Offset b))) (r_data r) else r_rest r)"

section \<open>What the loops do\<close>

lemma moved_le [simp]:
  "moved n sz dn src \<le> length src" "moved n sz dn src \<le> n"
  "moved n sz dn src \<le> nat (sz - dn)"
  by (simp_all add: moved_def)

lemma moved_int [simp]: "int (moved n sz dn src) \<le> max 0 (sz - dn)"
proof -
  have "moved n sz dn src \<le> nat (sz - dn)" by (rule moved_le(3))
  then show ?thesis by linarith
qed

lemma moved_nil [simp]: "moved n sz dn [] = 0"
  by (simp add: moved_def)

text \<open>However it ends, the loop moves a prefix of the source to the destination.\<close>

lemma splice_loop_prefix:
  "splice_loop rs sz dn src dst = Some (err, src', dst') \<Longrightarrow>
     \<exists>k \<le> length src. dst' = dst @ take k src \<and> src' = drop k src \<and> int k \<le> max 0 (sz - dn)"
proof (induction rs sz dn src dst rule: splice_loop.induct)
  case (6 n rs sz dn src dst)
  let ?k = "moved n sz dn src"
  show ?case
  proof (cases "dn + int ?k < sz")
    case True
    obtain j where j: "j \<le> length (drop ?k src)" "dst' = (dst @ take ?k src) @ take j (drop ?k src)"
        "src' = drop j (drop ?k src)" "int j \<le> max 0 (sz - (dn + int ?k))"
      using 6 True by (auto simp: Let_def)
    have "?k + j \<le> length src"
      using j(1) moved_le(1) [of n sz dn src] by (simp only: length_drop)
    moreover have "dst' = dst @ take (?k + j) src" "src' = drop (?k + j) src"
      using j(2,3) by (simp_all only: take_split drop_split append_assoc)
    ultimately show ?thesis using j(4) True by (intro exI [of _ "?k + j"]) simp
  next
    case False
    then show ?thesis
      using "6.prems"
      by (intro exI [of _ ?k]) (auto simp: Let_def)
  qed
next
  case (7 n e rs sz dn src dst)
  let ?k = "moved n sz dn src"
  show ?case
  proof (cases "dn + int ?k < sz")
    case True
    obtain j where j: "j \<le> length (drop ?k src)" "dst' = (dst @ take ?k src) @ take j (drop ?k src)"
        "src' = drop j (drop ?k src)" "int j \<le> max 0 (sz - (dn + int ?k))"
      using 7 True by (auto simp: Let_def)
    have "?k + j \<le> length src"
      using j(1) moved_le(1) [of n sz dn src] by (simp only: length_drop)
    moreover have "dst' = dst @ take (?k + j) src" "src' = drop (?k + j) src"
      using j(2,3) by (simp_all only: take_split drop_split append_assoc)
    ultimately show ?thesis using j(4) True by (intro exI [of _ "?k + j"]) simp
  next
    case False
    then show ?thesis
      using "7.prems"
      by (intro exI [of _ ?k]) (auto simp: Let_def)
  qed
qed auto

text \<open>Without an error it has moved all that was asked for.\<close>

lemma splice_loop_complete:
  "splice_loop rs sz dn src dst = Some (None, src', dst') \<Longrightarrow> dn \<le> sz \<Longrightarrow>
     dst' = dst @ take (nat (sz - dn)) src \<and> src' = drop (nat (sz - dn)) src
     \<and> nat (sz - dn) \<le> length src"
proof (induction rs sz dn src dst rule: splice_loop.induct)
  case (6 n rs sz dn src dst)
  let ?k = "moved n sz dn src"
  have k: "?k \<le> length src" "?k \<le> nat (sz - dn)" by (rule moved_le)+
  show ?case
  proof (cases "dn + int ?k < sz")
    case True
    let ?m = "nat (sz - (dn + int ?k))"
    have IH: "dst' = (dst @ take ?k src) @ take ?m (drop ?k src)" "src' = drop ?m (drop ?k src)"
        "?m \<le> length (drop ?k src)"
      using 6 True by (auto simp: Let_def)
    have m: "nat (sz - dn) = ?k + ?m" using True by linarith
    have "?k + ?m \<le> length src" using IH(3) k by (simp only: length_drop)
    with IH(1,2) show ?thesis
      by (simp only: m take_split drop_split append_assoc simp_thms)
  next
    case False
    then have "nat (sz - dn) = ?k" using k "6.prems"(2) by linarith
    then show ?thesis using "6.prems" False k by (simp add: Let_def)
  qed
next
  case (7 n e rs sz dn src dst)
  let ?k = "moved n sz dn src"
  have k: "?k \<le> length src" by (rule moved_le)
  show ?case
  proof (cases "dn + int ?k < sz")
    case True
    let ?m = "nat (sz - (dn + int ?k))"
    have IH: "dst' = (dst @ take ?k src) @ take ?m (drop ?k src)" "src' = drop ?m (drop ?k src)"
        "?m \<le> length (drop ?k src)"
      using 7 True by (auto simp: Let_def)
    have m: "nat (sz - dn) = ?k + ?m" using True by linarith
    have "?k + ?m \<le> length src" using IH(3) k by (simp only: length_drop)
    with IH(1,2) show ?thesis
      by (simp only: m take_split drop_split append_assoc simp_thms)
  next
    case False
    then show ?thesis using "7.prems" by (simp add: Let_def)
  qed
qed auto

text \<open>
  If the source ends before the size is reached, only a system error or a failing poller ends the
  loop: successful calls that move nothing, interruptions and the \<open>splice\<close> package's own
  errors all make it go round again.
\<close>

fun gives_up :: "sys_result \<Rightarrow> bool" where
  "gives_up (SysErr e) = True"
| "gives_up (SysAgain (Some e)) = True"
| "gives_up r = False"

lemma splice_loop_short:
  "list_all (\<lambda>r. \<not> gives_up r) rs \<Longrightarrow> int (length src) < sz - dn \<Longrightarrow>
     splice_loop rs sz dn src dst = None"
proof (induction rs sz dn src dst rule: splice_loop.induct)
  case (6 n rs sz dn src dst)
  have "dn + int (moved n sz dn src) < sz"
    using 6(3) moved_le(1) [of n sz dn src] by linarith
  moreover from this 6 have "splice_loop rs sz (dn + int (moved n sz dn src))
      (drop (moved n sz dn src) src) (dst @ take (moved n sz dn src) src) = None"
    by (simp add: Let_def of_nat_diff)
  ultimately show ?case by (simp add: Let_def)
next
  case (7 n e rs sz dn src dst)
  have "dn + int (moved n sz dn src) < sz"
    using 7(3) moved_le(1) [of n sz dn src] by linarith
  moreover from this 7 have "splice_loop rs sz (dn + int (moved n sz dn src))
      (drop (moved n sz dn src) src) (dst @ take (moved n sz dn src) src) = None"
    by (simp add: Let_def of_nat_diff)
  ultimately show ?case by (simp add: Let_def)
qed auto

lemma drain_ok:
  assumes dr: "drain env w b pipe = Some (True, None, w', b')" and pos: "0 \<le> to_int (b_Size b)"
  shows "w_out w' = w_out w @ take (nat (to_int (b_Size b))) pipe
    \<and> nat (to_int (b_Size b)) \<le> length pipe \<and> w_isconn w' = w_isconn w \<and> b' = b"
proof -
  obtain rest out where "splice_loop (se_writes env) (to_int (b_Size b)) 0 pipe [] = Some (None, rest, out)"
      "w' = w\<lparr>w_out := w_out w @ out\<rparr>" "b' = b"
    using dr by (auto simp: drain_def split: option.splits)
  with splice_loop_complete [OF this(1) pos] show ?thesis by simp
qed

lemma PipeConn_ok:
  assumes pc: "PipeConn env conn sz = Some (Inr pipe, rest, fate)" and pos: "0 \<le> sz"
  shows "pipe = take (nat sz) conn \<and> rest = drop (nat sz) conn \<and> nat sz \<le> length conn \<and> fate = InPipe"
proof -
  have "splice_loop (se_loads env) sz 0 conn [] = Some (None, rest, pipe)" "fate = InPipe"
    using pc by (auto simp: PipeConn_def split: option.splits)
  with splice_loop_complete [OF this(1) pos] show ?thesis by simp
qed

lemma PipeConn_rest:
  "PipeConn env conn sz = Some (res, rest, fate) \<Longrightarrow> \<exists>k \<le> length conn. rest = drop k conn"
  by (auto simp: PipeConn_def split: option.splits prod.splits dest!: splice_loop_prefix
      intro: exI [of _ 0])

text \<open>What the two ways \<open>spliceTo\<close> returns without an error leave behind.\<close>

lemma spliceTo_sent:
  assumes sp: "spliceTo env w b = Some (True, None, w', b')"
    and pos: "uint (b_Size b) < 2 ^ 63"
  shows "\<exists>r. b_Reader b = Some r \<and> unat (b_Size b) \<le> length (splice_payload b r)
    \<and> w_out w' = w_out w @ take (unat (b_Size b)) (splice_payload b r)
    \<and> w_isconn w \<and> w_isconn w'"
proof -
  have sz: "to_int (b_Size b) = uint (b_Size b)" using pos by (rule to_int_small)
  obtain r where r: "b_Reader b = Some r"
    using sp by (auto simp: spliceTo_def split: option.splits if_splits)
  have conn: "w_isconn w" using sp by (auto simp: spliceTo_def split: if_splits)
  have dr: "w_out w' = w_out w @ take (unat (b_Size b)) pipe \<and> unat (b_Size b) \<le> length pipe
      \<and> w_isconn w'"
    if "drain env w bb pipe = Some (True, None, w', b')" "b_Size bb = b_Size b" for bb pipe
    using drain_ok [OF that(1)] that(2) sz conn by simp
  show ?thesis
  proof (cases "r_kind r")
    case RPipe
    then show ?thesis using sp r dr conn
      by (auto simp: spliceTo_def splice_payload_def split: if_splits)
  next
    case RFile
    then obtain pipe fate where p: "PipeFile env (r_data r) (to_int (b_Offset b)) (to_int (b_Size b))
        = (Inr pipe, fate)" and d: "drain env w b pipe = Some (True, None, w', b')"
      using sp r by (auto simp: spliceTo_def split: if_splits prod.splits sum.splits)
    obtain m where "pipe = take m (drop (nat (to_int (b_Offset b))) (r_data r))"
      using p by (auto simp: PipeFile_def split: option.splits sum.splits)
    then show ?thesis using dr [OF d] conn r RFile
      by (auto simp: splice_payload_def take_take_le)
  next
    case RConn
    then obtain pipe rest fate bb where p: "PipeConn env (r_rest r) (to_int (b_Size b))
        = Some (Inr pipe, rest, fate)"
      and d: "drain env w bb pipe = Some (True, None, w', b')" "b_Size bb = b_Size b"
      using sp r by (auto simp: spliceTo_def Let_def split: if_splits option.splits prod.splits sum.splits)
    have "pipe = take (unat (b_Size b)) (r_rest r)"
      using PipeConn_ok [OF p] sz by simp
    then show ?thesis using dr [OF d] conn r RConn
      by (auto simp: splice_payload_def take_take_le)
  next
    case RBuffer
    then obtain pipe fate where p: "PipeBuffer env (r_rest r) (to_int (b_Size b)) = (Inr pipe, fate)"
      and d: "drain env w b pipe = Some (True, None, w', b')"
      using sp r by (auto simp: spliceTo_def split: if_splits prod.splits sum.splits)
    obtain m where "pipe = take m (r_rest r)"
      using p by (auto simp: PipeBuffer_def split: option.splits prod.splits)
    then show ?thesis using dr [OF d] conn r RBuffer
      by (auto simp: splice_payload_def take_take_le)
  qed (use sp r in \<open>auto simp: spliceTo_def split: if_splits\<close>)
qed

lemma spliceTo_not_sent:
  assumes "spliceTo env w b = Some (False, err, w', b')"
  shows "err = None \<and> w' = w
    \<and> (b' = b \<or> (\<exists>r r' k. b_Reader b = Some r \<and> r_kind r = RConn
          \<and> b' = b\<lparr>b_Reader := Some r'\<rparr> \<and> k \<le> length (r_rest r) \<and> r_rest r' = drop k (r_rest r)))"
proof (cases "b_Reader b")
  case None
  then show ?thesis using assms by (auto simp: spliceTo_def split: if_splits)
next
  case (Some r)
  have nd: "drain env ww bb pipe \<noteq> Some (False, err, w', b')" for ww bb pipe
    by (auto simp: drain_def split: option.splits)
  show ?thesis
  proof (cases "r_kind r = RConn \<and> w_isconn w \<and> se_dst_raw env = None")
    case True
    then obtain e rest fate where p: "PipeConn env (r_rest r) (to_int (b_Size b)) = Some (Inl e, rest, fate)"
      and e: "err = None" "w' = w" "b' = b\<lparr>b_Reader := Some (r\<lparr>r_pos := length (r_data r) - length rest\<rparr>)\<rparr>"
      using assms Some nd
      by (auto simp: spliceTo_def Let_def split: if_splits option.splits prod.splits sum.splits)
    obtain k where k: "k \<le> length (r_rest r)" "rest = drop k (r_rest r)"
      using PipeConn_rest [OF p] by blast
    have "r_rest (r\<lparr>r_pos := length (r_data r) - length rest\<rparr>) = drop k (r_rest r)"
      using k by (cases "r_pos r \<le> length (r_data r)") (auto simp: r_rest_def add.commute)
    with e k True Some show ?thesis by blast
  next
    case False
    with assms Some nd show ?thesis
      by (cases "r_kind r") (auto simp: spliceTo_def split: if_splits prod.splits sum.splits)
  qed
qed

section \<open>Properties\<close>

text \<open>
  C17. When \<open>spliceTo\<close> reports that it sent the body and no error, exactly the body's \<open>Size\<close> bytes
  went to the socket, in order: for a file those at the body's offset, for every other reader
  those it had still to deliver. However the kernel split the transfer, interrupted it or made it
  wait does not matter.
\<close>

theorem spliceTo_sends_body:
  assumes sp: "spliceTo env w b = Some (True, None, w', b')"
    and pos: "uint (b_Size b) < 2 ^ 63"
  shows "\<exists>r. b_Reader b = Some r \<and> unat (b_Size b) \<le> length (splice_payload b r)
    \<and> w_out w' = w_out w @ take (unat (b_Size b)) (splice_payload b r)"
  using spliceTo_sent [OF assms] by blast

definition file_body :: body where
  "file_body = \<lparr>b_Offset = 2, b_Size = 4,
     b_Reader = Some \<lparr>r_kind = RFile, r_data = [10, 11, 12, 13, 14, 15, 16], r_pos = 0, r_closes = 0\<rparr>,
     b_NotClose = False\<rparr>"

definition sock :: writer where
  "sock = \<lparr>w_out = [1], w_room = None, w_err = EOF, w_isconn = True\<rparr>"

definition slow_kernel :: splice_env where
  "slow_kernel = \<lparr>se_page = 4096, se_raw = None, se_get = None, se_grow = (\<lambda>_. None),
     se_load_at = Inr 4, se_loads = [], se_iovec = (0, None), se_dst_raw = None,
     se_writes = [SysOk 1, SysIntr, SysAgain None, SysOk 2, SysOk 9]\<rparr>"

theorem spliceTo_sends_body_witness:
  "\<exists>w' b'. spliceTo slow_kernel sock file_body = Some (True, None, w', b')
     \<and> w_out w' = [1, 12, 13, 14, 15]"
proof -
  have "spliceTo slow_kernel sock file_body
      = Some (True, None, sock\<lparr>w_out := [1, 12, 13, 14, 15]\<rparr>, file_body)"
    by code_simp
  moreover have "uint (b_Size file_body) < 2 ^ 63" by (simp add: file_body_def)
  ultimately obtain r where "b_Reader file_body = Some r"
      "w_out (sock\<lparr>w_out := [1, 12, 13, 14, 15]\<rparr>)
         = w_out sock @ take (unat (b_Size file_body)) (splice_payload file_body r)"
    using spliceTo_sends_body by blast
  with \<open>spliceTo slow_kernel sock file_body = _\<close> show ?thesis by simp
qed

text \<open>
  C18. When \<open>spliceTo\<close> reports that it did not send the body, it reports no error, nothing has gone
  to the socket and the body is as before, so that the caller can copy it instead; except that
  from a connection a prefix of the bytes may be gone, lost with the pipe they were moved to.
\<close>

theorem spliceTo_fallback:
  assumes "spliceTo env w b = Some (False, err, w', b')"
  shows "err = None \<and> w' = w
    \<and> (b' = b \<or> (\<exists>r r' k. b_Reader b = Some r \<and> r_kind r = RConn
          \<and> b' = b\<lparr>b_Reader := Some r'\<rparr> \<and> k \<le> length (r_rest r) \<and> r_rest r' = drop k (r_rest r)))"
  using spliceTo_not_sent [OF assms] .

definition conn_body :: body where
  "conn_body = \<lparr>b_Offset = 0, b_Size = 4,
     b_Reader = Some \<lparr>r_kind = RConn, r_data = [20, 21, 22, 23, 24], r_pos = 0, r_closes = 0\<rparr>,
     b_NotClose = False\<rparr>"

theorem spliceTo_fallback_witness:
  "\<exists>b'. spliceTo (slow_kernel\<lparr>se_loads := [SysOk 3, SysErr (ErrMsg ''EIO'')]\<rparr>) sock conn_body
      = Some (False, None, sock, b') \<and> map_option r_rest (b_Reader b') = Some [23, 24]"
proof -
  let ?env = "slow_kernel\<lparr>se_loads := [SysOk 3, SysErr (ErrMsg ''EIO'')]\<rparr>"
  let ?b = "conn_body\<lparr>b_Reader := Some \<lparr>r_kind = RConn, r_data = [20, 21, 22, 23, 24],
    r_pos = 3, r_closes = 0\<rparr>\<rparr>"
  have r: "spliceTo ?env sock conn_body = Some (False, None, sock, ?b)" by code_simp
  have "sock = sock \<and> (None :: go_error option) = None"
    using spliceTo_fallback [OF r] by simp
  then show ?thesis using r by (intro exI [of _ ?b]) (simp add: r_rest_def)
qed

text \<open>
  C28. Filling the pipe from a connection whose peer has closed it before \<open>Size\<close> bytes came never
  returns: a read at end of file succeeds with no bytes, and the loop asks again, for every
  sequence of answers in which neither a system error nor a failing poller occurs.
\<close>

theorem PipeConn_spins_at_eof:
  assumes "se_raw env = None" "se_get env = None"
    and "se_grow env (alignSize (se_page env) sz * 2) = None"
    and "int (length conn) < sz" and "list_all (\<lambda>r. \<not> gives_up r) (se_loads env)"
  shows "PipeConn env conn sz = None"
  using assms splice_loop_short [of "se_loads env" conn sz 0 "[]"] by (simp add: PipeConn_def)

theorem PipeConn_spins_at_eof_witness:
  "\<forall>n. PipeConn (slow_kernel\<lparr>se_loads := SysOk 3 # replicate n (SysOk 0)\<rparr>) [7, 8, 9] 4 = None"
proof
  fix n
  show "PipeConn (slow_kernel\<lparr>se_loads := SysOk 3 # replicate n (SysOk 0)\<rparr>) [7, 8, 9] 4 = None"
  proof (rule PipeConn_spins_at_eof)
    show "list_all (\<lambda>r. \<not> gives_up r) (se_loads (slow_kernel\<lparr>se_loads := SysOk 3 # replicate n (SysOk 0)\<rparr>))"
      by (simp add: list_all_iff)
  qed (simp_all add: slow_kernel_def)
qed

lemma page_ceiling:
  fixes sz page :: int
  assumes "0 < page"
  shows "page dvd sz + page - sz mod page" "sz < sz + page - sz mod page"
    "sz + page - sz mod page \<le> sz + page"
proof -
  have "sz + page - sz mod page = (sz div page + 1) * page"
    by (simp add: algebra_simps minus_mod_eq_div_mult [symmetric])
  then show "page dvd sz + page - sz mod page" by simp
  show "sz < sz + page - sz mod page" "sz + page - sz mod page \<le> sz + page"
    using assms by (simp_all add: pos_mod_bound)
qed

text \<open>
  The capacity asked of a pipe is a whole number of pages and holds the body: \<open>alignSize\<close> of
  \<open>body.go\<close> is the least multiple of the page size above the size, that of
  \<open>splice_utils.go\<close> the least multiple not below it (and one page for an empty body).
\<close>

theorem alignSize_pages:
  assumes "0 < page" "0 \<le> sz"
  shows "page dvd alignSize page sz \<and> sz < alignSize page sz \<and> alignSize page sz \<le> sz + page
      \<and> page dvd utils_alignSize page sz \<and> sz \<le> utils_alignSize page sz
      \<and> utils_alignSize page sz < max 1 sz + page"
proof -
  have 1: "page dvd alignSize page sz \<and> sz < alignSize page sz \<and> alignSize page sz \<le> sz + page"
    using page_ceiling [OF assms(1), of sz] assms by (simp add: alignSize_def go_mod_nonneg)
  have 2: "page dvd utils_alignSize page sz \<and> sz \<le> utils_alignSize page sz
      \<and> utils_alignSize page sz < max 1 sz + page"
  proof (cases "sz = 0")
    case True
    have "go_div (- 1) page = - (1 div page)" using assms by (simp add: go_div_def)
    then have "go_div (- 1) page * page + page = (if page = 1 then 0 else page)"
      using assms by (auto simp: div_pos_pos_trivial)
    then show ?thesis using True assms by (auto simp: utils_alignSize_def)
  next
    case False
    have "utils_alignSize page sz = (sz - 1) + page - (sz - 1) mod page"
      using assms False by (simp add: utils_alignSize_def go_div_nonneg minus_mod_eq_div_mult [symmetric])
    then show ?thesis
      using page_ceiling [OF assms(1), of "sz - 1"] assms False by auto
  qed
  from 1 2 show ?thesis by blast
qed

theorem alignSize_pages_witness:
  "alignSize 4096 8192 = 12288 \<and> utils_alignSize 4096 8192 = 8192 \<and> (4096 :: int) dvd alignSize 4096 5000"
  using alignSize_pages [of 4096 5000]
  by (simp add: alignSize_def utils_alignSize_def go_mod_def go_div_def)

end
