(* ===== verification/Dispatcher.thy ===== *)
theory Dispatcher
  imports Net_Prelude
begin

text \<open>
  The service table of \<open>pkg/iorpc/dispatcher.go\<close>: handlers in a slice, their indices in a map
  from names. A service number is the handler's index, cut to 32 bits; a request is dispatched
  by that number. A handler is a function of the client address and the request; the type of
  its result is left open (the server instantiates it).
\<close>

type_synonym service = u32

record 'h dispatcher =
  services :: "'h list"
  serviceNameMap :: "string \<rightharpoonup> service"

definition NewDispatcher :: "'h dispatcher" where
  "NewDispatcher = \<lparr>services = [], serviceNameMap = Map.empty\<rparr>"

definition AddService :: "'h dispatcher \<Rightarrow> string \<Rightarrow> 'h \<Rightarrow> (service \<times> bool) \<times> 'h dispatcher" where
  "AddService d name handler =
     (case serviceNameMap d name of
        Some v \<Rightarrow> ((0, True), d)
      | None \<Rightarrow>
          (let srv = word_of_nat (length (services d)) in
           ((srv, False),
            d\<lparr>serviceNameMap := (serviceNameMap d)(name \<mapsto> srv),
              services := services d @ [handler]\<rparr>)))"

definition GetService :: "'h dispatcher \<Rightarrow> string \<Rightarrow> service \<times> bool" where
  "GetService d name =
     (case serviceNameMap d name of None \<Rightarrow> (0, False) | Some svc \<Rightarrow> (svc, True))"

definition MustGetService :: "'h dispatcher \<Rightarrow> string \<Rightarrow> go_error + service" where
  "MustGetService d name =
     (case GetService d name of
        (svc, ok) \<Rightarrow> if \<not> ok then Inl (Panic (''service not found: '' @ name)) else Inr svc)"

definition ErrUnknownService :: go_error where
  "ErrUnknownService = ErrMsg ''unknown service''"

text \<open>
  \<open>HandlerFunc\<close>: the closure that the server calls, as a function of the dispatcher. The handler
  itself is \<open>addr -> request -> result\<close>.
\<close>

definition dispatch ::
    "('a \<Rightarrow> 'req \<Rightarrow> go_error + 'resp) dispatcher \<Rightarrow> 'a \<Rightarrow> service \<Rightarrow> 'req \<Rightarrow> go_error + 'resp" where
  "dispatch d clientAddr service request =
     (if int (length (services d)) \<le> uint service then Inl ErrUnknownService
      else (services d ! unat service) clientAddr request)"

section \<open>The registration invariant\<close>

text \<open>
  Every registered name has the index of a handler, no two names share one, and every handler
  has a name, as long as the table is smaller than \<open>2 ^ 32\<close>.
\<close>

definition disp_wf :: "'h dispatcher \<Rightarrow> bool" where
  "disp_wf d \<longleftrightarrow> length (services d) < 2 ^ 32
      \<and> inj_on (serviceNameMap d) (dom (serviceNameMap d))
      \<and> ran (serviceNameMap d) = word_of_nat ` {..<length (services d)}"

lemma disp_wf_new [simp]: "disp_wf NewDispatcher"
  by (simp add: disp_wf_def NewDispatcher_def)

lemma unat_index: "i < 2 ^ 32 \<Longrightarrow> unat (word_of_nat i :: u32) = i"
  by (simp add: unat_of_nat)

lemma dispatch_unat:
  "dispatch d addr service req =
     (if unat service < length (services d) then (services d ! unat service) addr req
      else Inl ErrUnknownService)"
  unfolding dispatch_def uint_nat by (simp only: of_nat_le_iff) (simp add: not_le)

lemma AddService_new:
  "serviceNameMap d name = None \<Longrightarrow> AddService d name h =
     ((word_of_nat (length (services d)), False),
      d\<lparr>serviceNameMap := (serviceNameMap d)(name \<mapsto> word_of_nat (length (services d))),
        services := services d @ [h]\<rparr>)"
  by (simp add: AddService_def Let_def)

lemma disp_wf_range:
  assumes "disp_wf d" "serviceNameMap d name = Some svc"
  shows "unat svc < length (services d)"
proof -
  have "svc \<in> word_of_nat ` {..<length (services d)}"
    using assms by (metis disp_wf_def ranI)
  then show ?thesis using assms(1) by (auto simp: disp_wf_def unat_index)
qed

lemma disp_wf_add:
  assumes wf: "disp_wf d" and room: "Suc (length (services d)) < 2 ^ 32"
  shows "disp_wf (snd (AddService d name h))"
proof (cases "serviceNameMap d name")
  case (Some v)
  then show ?thesis using wf by (simp add: AddService_def)
next
  case None
  let ?n = "length (services d)" and ?m = "serviceNameMap d"
  have new: "word_of_nat ?n \<notin> ran ?m"
  proof
    assume "(word_of_nat ?n :: u32) \<in> ran ?m"
    then obtain i where "i < ?n" "(word_of_nat ?n :: u32) = word_of_nat i"
      using wf by (auto simp: disp_wf_def)
    then have "unat (word_of_nat ?n :: u32) = unat (word_of_nat i :: u32)" by simp
    then show False using \<open>i < ?n\<close> room by (simp add: unat_index)
  qed
  have "inj_on (?m(name \<mapsto> word_of_nat ?n)) (insert name (dom ?m))"
  proof -
    have "inj_on ?m (dom ?m)" using wf by (simp add: disp_wf_def)
    moreover have "?m y \<noteq> Some (word_of_nat ?n)" for y
      using new by (auto intro: ranI)
    ultimately show ?thesis
      using None unfolding inj_on_def by (metis domIff fun_upd_apply insert_iff)
  qed
  moreover have "ran (?m(name \<mapsto> word_of_nat ?n)) = insert (word_of_nat ?n) (ran ?m)"
    using None by (rule ran_map_upd)
  ultimately show ?thesis
    using wf None room by (auto simp: disp_wf_def AddService_def Let_def lessThan_Suc)
qed

section \<open>Properties\<close>

text \<open>
  Registering a new name gives it a service number that no other name has, leaves every
  earlier registration as it was, and dispatching that number afterwards runs exactly the
  registered handler; registering a name again changes nothing and reports the conflict.
\<close>

theorem add_then_dispatch:
  assumes wf: "disp_wf d" and room: "Suc (length (services d)) < 2 ^ 32"
    and add: "AddService d name h = ((svc, conflict), d')"
  shows "(conflict \<longleftrightarrow> serviceNameMap d name \<noteq> None)
    \<and> (conflict \<longrightarrow> d' = d)
    \<and> (\<not> conflict \<longrightarrow>
         GetService d' name = (svc, True)
       \<and> dispatch d' addr svc req = h addr req
       \<and> svc \<notin> ran (serviceNameMap d)
       \<and> (\<forall>other svc'. serviceNameMap d other = Some svc' \<longrightarrow>
             GetService d' other = (svc', True)
           \<and> dispatch d' addr svc' req = dispatch d addr svc' req))"
proof (cases "serviceNameMap d name")
  case (Some v)
  then show ?thesis using add by (auto simp: AddService_def)
next
  case None
  let ?n = "length (services d)"
  have d': "d' = d\<lparr>serviceNameMap := (serviceNameMap d)(name \<mapsto> svc), services := services d @ [h]\<rparr>"
    and svc: "svc = word_of_nat ?n" and nc: "\<not> conflict"
    using add None by (auto simp: AddService_def Let_def)
  have n: "unat svc = ?n" using svc room by (simp add: unat_index)
  have self: "dispatch d' addr svc req = h addr req"
    using n by (simp add: dispatch_unat d')
  have keep: "GetService d' other = (svc', True) \<and> dispatch d' addr svc' req = dispatch d addr svc' req"
    and fresh: "svc' \<noteq> svc" if "serviceNameMap d other = Some svc'" for other svc'
  proof -
    have "unat svc' < ?n" using disp_wf_range [OF wf that] .
    then show "GetService d' other = (svc', True) \<and> dispatch d' addr svc' req = dispatch d addr svc' req"
      and "svc' \<noteq> svc"
      using that None n by (auto simp: GetService_def d' dispatch_unat nth_append)
  qed
  have "svc \<notin> ran (serviceNameMap d)"
    using fresh by (auto simp: ran_def)
  with self keep nc None show ?thesis
    by (auto simp: GetService_def d')
qed

definition echo_handler :: "string \<Rightarrow> nat \<Rightarrow> go_error + nat" where
  "echo_handler addr x = Inr x"

theorem add_then_dispatch_witness:
  "\<exists>svc d'. AddService NewDispatcher ''Echo'' echo_handler = ((svc, False), d')
     \<and> dispatch d' ''peer'' svc 7 = Inr 7"
proof -
  obtain svc c d' where add: "AddService NewDispatcher ''Echo'' echo_handler = ((svc, c), d')"
    by (metis surj_pair)
  have "\<not> c" using add by (auto simp: AddService_def NewDispatcher_def Let_def)
  moreover have "dispatch d' ''peer'' svc 7 = echo_handler ''peer'' 7"
    using add_then_dispatch [OF disp_wf_new _ add] \<open>\<not> c\<close> by (simp add: NewDispatcher_def)
  ultimately show ?thesis using add by (auto simp: echo_handler_def)
qed

text \<open>
  A program registers its services one after the other at start-up; the client and the server of
  \<open>pkg/net/iorpc\<close> do so with the same names in the same order, and rely on getting the same
  numbers.
\<close>

fun register :: "'h dispatcher \<Rightarrow> (string \<times> 'h) list \<Rightarrow> 'h dispatcher" where
  "register d [] = d"
| "register d ((name, h) # rest) = register (snd (AddService d name h)) rest"

lemma register_snoc:
  "register d (regs @ [(name, h)]) = snd (AddService (register d regs) name h)"
  by (induction d regs rule: register.induct) auto

lemma register_table:
  assumes "distinct (map fst regs)"
  shows "services (register NewDispatcher regs) = map snd regs
    \<and> serviceNameMap (register NewDispatcher regs) =
        map_of (zip (map fst regs) (map word_of_nat [0..<length regs]))"
  using assms
proof (induction regs rule: rev_induct)
  case Nil
  then show ?case by (simp add: NewDispatcher_def)
next
  case (snoc r regs)
  obtain name h where r: "r = (name, h)" by fastforce
  let ?d = "register NewDispatcher regs"
  let ?z = "zip (map fst regs) (map word_of_nat [0..<length regs]) :: (string \<times> u32) list"
  have IH: "services ?d = map snd regs" "serviceNameMap ?d = map_of ?z"
    using snoc by auto
  have fresh: "name \<notin> fst ` set ?z"
    using snoc.prems r by (auto dest!: set_zip_leftD)
  then have None: "serviceNameMap ?d name = None"
    by (simp add: IH map_of_eq_None_iff)
  have "map_of (?z @ [(name, word_of_nat (length regs))])
      = (map_of ?z)(name \<mapsto> word_of_nat (length regs))"
    using fresh by (rule map_of_snoc)
  then show ?case
    unfolding r register_snoc AddService_new [OF None] using IH by simp
qed

text \<open>
  Services registered under distinct names are numbered in the order of registration: the
  \<open>i\<close>-th name is looked up as \<open>i\<close>, a request with service number \<open>i\<close> runs the \<open>i\<close>-th
  handler, and every other number on the wire gives the unknown-service error. So a client and a
  server that register the same names in the same order agree on the numbers.
\<close>

theorem registered_services:
  assumes dist: "distinct (map fst regs)" and small: "length regs < 2 ^ 32"
  defines "d \<equiv> register NewDispatcher regs"
  shows "(\<forall>i < length regs.
            MustGetService d (fst (regs ! i)) = Inr (word_of_nat i)
          \<and> dispatch d addr (word_of_nat i) req = snd (regs ! i) addr req)
       \<and> (\<forall>svc. length regs \<le> unat svc \<longrightarrow> dispatch d addr svc req = Inl ErrUnknownService)"
proof -
  have tab: "services d = map snd regs"
      "serviceNameMap d = map_of (zip (map fst regs) (map word_of_nat [0..<length regs]))"
    using register_table [OF dist] by (simp_all add: d_def)
  have "MustGetService d (fst (regs ! i)) = Inr (word_of_nat i)
      \<and> dispatch d addr (word_of_nat i) req = snd (regs ! i) addr req" if i: "i < length regs" for i
  proof -
    have "map_of (zip (map fst regs) (map word_of_nat [0..<length regs])) (map fst regs ! i)
        = Some (map word_of_nat [0..<length regs] ! i :: u32)"
      using dist i by (intro map_of_zip_nth) simp_all
    then have "serviceNameMap d (fst (regs ! i)) = Some (word_of_nat i)"
      using i by (simp add: tab)
    moreover have "unat (word_of_nat i :: u32) = i"
      using i small by (simp add: unat_index)
    ultimately show ?thesis
      using i by (simp add: MustGetService_def GetService_def dispatch_unat tab)
  qed
  then show ?thesis by (simp add: dispatch_unat tab)
qed

theorem registered_services_witness:
  "MustGetService (register NewDispatcher [(''Noop'', echo_handler), (''ReadData'', \<lambda>a x. Inr (x + 1))])
      ''ReadData'' = Inr 1
   \<and> dispatch (register NewDispatcher [(''Noop'', echo_handler), (''ReadData'', \<lambda>a x. Inr (x + 1))])
      ''peer'' 1 41 = Inr 42"
  using registered_services [of "[(''Noop'', echo_handler), (''ReadData'', \<lambda>a x. Inr (x + 1))]"
      "''peer''" 41]
  by (auto dest: spec [of _ 1])

end
