(* ===== verification/Message_Codec.thy ===== *)
theory Message_Codec
  imports Ring_Buffer Conn_Stats Body_Splice Dispatcher
begin

text \<open>
  The message format of \<open>pkg/iorpc/encoding.go\<close>: a start line of 28 bytes, the headers, for a
  response the error text, and the body. The encoder collects start lines and headers in a
  \<open>bytes.Buffer\<close> and flushes it before a body; the decoder reads a start line, collects the
  headers in a ring buffer and takes the body from the connection.

  Header types are user code behind the interface \<open>Headers\<close>: the record \<open>headers_impl\<close> holds
  what the codec calls of it, the locale \<open>header_codec\<close> its contract. \<open>bytes.Buffer\<close> is modelled
  with its capacity and the identity of its backing array, because the encoder keeps a slice of
  that array while it writes the headers; \<open>rnd\<close> is the size the Go run-time's allocator rounds
  a new array up to.
\<close>

section \<open>Header types\<close>

record ('ty, 'h) headers_impl =
  hi_type :: "'h \<Rightarrow> 'ty"
  hi_new :: "'ty \<Rightarrow> 'h"
  hi_encode :: "'h \<Rightarrow> byte list list \<times> (go_error + nat)"
  hi_decode :: "'h \<Rightarrow> byte list \<Rightarrow> go_error + 'h"

text \<open>
  \<open>headersConstructors\<close> and \<open>headersIndexes\<close>: a constructor is identified with the type of the
  value it makes; entry 0 is nil.
\<close>

record 'ty registry =
  constructors :: "'ty option list"
  indexes :: "'ty \<rightharpoonup> u32"

definition empty_registry :: "'ty registry" where
  "empty_registry = \<lparr>constructors = [None], indexes = Map.empty\<rparr>"

definition RegisterHeaders :: "'ty registry \<Rightarrow> 'ty \<Rightarrow> 'ty registry" where
  "RegisterHeaders reg ty =
     \<lparr>constructors = constructors reg @ [Some ty],
      indexes = (indexes reg)(ty \<mapsto> word_of_nat (length (constructors reg)))\<rparr>"

definition newHeaders :: "'ty registry \<Rightarrow> ('ty, 'h) headers_impl \<Rightarrow> u32 \<Rightarrow> go_error + 'h option" where
  "newHeaders reg impl index =
     (if unat index < length (constructors reg)
      then Inr (map_option (hi_new impl) (constructors reg ! unat index))
      else Inl (Panic ''index out of range''))"

definition indexHeaders :: "'ty registry \<Rightarrow> ('ty, 'h) headers_impl \<Rightarrow> 'h option \<Rightarrow> u32" where
  "indexHeaders reg impl ho =
     (case ho of
        None \<Rightarrow> 0
      | Some h \<Rightarrow> (case indexes reg (hi_type impl h) of None \<Rightarrow> 0 | Some i \<Rightarrow> i))"

section \<open>Start lines\<close>

record requestStartLine =
  ql_Service :: service
  ql_HeaderType :: u32
  ql_HeaderSize :: u32
  ql_ID :: u64
  ql_BodySize :: u64

record responseStartLine =
  pl_ErrorSize :: u32
  pl_HeaderType :: u32
  pl_HeaderSize :: u32
  pl_ID :: u64
  pl_BodySize :: u64

definition startLineSize :: nat where
  "startLineSize = 28"

definition put_requestLine :: "requestStartLine \<Rightarrow> byte list" where
  "put_requestLine l = put_u32 (ql_Service l) @ put_u32 (ql_HeaderType l) @ put_u32 (ql_HeaderSize l)
     @ put_u64 (ql_ID l) @ put_u64 (ql_BodySize l)"

definition get_requestLine :: "byte list \<Rightarrow> requestStartLine" where
  "get_requestLine bs =
     \<lparr>ql_Service = be_u32 bs, ql_HeaderType = be_u32 (drop 4 bs), ql_HeaderSize = be_u32 (drop 8 bs),
      ql_ID = be_u64 (drop 12 bs), ql_BodySize = be_u64 (drop 20 bs)\<rparr>"

definition put_responseLine :: "responseStartLine \<Rightarrow> byte list" where
  "put_responseLine l = put_u32 (pl_ErrorSize l) @ put_u32 (pl_HeaderType l) @ put_u32 (pl_HeaderSize l)
     @ put_u64 (pl_ID l) @ put_u64 (pl_BodySize l)"

definition get_responseLine :: "byte list \<Rightarrow> responseStartLine" where
  "get_responseLine bs =
     \<lparr>pl_ErrorSize = be_u32 bs, pl_HeaderType = be_u32 (drop 4 bs), pl_HeaderSize = be_u32 (drop 8 bs),
      pl_ID = be_u64 (drop 12 bs), pl_BodySize = be_u64 (drop 20 bs)\<rparr>"

lemma length_requestLine [simp]: "length (put_requestLine l) = startLineSize"
  by (simp add: put_requestLine_def startLineSize_def)

lemma length_responseLine [simp]: "length (put_responseLine l) = startLineSize"
  by (simp add: put_responseLine_def startLineSize_def)

lemma get_put_requestLine [wire]: "get_requestLine (put_requestLine l @ r) = l"
  by (simp add: get_requestLine_def put_requestLine_def drop_append)

lemma get_put_responseLine [wire]: "get_responseLine (put_responseLine l @ r) = l"
  by (simp add: get_responseLine_def put_responseLine_def drop_append)

interpretation reqline: fixed_codec put_requestLine get_requestLine startLineSize "\<lambda>_. True"
  by unfold_locales (simp_all add: wire)

interpretation respline: fixed_codec put_responseLine get_responseLine startLineSize "\<lambda>_. True"
  by unfold_locales (simp_all add: wire)

section \<open>Messages and the encoder\<close>

text \<open>What callers and handlers see of a message, and what goes over the wire.\<close>

record 'h request =
  req_Service :: service
  req_Headers :: "'h option"
  req_Body :: body

record 'h response =
  res_Headers :: "'h option"
  res_Body :: body

record 'h wireRequest =
  rq_Service :: service
  rq_ID :: u64
  rq_Headers :: "'h option"
  rq_Body :: body

record 'h wireResponse =
  rp_ID :: u64
  rp_Headers :: "'h option"
  rp_Body :: body
  rp_Error :: "byte list"

definition headerBufferSize :: nat where
  "headerBufferSize = 4096"

text \<open>
  \<open>bytes.Buffer\<close>: its unread bytes, its capacity, and the number of arrays it has had. A write
  that does not fit moves everything to a new array, whose capacity is the allocator's rounding
  of the larger of what is needed and twice the old one. \<open>hb_patch\<close> is a write through a slice
  taken of array \<open>arr\<close>: the buffer shows it only if it still uses that array.
\<close>

record hbuf =
  hb_data :: "byte list"
  hb_cap :: nat
  hb_array :: nat

definition hb_Write :: "(nat \<Rightarrow> nat) \<Rightarrow> hbuf \<Rightarrow> byte list \<Rightarrow> hbuf" where
  "hb_Write rnd b p =
     (if length (hb_data b) + length p \<le> hb_cap b then b\<lparr>hb_data := hb_data b @ p\<rparr>
      else b\<lparr>hb_data := hb_data b @ p,
             hb_cap := rnd (max (length (hb_data b) + length p) (2 * hb_cap b)),
             hb_array := hb_array b + 1\<rparr>)"

definition hb_patch :: "hbuf \<Rightarrow> nat \<Rightarrow> nat \<Rightarrow> byte list \<Rightarrow> hbuf" where
  "hb_patch b arr idx line =
     (if hb_array b = arr
      then b\<lparr>hb_data := take idx (hb_data b) @ line @ drop (idx + length line) (hb_data b)\<rparr>
      else b)"

record messageEncoder =
  e_w :: writer
  e_buf :: hbuf
  e_stat :: conn_stats

definition newMessageEncoder :: "nat \<Rightarrow> writer \<Rightarrow> conn_stats \<Rightarrow> messageEncoder" where
  "newMessageEncoder c w s =
     \<lparr>e_w = w, e_buf = \<lparr>hb_data = [], hb_cap = max c headerBufferSize, hb_array = 0\<rparr>, e_stat = s\<rparr>"

text \<open>\<open>Flush\<close>: the buffer is reset whether or not the write succeeds.\<close>

definition Flush :: "messageEncoder \<Rightarrow> go_error option \<times> messageEncoder" where
  "Flush e =
     (if length (hb_data (e_buf e)) = 0 then (None, e)
      else case w_write (e_w e) (hb_data (e_buf e)) of
        (w', n, err) \<Rightarrow>
          (let e' = e\<lparr>e_w := w', e_buf := (e_buf e)\<lparr>hb_data := []\<rparr>\<rparr> in
           case err of
             Some er \<Rightarrow> (Some (Wrap ''flush encoder'' er), e'\<lparr>e_stat := incWriteErrors (e_stat e)\<rparr>)
           | None \<Rightarrow> (None, e'\<lparr>e_stat := addHeadWritten (word_of_nat n) (e_stat e)\<rparr>)))"

text \<open>
  \<open>io.CopyN(w, r, n)\<close>: the error, the writer and the reader. A reader that ends early is \<open>EOF\<close>;
  a size that is negative as an \<open>int64\<close> copies nothing and is no error.
\<close>

definition CopyN :: "writer \<Rightarrow> reader \<Rightarrow> int \<Rightarrow> go_error option \<times> nat \<times> writer \<times> reader" where
  "CopyN w r n =
     (let payload = take (nat n) (r_rest r) in
      case w_write w payload of
        (w', k, err) \<Rightarrow>
          ((case err of Some er \<Rightarrow> Some er | None \<Rightarrow> if int k < n then Some EOF else None),
           k, w', r\<lparr>r_pos := r_pos r + k\<rparr>))"

text \<open>
  \<open>encode\<close>: the body, after what is buffered. \<open>None\<close>: a splice loop has not ended with the
  kernel's outcomes given. The deferred \<open>body.Close\<close> runs on every return after the flush.
\<close>

definition encode_body :: "splice_env \<Rightarrow> messageEncoder \<Rightarrow> body \<Rightarrow>
    (go_error option \<times> messageEncoder \<times> body) option" where
  "encode_body env e b =
     (case (if b_Size b = 0 then None else b_Reader b) of
        None \<Rightarrow> Some (None, e\<lparr>e_stat := incWriteCalls (e_stat e)\<rparr>, b)
      | Some r0 \<Rightarrow>
          (case Flush e of
             (Some er, e1) \<Rightarrow> Some (Some er, e1, b)
           | (None, e1) \<Rightarrow>
               (case spliceTo env (e_w e1) b of
                  None \<Rightarrow> None
                | Some (spliced, Some er, w, b1) \<Rightarrow>
                    Some (Some (Wrap ''splice body'' er), e1\<lparr>e_w := w\<rparr>, body_Close b1)
                | Some (True, None, w, b1) \<Rightarrow>
                    Some (None, e1\<lparr>e_w := w,
                      e_stat := incWriteCalls (addBodyWritten (b_Size b) (e_stat e1))\<rparr>, body_Close b1)
                | Some (False, None, w, b1) \<Rightarrow>
                    (case CopyN w (the (b_Reader b1)) (to_int (b_Size b1)) of
                       (Some er, n, w2, r) \<Rightarrow>
                         Some (Some er, e1\<lparr>e_w := w2, e_stat := incWriteErrors (e_stat e1)\<rparr>,
                           body_Close (b1\<lparr>b_Reader := Some r\<rparr>))
                     | (None, n, w2, r) \<Rightarrow>
                         Some (None, e1\<lparr>e_w := w2,
                           e_stat := incWriteCalls (addBodyWritten (word_of_nat n) (e_stat e1))\<rparr>,
                           body_Close (b1\<lparr>b_Reader := Some r\<rparr>))))))"

text \<open>
  The headers of a message: the placeholder for the start line, the header's own bytes, and the
  start line stored into the slice of the array that held the placeholder.
\<close>

definition put_headers :: "(nat \<Rightarrow> nat) \<Rightarrow> 'ty registry \<Rightarrow> ('ty, 'h) headers_impl \<Rightarrow> 'h option \<Rightarrow> hbuf \<Rightarrow>
    (go_error + u32 \<times> nat) \<times> hbuf" where
  "put_headers rnd reg impl ho b =
     (let hidx = indexHeaders reg impl ho in
      case ho of
        None \<Rightarrow> (Inr (hidx, 0), b)
      | Some h \<Rightarrow>
          if hidx = 0 then (Inr (hidx, 0), b)
          else (case hi_encode impl h of
                  (chunks, Inl er) \<Rightarrow> (Inl (Wrap ''encode headers'' er), foldl (hb_Write rnd) b chunks)
                | (chunks, Inr n) \<Rightarrow> (Inr (hidx, n), foldl (hb_Write rnd) b chunks)))"

definition encodeRequestHeaders :: "(nat \<Rightarrow> nat) \<Rightarrow> 'ty registry \<Rightarrow> ('ty, 'h) headers_impl \<Rightarrow>
    messageEncoder \<Rightarrow> 'h wireRequest \<Rightarrow> go_error option \<times> messageEncoder" where
  "encodeRequestHeaders rnd reg impl e req =
     (let idx = length (hb_data (e_buf e));
          b1 = hb_Write rnd (e_buf e) (replicate startLineSize 0);
          arr = hb_array b1 in
      case put_headers rnd reg impl (rq_Headers req) b1 of
        (Inl er, b2) \<Rightarrow> (Some er, e\<lparr>e_buf := b2\<rparr>)
      | (Inr (hidx, hsize), b2) \<Rightarrow>
          (None, e\<lparr>e_buf := hb_patch b2 arr idx (put_requestLine
             \<lparr>ql_Service = rq_Service req, ql_HeaderType = hidx, ql_HeaderSize = word_of_nat hsize,
              ql_ID = rq_ID req, ql_BodySize = b_Size (rq_Body req)\<rparr>)\<rparr>))"

definition encodeResponseHeaders :: "(nat \<Rightarrow> nat) \<Rightarrow> 'ty registry \<Rightarrow> ('ty, 'h) headers_impl \<Rightarrow>
    messageEncoder \<Rightarrow> 'h wireResponse \<Rightarrow> go_error option \<times> messageEncoder" where
  "encodeResponseHeaders rnd reg impl e resp =
     (let idx = length (hb_data (e_buf e));
          b1 = hb_Write rnd (e_buf e) (replicate startLineSize 0);
          arr = hb_array b1 in
      case put_headers rnd reg impl (rp_Headers resp) b1 of
        (Inl er, b2) \<Rightarrow> (Some er, e\<lparr>e_buf := b2\<rparr>)
      | (Inr (hidx, hsize), b2) \<Rightarrow>
          (let b3 = hb_patch b2 arr idx (put_responseLine
                 \<lparr>pl_ErrorSize = word_of_nat (length (rp_Error resp)), pl_HeaderType = hidx,
                  pl_HeaderSize = word_of_nat hsize, pl_ID = rp_ID resp,
                  pl_BodySize = b_Size (rp_Body resp)\<rparr>);
               b4 = (if length (rp_Error resp) > 0 then hb_Write rnd b3 (rp_Error resp) else b3)
           in (None, e\<lparr>e_buf := b4\<rparr>)))"

text \<open>\<open>EncodeRequest\<close> and \<open>EncodeResponse\<close>.\<close>

definition flush_before :: "messageEncoder \<Rightarrow> body \<Rightarrow> go_error option \<times> messageEncoder" where
  "flush_before e b = (if b_Size b > 0 \<and> b_Reader b \<noteq> None then Flush e else (None, e))"

definition flush_full :: "messageEncoder \<Rightarrow> go_error option \<times> messageEncoder" where
  "flush_full e = (if length (hb_data (e_buf e)) \<ge> headerBufferSize then Flush e else (None, e))"

definition EncodeRequest :: "splice_env \<Rightarrow> (nat \<Rightarrow> nat) \<Rightarrow> 'ty registry \<Rightarrow> ('ty, 'h) headers_impl \<Rightarrow>
    messageEncoder \<Rightarrow> 'h wireRequest \<Rightarrow> (go_error option \<times> messageEncoder \<times> body) option" where
  "EncodeRequest env rnd reg impl e req =
     (case flush_before e (rq_Body req) of
        (Some er, e1) \<Rightarrow> Some (Some er, e1, rq_Body req)
      | (None, e1) \<Rightarrow>
          (case encodeRequestHeaders rnd reg impl e1 req of
             (Some er, e2) \<Rightarrow> Some (Some er, e2\<lparr>e_stat := incWriteErrors (e_stat e2)\<rparr>, rq_Body req)
           | (None, e2) \<Rightarrow>
               (case flush_full e2 of
                  (Some er, e3) \<Rightarrow> Some (Some er, e3, rq_Body req)
                | (None, e3) \<Rightarrow> encode_body env e3 (rq_Body req))))"

definition EncodeResponse :: "splice_env \<Rightarrow> (nat \<Rightarrow> nat) \<Rightarrow> 'ty registry \<Rightarrow> ('ty, 'h) headers_impl \<Rightarrow>
    messageEncoder \<Rightarrow> 'h wireResponse \<Rightarrow> (go_error option \<times> messageEncoder \<times> body) option" where
  "EncodeResponse env rnd reg impl e resp =
     (case flush_before e (rp_Body resp) of
        (Some er, e1) \<Rightarrow> Some (Some er, e1, rp_Body resp)
      | (None, e1) \<Rightarrow>
          (case encodeResponseHeaders rnd reg impl e1 resp of
             (Some er, e2) \<Rightarrow> Some (Some er, e2\<lparr>e_stat := incWriteErrors (e_stat e2)\<rparr>, rp_Body resp)
           | (None, e2) \<Rightarrow>
               (case flush_full e2 of
                  (Some er, e3) \<Rightarrow> Some (Some er, e3, rp_Body resp)
                | (None, e3) \<Rightarrow> encode_body env e3 (rp_Body resp))))"

section \<open>The decoder\<close>

record messageDecoder =
  d_closeBody :: bool
  d_in :: stream
  d_isconn :: bool
  d_hdr :: ring
  d_stat :: conn_stats

definition newMessageDecoder :: "stream \<Rightarrow> bool \<Rightarrow> conn_stats \<Rightarrow> bool \<Rightarrow> messageDecoder" where
  "newMessageDecoder inp conn s closeBody =
     \<lparr>d_closeBody = closeBody, d_in = inp, d_isconn = conn,
      d_hdr = newRingBuffer headerBufferSize, d_stat = s\<rparr>"

text \<open>
  \<open>spliceBody\<close>: the pipe, if the body could be moved to one. Its error is ignored by the caller,
  so the bytes that a failed attempt took from the connection are gone.
\<close>

definition pipe_reader :: "byte list \<Rightarrow> reader" where
  "pipe_reader bs = \<lparr>r_kind = RPipe, r_data = bs, r_pos = 0, r_closes = 0\<rparr>"

definition buffer_reader :: "byte list \<Rightarrow> reader" where
  "buffer_reader bs = \<lparr>r_kind = RPlain, r_data = bs, r_pos = 0, r_closes = 0\<rparr>"

definition spliceBody :: "splice_env \<Rightarrow> messageDecoder \<Rightarrow> int \<Rightarrow> (reader option \<times> messageDecoder) option" where
  "spliceBody env d sz =
     (if sz = 0 \<or> \<not> d_isconn d then Some (None, d)
      else case PipeConn env (concat (d_in d)) sz of
        None \<Rightarrow> None
      | Some (res, rest, fate) \<Rightarrow>
          (let d' = d\<lparr>d_in := drop_segs (length (concat (d_in d)) - length rest) (d_in d)\<rparr> in
           case res of Inl er \<Rightarrow> Some (None, d') | Inr pipe \<Rightarrow> Some (Some (pipe_reader pipe), d')))"

text \<open>
  With \<open>closeBody\<close> a body is closed as soon as it is decoded. That gives its buffer, or its pair of pipe
  ends, back to a pool, reset: what the body held is gone before the caller sees it.
\<close>

definition close_if :: "bool \<Rightarrow> reader \<Rightarrow> reader" where
  "close_if c r = (if c then (r_close r)\<lparr>r_data := [], r_pos := 0\<rparr> else r)"

definition decodeBody :: "splice_env \<Rightarrow> messageDecoder \<Rightarrow> int \<Rightarrow>
    ((go_error + reader) \<times> messageDecoder) option" where
  "decodeBody env d sz =
     (if sz = 0 then Some (Inr (close_if (d_closeBody d) noopBody), d)
      else case spliceBody env d sz of
        None \<Rightarrow> None
      | Some (Some r, d1) \<Rightarrow>
          Some (Inr (close_if (d_closeBody d) r), d1\<lparr>d_stat := addBodyRead (word_of_int sz) (d_stat d1)\<rparr>)
      | Some (None, d1) \<Rightarrow>
          if sz < 0 then Some (Inl (Panic ''bytes.Buffer.Grow: negative count''), d1)
          else if length (concat (d_in d1)) < nat sz then Some (Inl EOF, d1\<lparr>d_in := []\<rparr>)
          else Some (Inr (close_if (d_closeBody d) (buffer_reader (take (nat sz) (concat (d_in d1))))),
                     d1\<lparr>d_in := drop_segs (nat sz) (d_in d1),
                        d_stat := addBodyRead (word_of_int sz) (d_stat d1)\<rparr>))"

text \<open>
  The headers: \<open>CopyN\<close> hands the ring buffer what each \<open>Read\<close> returned, then the headers are
  taken from it as one slice.
\<close>

fun rb_copy_in :: "ring \<Rightarrow> byte list list \<Rightarrow> go_error + ring" where
  "rb_copy_in b [] = Inr b"
| "rb_copy_in b (c # cs) =
     (case rb_write b c of Inl e \<Rightarrow> Inl e | Inr (b', n) \<Rightarrow> rb_copy_in b' cs)"

text \<open>
  \<open>wrapf\<close> is what the code does to a read error here: nothing for a request, \<open>Wrapf\<close> for a
  response. The result carries the headers, decoded if there were any bytes for them.
\<close>

definition decode_headers :: "(go_error \<Rightarrow> go_error) \<Rightarrow> 'ty registry \<Rightarrow> ('ty, 'h) headers_impl \<Rightarrow>
    messageDecoder \<Rightarrow> u32 \<Rightarrow> u32 \<Rightarrow> (go_error + 'h option) \<times> messageDecoder" where
  "decode_headers wrapf reg impl d htype hsize =
     (case newHeaders reg impl htype of
        Inl e \<Rightarrow> (Inl e, d)
      | Inr None \<Rightarrow> (Inr None, d)
      | Inr (Some h0) \<Rightarrow>
          if hsize = 0 then (Inr (Some h0), d)
          else (case copy_chunks (unat hsize) (d_in d) of
            (cs, rest) \<Rightarrow>
              (case rb_copy_in (d_hdr d) cs of
                 Inl e \<Rightarrow> (Inl e, d\<lparr>d_in := rest\<rparr>)
               | Inr b \<Rightarrow>
                   if length (concat cs) < unat hsize
                   then (Inl (wrapf EOF), d\<lparr>d_in := rest, d_hdr := b, d_stat := incReadErrors (d_stat d)\<rparr>)
                   else (let d1 = d\<lparr>d_in := rest, d_hdr := b, d_stat := addHeadRead (ucast hsize) (d_stat d)\<rparr> in
                     case rb_TrySlice b (int (unat hsize)) of
                       Inl e \<Rightarrow> (Inl e, d1)
                     | Inr (buf, sliced, b') \<Rightarrow>
                         (case hi_decode impl h0 buf of
                            Inl e \<Rightarrow> (Inl e, d1\<lparr>d_hdr := b',
                               d_stat := if is_panic e then d_stat d1 else incReadErrors (d_stat d1)\<rparr>)
                          | Inr h \<Rightarrow> (Inr (Some h), d1\<lparr>d_hdr := b'\<rparr>))))))"

definition DecodeRequest :: "splice_env \<Rightarrow> 'ty registry \<Rightarrow> ('ty, 'h) headers_impl \<Rightarrow> messageDecoder \<Rightarrow>
    'h wireRequest \<Rightarrow> ((go_error + 'h wireRequest) \<times> messageDecoder) option" where
  "DecodeRequest env reg impl d req =
     (case read_full startLineSize (d_in d) of
        (Inl e, rest) \<Rightarrow> Some (Inl e, d\<lparr>d_in := rest, d_stat := incReadErrors (d_stat d)\<rparr>)
      | (Inr bs, rest) \<Rightarrow>
          (let l = get_requestLine bs;
               d1 = d\<lparr>d_in := rest, d_stat := addHeadRead (word_of_nat startLineSize) (d_stat d)\<rparr> in
           case decode_headers (\<lambda>e. e) reg impl d1 (ql_HeaderType l) (ql_HeaderSize l) of
             (Inl e, d2) \<Rightarrow> Some (Inl e, d2)
           | (Inr ho, d2) \<Rightarrow>
               (case decodeBody env d2 (to_int (ql_BodySize l)) of
                  None \<Rightarrow> None
                | Some (Inl e, d3) \<Rightarrow> Some (Inl e, d3)
                | Some (Inr r, d3) \<Rightarrow>
                    Some (Inr \<lparr>rq_Service = ql_Service l, rq_ID = ql_ID l, rq_Headers = ho,
                               rq_Body = (rq_Body req)\<lparr>b_Size := ql_BodySize l, b_Reader := Some r\<rparr>\<rparr>,
                          d3\<lparr>d_stat := incReadCalls (d_stat d3)\<rparr>))))"

text \<open>\<open>resp.Error\<close> is assigned only when the message carries an error.\<close>

definition DecodeResponse :: "splice_env \<Rightarrow> 'ty registry \<Rightarrow> ('ty, 'h) headers_impl \<Rightarrow> messageDecoder \<Rightarrow>
    'h wireResponse \<Rightarrow> ((go_error + 'h wireResponse) \<times> messageDecoder) option" where
  "DecodeResponse env reg impl d resp =
     (case read_full startLineSize (d_in d) of
        (Inl e, rest) \<Rightarrow> Some (Inl e, d\<lparr>d_in := rest, d_stat := incReadErrors (d_stat d)\<rparr>)
      | (Inr bs, rest) \<Rightarrow>
          (let l = get_responseLine bs;
               d1 = d\<lparr>d_in := rest, d_stat := addHeadRead (word_of_nat startLineSize) (d_stat d)\<rparr>;
               (rerr, d2) =
                 (if pl_ErrorSize l > 0
                  then (case read_full (unat (pl_ErrorSize l)) (d_in d1) of
                          (Inl e, rest1) \<Rightarrow>
                            (Inl (Wrap ''read response error'' e),
                             d1\<lparr>d_in := rest1, d_stat := incReadErrors (d_stat d1)\<rparr>)
                        | (Inr es, rest1) \<Rightarrow>
                            (Inr es, d1\<lparr>d_in := rest1,
                               d_stat := addHeadRead (ucast (pl_ErrorSize l)) (d_stat d1)\<rparr>))
                  else (Inr (rp_Error resp), d1)) in
           case rerr of
             Inl e \<Rightarrow> Some (Inl e, d2)
           | Inr es \<Rightarrow>
               (case decode_headers (Wrap ''read response headers'') reg impl d2
                       (pl_HeaderType l) (pl_HeaderSize l) of
                  (Inl e, d3) \<Rightarrow> Some (Inl e, d3)
                | (Inr ho, d3) \<Rightarrow>
                    (case decodeBody env d3 (to_int (pl_BodySize l)) of
                       None \<Rightarrow> None
                     | Some (Inl e, d4) \<Rightarrow> Some (Inl e, d4)
                     | Some (Inr r, d4) \<Rightarrow>
                         Some (Inr \<lparr>rp_ID = pl_ID l, rp_Headers = ho,
                                    rp_Body = (rp_Body resp)\<lparr>b_Size := pl_BodySize l, b_Reader := Some r\<rparr>,
                                    rp_Error = es\<rparr>,
                               d4\<lparr>d_stat := incReadCalls (d_stat d4)\<rparr>)))))"

section \<open>What the encoder has produced\<close>

text \<open>
  Abstractly an encoder is the stream of bytes it has accepted: those already written and those
  in its buffer. \<open>request_wire\<close> and \<open>response_wire\<close> are the messages as the decoder expects
  them.
\<close>

definition pending :: "messageEncoder \<Rightarrow> byte list" where
  "pending e = w_out (e_w e) @ hb_data (e_buf e)"

definition hdr_wire :: "('ty, 'h) headers_impl \<Rightarrow> 'h \<Rightarrow> byte list" where
  "hdr_wire impl h = concat (fst (hi_encode impl h))"

definition hdr_bytes :: "'ty registry \<Rightarrow> ('ty, 'h) headers_impl \<Rightarrow> 'h option \<Rightarrow> byte list" where
  "hdr_bytes reg impl ho =
     (case ho of
        None \<Rightarrow> []
      | Some h \<Rightarrow> if indexHeaders reg impl ho = 0 then [] else hdr_wire impl h)"

definition request_line :: "'ty registry \<Rightarrow> ('ty, 'h) headers_impl \<Rightarrow> 'h wireRequest \<Rightarrow> requestStartLine" where
  "request_line reg impl req =
     \<lparr>ql_Service = rq_Service req, ql_HeaderType = indexHeaders reg impl (rq_Headers req),
      ql_HeaderSize = word_of_nat (length (hdr_bytes reg impl (rq_Headers req))),
      ql_ID = rq_ID req, ql_BodySize = b_Size (rq_Body req)\<rparr>"

definition response_line :: "'ty registry \<Rightarrow> ('ty, 'h) headers_impl \<Rightarrow> 'h wireResponse \<Rightarrow> responseStartLine" where
  "response_line reg impl resp =
     \<lparr>pl_ErrorSize = word_of_nat (length (rp_Error resp)),
      pl_HeaderType = indexHeaders reg impl (rp_Headers resp),
      pl_HeaderSize = word_of_nat (length (hdr_bytes reg impl (rp_Headers resp))),
      pl_ID = rp_ID resp, pl_BodySize = b_Size (rp_Body resp)\<rparr>"

text \<open>
  A body that is copied and spliced alike: \<open>spliceTo\<close> reads a file at the body's offset and the
  fallback copy from the file's position, and a connection may lose bytes between the two.
\<close>

definition body_steady :: "body \<Rightarrow> bool" where
  "body_steady b \<longleftrightarrow> uint (b_Size b) < 2 ^ 63 \<and>
     (case b_Reader b of
        None \<Rightarrow> b_Size b = 0
      | Some r \<Rightarrow> r_kind r \<noteq> RConn \<and> (r_kind r = RFile \<longrightarrow> nat (to_int (b_Offset b)) = r_pos r))"

definition body_bytes :: "body \<Rightarrow> byte list" where
  "body_bytes b = (case b_Reader b of None \<Rightarrow> [] | Some r \<Rightarrow> take (unat (b_Size b)) (r_rest r))"

lemma hb_Write_data [simp]: "hb_data (hb_Write rnd b p) = hb_data b @ p"
  by (simp add: hb_Write_def)

lemma hb_Write_fits:
  "length (hb_data b) + length p \<le> hb_cap b \<Longrightarrow> hb_Write rnd b p = b\<lparr>hb_data := hb_data b @ p\<rparr>"
  by (simp add: hb_Write_def)

lemma hb_Writes_data [simp]: "hb_data (foldl (hb_Write rnd) b cs) = hb_data b @ concat cs"
  by (induction cs arbitrary: b) simp_all

lemma hb_Writes_fit:
  "length (hb_data b) + length (concat cs) \<le> hb_cap b \<Longrightarrow>
     foldl (hb_Write rnd) b cs = b\<lparr>hb_data := hb_data b @ concat cs\<rparr>"
  by (induction cs arbitrary: b) (simp_all add: hb_Write_fits)

lemma Flush_ok:
  "Flush e = (None, e') \<Longrightarrow> pending e' = pending e \<and> hb_data (e_buf e') = []
     \<and> hb_cap (e_buf e') = hb_cap (e_buf e) \<and> w_out (e_w e') = pending e"
  by (auto simp: Flush_def pending_def Let_def dest: w_write_ok split: if_splits option.splits prod.splits)

lemma flush_before_ok:
  assumes "flush_before e b = (None, e')"
  shows "pending e' = pending e \<and> hb_cap (e_buf e') = hb_cap (e_buf e)
    \<and> length (hb_data (e_buf e')) \<le> length (hb_data (e_buf e))"
  using assms Flush_ok [of e e'] by (auto simp: flush_before_def split: if_splits)

lemma flush_full_ok: "flush_full e = (None, e') \<Longrightarrow> pending e' = pending e"
  using Flush_ok [of e e'] by (auto simp: flush_full_def split: if_splits)

lemma CopyN_ok:
  assumes "CopyN w r n = (None, k, w', r')" "0 \<le> n"
  shows "w_out w' = w_out w @ take (nat n) (r_rest r) \<and> nat n \<le> length (r_rest r)"
  using assms
  by (auto simp: CopyN_def Let_def dest!: w_write_ok split: option.splits prod.splits if_splits)

lemma encode_body_ok:
  assumes enc: "encode_body env e b = Some (None, e', b')" and st: "body_steady b"
  shows "pending e' = pending e @ body_bytes b \<and> length (body_bytes b) = unat (b_Size b)"
proof (cases "b_Size b = 0 \<or> b_Reader b = None")
  case True
  then have "b_Size b = 0" using st by (auto simp: body_steady_def)
  then show ?thesis
    using enc by (auto simp: encode_body_def pending_def body_bytes_def split: option.splits)
next
  case False
  then obtain r where r: "b_Reader b = Some r" and nz: "b_Size b \<noteq> 0" by auto
  have small: "uint (b_Size b) < 2 ^ 63" using st by (simp add: body_steady_def)
  then have sz: "to_int (b_Size b) = uint (b_Size b)" by (rule to_int_small)
  have pay: "splice_payload b r = r_rest r"
    using st r by (auto simp: body_steady_def splice_payload_def r_rest_def)
  obtain e1 where fl: "Flush e = (None, e1)"
    using enc r nz by (auto simp: encode_body_def split: prod.splits option.splits)
  have e1: "w_out (e_w e1) = pending e" "hb_data (e_buf e1) = []"
    using Flush_ok [OF fl] by auto
  obtain spliced w b1 where sp: "spliceTo env (e_w e1) b = Some (spliced, None, w, b1)"
    using enc r nz fl by (auto simp: encode_body_def split: prod.splits option.splits bool.splits)
  show ?thesis
  proof (cases spliced)
    case True
    then have "e' = e1\<lparr>e_w := w, e_stat := incWriteCalls (addBodyWritten (b_Size b) (e_stat e1))\<rparr>"
      using enc r nz fl sp by (simp add: encode_body_def)
    then show ?thesis
      using spliceTo_sent [of env "e_w e1" b w b1] sp True small r e1 pay
      by (auto simp: pending_def body_bytes_def)
  next
    case False
    then have w: "w = e_w e1" and b1: "b1 = b"
      using spliceTo_not_sent [of env "e_w e1" b None w b1] sp st r by (auto simp: body_steady_def)
    obtain n w2 r2 where cp: "CopyN w r (to_int (b_Size b)) = (None, n, w2, r2)"
        "e_w e' = w2" "e_buf e' = e_buf e1"
      using enc r nz fl sp False b1 by (auto simp: encode_body_def split: prod.splits option.splits)
    show ?thesis
      using CopyN_ok [OF cp(1)] cp(2,3) w e1 r sz by (auto simp: pending_def body_bytes_def)
  qed
qed

text \<open>The next message's headers fit into the array that gets the placeholder.\<close>

definition head_fits :: "(nat \<Rightarrow> nat) \<Rightarrow> hbuf \<Rightarrow> nat \<Rightarrow> bool" where
  "head_fits rnd b n \<longleftrightarrow>
     length (hb_data b) + startLineSize + n \<le> hb_cap (hb_Write rnd b (replicate startLineSize 0))"

section \<open>The contract of a header type\<close>

text \<open>
  A registry is well formed when every registered type has the index of its own constructor, and
  index 0 is nobody's. The contract of a header type: encoding writes a fixed number of bytes
  that divides the header buffer's size and reports it, and decoding them into a fresh header
  gives the header back.
\<close>

definition reg_wf :: "'ty registry \<Rightarrow> bool" where
  "reg_wf reg \<longleftrightarrow> constructors reg \<noteq> [] \<and> constructors reg ! 0 = None \<and>
     (\<forall>ty i. indexes reg ty = Some i \<longrightarrow>
        i \<noteq> 0 \<and> unat i < length (constructors reg) \<and> constructors reg ! unat i = Some ty)"

lemma reg_wf_empty [simp]: "reg_wf empty_registry"
  by (simp add: reg_wf_def empty_registry_def)

lemma reg_wf_register:
  assumes wf: "reg_wf reg" and small: "length (constructors reg) < 2 ^ 32"
  shows "reg_wf (RegisterHeaders reg ty)"
proof -
  let ?n = "length (constructors reg)"
  have n: "unat (word_of_nat ?n :: u32) = ?n" using small by (rule unat_index)
  have "?n \<noteq> 0" using wf by (simp add: reg_wf_def)
  then have "(word_of_nat ?n :: u32) \<noteq> 0" using n by (metis unat_0)
  then show ?thesis
    using wf n by (auto simp: reg_wf_def RegisterHeaders_def nth_append less_Suc_eq)
qed

locale header_codec =
  fixes impl :: "('ty, 'h) headers_impl" and ok :: "'h \<Rightarrow> bool" and width :: nat
  assumes enc_count: "ok h \<Longrightarrow> snd (hi_encode impl h) = Inr width"
    and enc_width: "ok h \<Longrightarrow> length (hdr_wire impl h) = width"
    and width_pos: "0 < width"
    and width_dvd: "width dvd headerBufferSize"
    and dec_enc: "ok h \<Longrightarrow> hi_decode impl (hi_new impl (hi_type impl h)) (hdr_wire impl h) = Inr h"
begin

definition hdr_ok :: "'ty registry \<Rightarrow> 'h option \<Rightarrow> bool" where
  "hdr_ok reg ho \<longleftrightarrow> (case ho of None \<Rightarrow> True | Some h \<Rightarrow> ok h \<and> indexes reg (hi_type impl h) \<noteq> None)"

lemma width_le: "width \<le> headerBufferSize"
  using width_dvd by (auto simp: headerBufferSize_def dest: dvd_imp_le)

lemma index_ok:
  assumes "reg_wf reg" "hdr_ok reg ho"
  shows "(indexHeaders reg impl ho = 0) = (ho = None)"
    "newHeaders reg impl (indexHeaders reg impl ho)
       = Inr (map_option (\<lambda>h. hi_new impl (hi_type impl h)) ho)"
  using assms by (auto simp: indexHeaders_def newHeaders_def hdr_ok_def reg_wf_def split: option.splits)

lemma length_hdr_bytes:
  "reg_wf reg \<Longrightarrow> hdr_ok reg ho \<Longrightarrow>
     length (hdr_bytes reg impl ho) = (case ho of None \<Rightarrow> 0 | Some h \<Rightarrow> width)"
  using index_ok(1) by (auto simp: hdr_bytes_def hdr_ok_def enc_width split: option.splits)

lemma hdr_size_word:
  assumes "reg_wf reg" "hdr_ok reg ho"
  shows "unat (word_of_nat (length (hdr_bytes reg impl ho)) :: u32) = length (hdr_bytes reg impl ho)"
proof -
  have "length (hdr_bytes reg impl ho) \<le> headerBufferSize"
    using length_hdr_bytes [OF assms] width_le by (auto split: option.splits)
  then show ?thesis by (intro unat_index) (simp add: headerBufferSize_def)
qed

lemma put_headers_ok:
  assumes "reg_wf reg" "hdr_ok reg ho"
    and fits: "length (hb_data b) + length (hdr_bytes reg impl ho) \<le> hb_cap b"
  shows "put_headers rnd reg impl ho b =
    (Inr (indexHeaders reg impl ho, length (hdr_bytes reg impl ho)),
     b\<lparr>hb_data := hb_data b @ hdr_bytes reg impl ho\<rparr>)"
proof (cases ho)
  case None
  then show ?thesis by (simp add: put_headers_def hdr_bytes_def)
next
  case (Some h)
  have h: "ok h" using assms Some by (simp add: hdr_ok_def)
  obtain cs where cs: "hi_encode impl h = (cs, Inr width)" "concat cs = hdr_wire impl h"
    using enc_count [OF h] by (cases "hi_encode impl h") (simp add: hdr_wire_def)
  have "hdr_bytes reg impl ho = hdr_wire impl h"
    using index_ok(1) [OF assms(1,2)] Some by (simp add: hdr_bytes_def)
  then show ?thesis
    using cs fits index_ok(1) [OF assms(1,2)] enc_width [OF h] Some
    by (simp add: put_headers_def Let_def hb_Writes_fit)
qed

text \<open>
  If the array that holds the placeholder has room for the headers too, the start line lands in
  place.
\<close>

lemma put_head_ok:
  assumes "reg_wf reg" "hdr_ok reg ho"
    and b1: "b1 = hb_Write rnd b (replicate startLineSize 0)"
    and fits: "length (hb_data b) + startLineSize + length (hdr_bytes reg impl ho) \<le> hb_cap b1"
    and line: "length line = startLineSize"
  shows "\<exists>b2. put_headers rnd reg impl ho b1
      = (Inr (indexHeaders reg impl ho, length (hdr_bytes reg impl ho)), b2)
    \<and> hb_patch b2 (hb_array b1) (length (hb_data b)) line
      = b1\<lparr>hb_data := hb_data b @ line @ hdr_bytes reg impl ho\<rparr>"
proof -
  have "put_headers rnd reg impl ho b1
      = (Inr (indexHeaders reg impl ho, length (hdr_bytes reg impl ho)),
         b1\<lparr>hb_data := hb_data b1 @ hdr_bytes reg impl ho\<rparr>)"
    using fits by (intro put_headers_ok assms(1,2)) (simp add: b1)
  then show ?thesis by (simp add: b1 hb_patch_def line)
qed

lemma encodeRequestHeaders_ok:
  assumes "reg_wf reg" "hdr_ok reg (rq_Headers req)"
    and fits: "head_fits rnd (e_buf e) (length (hdr_bytes reg impl (rq_Headers req)))"
  shows "encodeRequestHeaders rnd reg impl e req = (None, e\<lparr>e_buf :=
    (hb_Write rnd (e_buf e) (replicate startLineSize 0))\<lparr>hb_data := hb_data (e_buf e)
      @ put_requestLine (request_line reg impl req) @ hdr_bytes reg impl (rq_Headers req)\<rparr>\<rparr>)"
  using put_head_ok [OF assms(1,2) refl fits [unfolded head_fits_def]
      length_requestLine [of "request_line reg impl req"]]
  by (auto simp: encodeRequestHeaders_def Let_def request_line_def)

lemma encodeResponseHeaders_ok:
  assumes "reg_wf reg" "hdr_ok reg (rp_Headers resp)"
    and fits: "head_fits rnd (e_buf e) (length (hdr_bytes reg impl (rp_Headers resp)))"
  shows "\<exists>b. encodeResponseHeaders rnd reg impl e resp = (None, e\<lparr>e_buf := b\<rparr>) \<and> hb_data b =
    hb_data (e_buf e) @ put_responseLine (response_line reg impl resp)
      @ hdr_bytes reg impl (rp_Headers resp) @ rp_Error resp"
proof -
  let ?b3 = "(hb_Write rnd (e_buf e) (replicate startLineSize 0))\<lparr>hb_data := hb_data (e_buf e)
      @ put_responseLine (response_line reg impl resp) @ hdr_bytes reg impl (rp_Headers resp)\<rparr>"
  let ?b4 = "if length (rp_Error resp) > 0 then hb_Write rnd ?b3 (rp_Error resp) else ?b3"
  have "encodeResponseHeaders rnd reg impl e resp = (None, e\<lparr>e_buf := ?b4\<rparr>)"
    using put_head_ok [OF assms(1,2) refl fits [unfolded head_fits_def]
        length_responseLine [of "response_line reg impl resp"]]
    by (auto simp: encodeResponseHeaders_def Let_def response_line_def)
  moreover have "hb_data ?b4 = hb_data (e_buf e) @ put_responseLine (response_line reg impl resp)
      @ hdr_bytes reg impl (rp_Headers resp) @ rp_Error resp" by simp
  ultimately show ?thesis by blast
qed

lemma EncodeRequest_pending:
  assumes "reg_wf reg" "hdr_ok reg (rq_Headers req)" "body_steady (rq_Body req)"
    and fits: "head_fits rnd (e_buf e1) (length (hdr_bytes reg impl (rq_Headers req)))"
    and e1: "flush_before e (rq_Body req) = (None, e1)"
    and enc: "EncodeRequest env rnd reg impl e req = Some (None, e', b')"
  shows "pending e' = pending e @ put_requestLine (request_line reg impl req)
      @ hdr_bytes reg impl (rq_Headers req) @ body_bytes (rq_Body req)
    \<and> length (body_bytes (rq_Body req)) = unat (b_Size (rq_Body req))"
proof -
  let ?b = "(hb_Write rnd (e_buf e1) (replicate startLineSize 0))\<lparr>hb_data := hb_data (e_buf e1) @ put_requestLine (request_line reg impl req)
      @ hdr_bytes reg impl (rq_Headers req)\<rparr>"
  have e2: "encodeRequestHeaders rnd reg impl e1 req = (None, e1\<lparr>e_buf := ?b\<rparr>)"
    by (rule encodeRequestHeaders_ok [OF assms(1,2) fits])
  obtain e3 where e3: "flush_full (e1\<lparr>e_buf := ?b\<rparr>) = (None, e3)"
      "encode_body env e3 (rq_Body req) = Some (None, e', b')"
    using enc e1 e2 by (auto simp: EncodeRequest_def split: prod.splits option.splits)
  show ?thesis
    using encode_body_ok [OF e3(2) assms(3)] flush_full_ok [OF e3(1)] flush_before_ok [OF e1]
    by (auto simp: pending_def)
qed

lemma EncodeResponse_pending:
  assumes "reg_wf reg" "hdr_ok reg (rp_Headers resp)" "body_steady (rp_Body resp)"
    and fits: "head_fits rnd (e_buf e1) (length (hdr_bytes reg impl (rp_Headers resp)))"
    and e1: "flush_before e (rp_Body resp) = (None, e1)"
    and enc: "EncodeResponse env rnd reg impl e resp = Some (None, e', b')"
  shows "pending e' = pending e @ put_responseLine (response_line reg impl resp)
      @ hdr_bytes reg impl (rp_Headers resp) @ rp_Error resp @ body_bytes (rp_Body resp)
    \<and> length (body_bytes (rp_Body resp)) = unat (b_Size (rp_Body resp))"
proof -
  from encodeResponseHeaders_ok [OF assms(1,2) fits] obtain b where
    e2: "encodeResponseHeaders rnd reg impl e1 resp = (None, e1\<lparr>e_buf := b\<rparr>)" and b: "hb_data b =
      hb_data (e_buf e1) @ put_responseLine (response_line reg impl resp)
      @ hdr_bytes reg impl (rp_Headers resp) @ rp_Error resp" by blast
  obtain e3 where e3: "flush_full (e1\<lparr>e_buf := b\<rparr>) = (None, e3)"
      "encode_body env e3 (rp_Body resp) = Some (None, e', b')"
    using enc e1 e2 by (auto simp: EncodeResponse_def split: prod.splits option.splits)
  show ?thesis
    using encode_body_ok [OF e3(2) assms(3)] flush_full_ok [OF e3(1)] flush_before_ok [OF e1] b
    by (auto simp: pending_def)
qed

end

section \<open>What the decoder does with a message\<close>

text \<open>
  The header buffer between two messages: empty, of its initial capacity, and starting at a
  multiple of the header size, so that the next headers never reach its end half-way.
\<close>

definition hdr_ring :: "nat \<Rightarrow> ring \<Rightarrow> bool" where
  "hdr_ring width b \<longleftrightarrow> rb_wf b \<and> rb_abs b = [] \<and> rb_capacity b = int headerBufferSize
     \<and> int width dvd rb_start b"

lemma hdr_ring_new [simp]: "hdr_ring width (newRingBuffer headerBufferSize)"
  by (simp add: hdr_ring_def headerBufferSize_def) (simp add: newRingBuffer_def)

lemma rb_copy_in_ok:
  assumes "rb_wf b" "rb_start b + rb_size b + int (length (concat cs)) \<le> rb_capacity b"
  shows "\<exists>b'. rb_copy_in b cs = Inr b' \<and> rb_wf b' \<and> rb_abs b' = rb_abs b @ concat cs
    \<and> rb_start b' = rb_start b \<and> rb_capacity b' = rb_capacity b"
  using assms
proof (induction cs arbitrary: b)
  case Nil
  then show ?case by simp
next
  case (Cons c cs)
  have len: "int (length (concat (c # cs))) = int (length c) + int (length (concat cs))" by simp
  have st: "0 \<le> rb_start b" using Cons.prems(1) by (simp add: rb_wf_def)
  have "rb_ready b c" using Cons.prems(2) len by (auto simp: rb_ready_def)
  then obtain b1 where w: "rb_write b c = Inr (b1, length c)" "rb_wf b1" "rb_abs b1 = rb_abs b @ c"
      "rb_capacity b1 = max (rb_capacity b) (rb_size b + int (length c))"
      "rb_size b1 = rb_size b + int (length c)"
      "rb_size b + int (length c) \<le> rb_capacity b \<Longrightarrow> rb_start b1 = rb_start b"
    using rb_write_ok [OF Cons.prems(1)] by metis
  have le: "rb_size b + int (length c) \<le> rb_capacity b"
    using Cons.prems(2) len st by linarith
  have b1: "rb_start b1 = rb_start b" "rb_capacity b1 = rb_capacity b"
    using w(4,6) le by simp_all
  have "rb_start b1 + rb_size b1 + int (length (concat cs)) \<le> rb_capacity b1"
    using Cons.prems(2) len b1 w(5) by linarith
  from Cons.IH [OF w(2) this] show ?case
    using w(1,3) b1 by auto
qed

lemma rb_TrySlice_start:
  assumes "rb_TrySlice b k = Inr (d, sliced, b')" "rb_wf b" "0 < rb_capacity b"
  shows "rb_start b' = (rb_start b + int (length d)) mod rb_capacity b"
  using assms
  by (auto simp: rb_TrySlice_def rb_consume_def mod_capacity_ok rb_wf_def split: sum.splits)

text \<open>The kernel moves the body from the connection to a pipe in full.\<close>

definition pipe_loads :: "splice_env \<Rightarrow> byte list \<Rightarrow> int \<Rightarrow> bool" where
  "pipe_loads env bs sz =
     (case PipeConn env bs sz of Some (Inr pipe, rest, fate) \<Rightarrow> True | _ \<Rightarrow> False)"

lemma pipe_loadsE:
  assumes "pipe_loads env bs sz"
  obtains pipe rest fate where "PipeConn env bs sz = Some (Inr pipe, rest, fate)"
proof (cases "PipeConn env bs sz")
  case None
  then show ?thesis using assms by (simp add: pipe_loads_def)
next
  case (Some t)
  then show ?thesis using assms that by (cases t; cases "fst t") (auto simp: pipe_loads_def)
qed

lemma decodeBody_ok:
  assumes inp: "concat (d_in d) = bs @ r" and sz: "sz = int (length bs)"
    and conn: "d_isconn d \<Longrightarrow> bs \<noteq> [] \<Longrightarrow> pipe_loads env (bs @ r) sz"
  shows "\<exists>rd d'. decodeBody env d sz = Some (Inr rd, d') \<and> r_rest rd = (if d_closeBody d then [] else bs)
    \<and> r_closes rd = (if d_closeBody d then 1 else 0) \<and> concat (d_in d') = r
    \<and> d_hdr d' = d_hdr d \<and> d_isconn d' = d_isconn d \<and> d_closeBody d' = d_closeBody d"
proof (cases "bs = []")
  case True
  then show ?thesis
    using inp sz by (simp add: decodeBody_def close_if_def noopBody_def r_rest_def r_close_def)
next
  case ne: False
  then have nz: "sz \<noteq> 0" "\<not> sz < 0" using sz by simp_all
  show ?thesis
  proof (cases "d_isconn d")
    case True
    obtain pipe rest fate where p: "PipeConn env (bs @ r) sz = Some (Inr pipe, rest, fate)"
      using conn [OF True ne] by (rule pipe_loadsE)
    have "pipe = bs" "rest = r" using PipeConn_ok [OF p] sz by simp_all
    then show ?thesis
      using p nz True inp
      by (simp add: decodeBody_def spliceBody_def Let_def close_if_def pipe_reader_def r_rest_def
          r_close_def)
  next
    case False
    then show ?thesis
      using nz inp sz
      by (simp add: decodeBody_def spliceBody_def close_if_def buffer_reader_def r_rest_def r_close_def)
  qed
qed

context header_codec
begin

lemma slot_fits:
  assumes "hdr_ring width b"
  shows "rb_start b + int width \<le> rb_capacity b"
proof -
  have cap: "0 < rb_capacity b" "int width dvd rb_capacity b" "int width dvd rb_start b"
    using assms width_dvd unfolding hdr_ring_def
    by (simp_all add: headerBufferSize_def del: of_nat_numeral flip: int_dvd_int_iff)
  have lt: "rb_start b < rb_capacity b" using assms cap(1) by (auto simp: hdr_ring_def rb_wf_def)
  obtain i j where "rb_capacity b = int width * i" "rb_start b = int width * j"
    using cap by (auto elim!: dvdE)
  moreover from this have "j + 1 \<le> i"
    using lt width_pos by (simp add: mult_less_cancel_left)
  ultimately show ?thesis
    using width_pos mult_left_mono [of "j + 1" i "int width"] by (simp add: distrib_left)
qed

lemma ring_round:
  assumes "hdr_ring width b" "length (concat cs) = width"
  shows "\<exists>b1 sliced b2. rb_copy_in b cs = Inr b1
    \<and> rb_TrySlice b1 (int width) = Inr (concat cs, sliced, b2) \<and> hdr_ring width b2"
proof -
  have wf: "rb_wf b" "rb_abs b = []" "rb_size b = 0" "0 < rb_capacity b"
    using assms(1) rb_abs_empty [of b] by (auto simp: hdr_ring_def headerBufferSize_def)
  have "rb_start b + rb_size b + int (length (concat cs)) \<le> rb_capacity b"
    using slot_fits [OF assms(1)] wf(3) assms(2) by linarith
  from rb_copy_in_ok [OF wf(1) this] obtain b1 where b1: "rb_copy_in b cs = Inr b1" "rb_wf b1"
      "rb_abs b1 = concat cs" "rb_start b1 = rb_start b" "rb_capacity b1 = rb_capacity b"
    using wf(2) by auto
  have c1: "0 < rb_capacity b1" using b1(5) wf(4) by simp
  obtain sliced b2 where b2: "rb_TrySlice b1 (int width) = Inr (concat cs, sliced, b2)" "rb_wf b2"
      "rb_abs b2 = []" "rb_capacity b2 = rb_capacity b1"
    using rb_TrySlice_ok [OF b1(2) _ c1, of "int width"] b1(3) assms(2)
    by (metis drop_all nat_int of_nat_0_le_iff order_refl take_all)
  have "int width dvd rb_start b2"
    using rb_TrySlice_start [OF b2(1) b1(2) c1] b1(4,5) assms width_dvd
    by (simp add: hdr_ring_def dvd_mod_iff)
  then show ?thesis
    using b1 b2 assms(1) by (auto simp: hdr_ring_def)
qed

lemma decode_headers_raw:
  assumes "reg_wf reg" "hdr_ok reg (Some h)" and ring: "hdr_ring width (d_hdr d)"
    and inp: "concat (d_in d) = bs @ r" and len: "length bs = width"
    and dec: "hi_decode impl (hi_new impl (hi_type impl h)) bs = Inr h'"
  shows "\<exists>d'. decode_headers wrapf reg impl d (indexHeaders reg impl (Some h)) (word_of_nat width)
      = (Inr (Some h'), d')
    \<and> concat (d_in d') = r \<and> hdr_ring width (d_hdr d') \<and> d_isconn d' = d_isconn d
    \<and> d_closeBody d' = d_closeBody d"
proof -
  have sz: "unat (word_of_nat width :: u32) = width"
    using hdr_size_word [OF assms(1,2)] length_hdr_bytes [OF assms(1,2)] by simp
  then have nz: "(word_of_nat width :: u32) \<noteq> 0" using width_pos by (metis less_irrefl unat_0)
  obtain cs rest where cs: "copy_chunks width (d_in d) = (cs, rest)"
    by (cases "copy_chunks width (d_in d)")
  have con: "concat cs = bs" "concat rest = r"
    using copy_chunks_spec [of width "d_in d"] cs inp len by simp_all
  then have cl: "length (concat cs) = width" using len by simp
  obtain b1 sliced b2 where b: "rb_copy_in (d_hdr d) cs = Inr b1"
      "rb_TrySlice b1 (int width) = Inr (concat cs, sliced, b2)" "hdr_ring width b2"
    using ring_round [OF ring cl] by blast
  show ?thesis
    using index_ok(2) [OF assms(1,2)] sz nz cs con(2) b len
    by (simp add: decode_headers_def Let_def con(1) dec)
qed

lemma decode_headers_ok:
  assumes "reg_wf reg" "hdr_ok reg ho" and ring: "hdr_ring width (d_hdr d)"
    and inp: "concat (d_in d) = hdr_bytes reg impl ho @ r"
  shows "\<exists>d'. decode_headers wrapf reg impl d (indexHeaders reg impl ho)
        (word_of_nat (length (hdr_bytes reg impl ho))) = (Inr ho, d')
    \<and> concat (d_in d') = r \<and> hdr_ring width (d_hdr d') \<and> d_isconn d' = d_isconn d
    \<and> d_closeBody d' = d_closeBody d"
proof (cases ho)
  case None
  then show ?thesis
    using index_ok(2) [OF assms(1,2)] inp ring by (simp add: decode_headers_def hdr_bytes_def)
next
  case (Some h)
  have h: "ok h" using assms(2) Some by (simp add: hdr_ok_def)
  have hb: "hdr_bytes reg impl ho = hdr_wire impl h"
    using index_ok(1) [OF assms(1,2)] Some by (simp add: hdr_bytes_def)
  show ?thesis
    using decode_headers_raw [OF assms(1) assms(2)[unfolded Some] ring _ _ dec_enc [OF h]]
      inp hb enc_width [OF h] Some by simp
qed

lemma DecodeRequest_ok:
  assumes "reg_wf reg" "hdr_ok reg (rq_Headers req)" and ring: "hdr_ring width (d_hdr d)"
    and small: "uint (b_Size (rq_Body req)) < 2 ^ 63"
    and inp: "concat (d_in d) = put_requestLine (request_line reg impl req)
        @ hdr_bytes reg impl (rq_Headers req) @ bs @ r"
    and bs: "length bs = unat (b_Size (rq_Body req))"
    and conn: "d_isconn d \<Longrightarrow> bs \<noteq> [] \<Longrightarrow> pipe_loads env (bs @ r) (int (length bs))"
  shows "\<exists>rd d'. DecodeRequest env reg impl d req0 = Some (Inr
      \<lparr>rq_Service = rq_Service req, rq_ID = rq_ID req, rq_Headers = rq_Headers req,
       rq_Body = (rq_Body req0)\<lparr>b_Size := b_Size (rq_Body req), b_Reader := Some rd\<rparr>\<rparr>, d')
    \<and> r_rest rd = (if d_closeBody d then [] else bs) \<and> r_closes rd = (if d_closeBody d then 1 else 0) \<and> concat (d_in d') = r
    \<and> hdr_ring width (d_hdr d') \<and> d_isconn d' = d_isconn d \<and> d_closeBody d' = d_closeBody d"
proof -
  let ?l = "request_line reg impl req"
  obtain rest where rf: "read_full startLineSize (d_in d) = (Inr (put_requestLine ?l), rest)"
      "concat rest = hdr_bytes reg impl (rq_Headers req) @ bs @ r"
    using read_full_exact [OF inp] by auto
  have gl: "get_requestLine (put_requestLine ?l) = ?l"
    using get_put_requestLine [of ?l "[]"] by simp
  let ?d1 = "d\<lparr>d_in := rest, d_stat := addHeadRead (word_of_nat startLineSize) (d_stat d)\<rparr>"
  obtain d2 where d2: "decode_headers (\<lambda>e. e) reg impl ?d1 (ql_HeaderType ?l) (ql_HeaderSize ?l)
        = (Inr (rq_Headers req), d2)" "concat (d_in d2) = bs @ r" "hdr_ring width (d_hdr d2)"
      "d_isconn d2 = d_isconn d" "d_closeBody d2 = d_closeBody d"
    using decode_headers_ok [OF assms(1,2), of ?d1 "bs @ r" "\<lambda>e. e"] rf(2) ring
    by (auto simp: request_line_def)
  have sz: "to_int (ql_BodySize ?l) = int (length bs)"
    using to_int_small [OF small] bs by (simp add: request_line_def)
  have c2: "pipe_loads env (bs @ r) (to_int (ql_BodySize ?l))" if "d_isconn d2" "bs \<noteq> []"
    using conn that d2(4) unfolding sz by simp
  obtain rd d3 where d3: "decodeBody env d2 (to_int (ql_BodySize ?l)) = Some (Inr rd, d3)"
      "r_rest rd = (if d_closeBody d then [] else bs)" "r_closes rd = (if d_closeBody d then 1 else 0)" "concat (d_in d3) = r"
      "d_hdr d3 = d_hdr d2" "d_isconn d3 = d_isconn d" "d_closeBody d3 = d_closeBody d"
    using decodeBody_ok [OF d2(2) sz c2] unfolding d2(4,5) by blast
  have "DecodeRequest env reg impl d req0 = Some (Inr
      \<lparr>rq_Service = ql_Service ?l, rq_ID = ql_ID ?l, rq_Headers = rq_Headers req,
       rq_Body = (rq_Body req0)\<lparr>b_Size := ql_BodySize ?l, b_Reader := Some rd\<rparr>\<rparr>,
      d3\<lparr>d_stat := incReadCalls (d_stat d3)\<rparr>)"
    using d2(1) d3(1) by (simp add: DecodeRequest_def rf(1) gl Let_def)
  with d3 d2(3) show ?thesis
    by (intro exI [of _ rd] exI [of _ "d3\<lparr>d_stat := incReadCalls (d_stat d3)\<rparr>"])
      (simp add: request_line_def)
qed

text \<open>
  A response whose headers come without an error text, or the other way round: there the order in
  which the encoder writes the two and the decoder reads them does not show.
\<close>

lemma DecodeResponse_ok:
  assumes "reg_wf reg" "hdr_ok reg (rp_Headers resp)" and ring: "hdr_ring width (d_hdr d)"
    and small: "uint (b_Size (rp_Body resp)) < 2 ^ 63"
    and err: "rp_Error resp = [] \<or> rp_Headers resp = None" "length (rp_Error resp) < 2 ^ 32"
    and inp: "concat (d_in d) = put_responseLine (response_line reg impl resp)
        @ hdr_bytes reg impl (rp_Headers resp) @ rp_Error resp @ bs @ r"
    and bs: "length bs = unat (b_Size (rp_Body resp))"
    and conn: "d_isconn d \<Longrightarrow> bs \<noteq> [] \<Longrightarrow> pipe_loads env (bs @ r) (int (length bs))"
  shows "\<exists>rd d'. DecodeResponse env reg impl d resp0 = Some (Inr
      \<lparr>rp_ID = rp_ID resp, rp_Headers = rp_Headers resp,
       rp_Body = (rp_Body resp0)\<lparr>b_Size := b_Size (rp_Body resp), b_Reader := Some rd\<rparr>,
       rp_Error = (if rp_Error resp = [] then rp_Error resp0 else rp_Error resp)\<rparr>, d')
    \<and> r_rest rd = (if d_closeBody d then [] else bs) \<and> r_closes rd = (if d_closeBody d then 1 else 0) \<and> concat (d_in d') = r
    \<and> hdr_ring width (d_hdr d') \<and> d_isconn d' = d_isconn d \<and> d_closeBody d' = d_closeBody d"
proof -
  let ?l = "response_line reg impl resp" and ?E = "rp_Error resp" and ?H = "hdr_bytes reg impl (rp_Headers resp)"
  have inp': "concat (d_in d) = put_responseLine ?l @ ?E @ ?H @ bs @ r"
    using inp err(1) by (auto simp: hdr_bytes_def)
  obtain rest where rf: "read_full startLineSize (d_in d) = (Inr (put_responseLine ?l), rest)"
      "concat rest = ?E @ ?H @ bs @ r"
    using read_full_exact [OF inp'] by auto
  have gl: "get_responseLine (put_responseLine ?l) = ?l"
    using get_put_responseLine [of ?l "[]"] by simp
  have es: "unat (pl_ErrorSize ?l) = length ?E"
    using unat_index [OF err(2)] by (simp add: response_line_def)
  then have ez: "pl_ErrorSize ?l > 0 \<longleftrightarrow> ?E \<noteq> []" by (auto simp: word_less_nat_alt)
  obtain rest1 where rf1: "read_full (length ?E) rest = (Inr ?E, rest1)" "concat rest1 = ?H @ bs @ r"
    using read_full_exact [OF rf(2)] by auto
  define d1 where "d1 = d\<lparr>d_in := rest, d_stat := addHeadRead (word_of_nat startLineSize) (d_stat d)\<rparr>"
  define d2 where "d2 = (if ?E = [] then d1 else d1\<lparr>d_in := rest1,
      d_stat := addHeadRead (ucast (pl_ErrorSize ?l)) (d_stat d1)\<rparr>)"
  have d2: "concat (d_in d2) = ?H @ bs @ r" "d_hdr d2 = d_hdr d" "d_isconn d2 = d_isconn d"
      "d_closeBody d2 = d_closeBody d"
    using rf(2) rf1(2) by (auto simp: d2_def d1_def)
  obtain d3 where d3: "decode_headers (Wrap ''read response headers'') reg impl d2
        (pl_HeaderType ?l) (pl_HeaderSize ?l) = (Inr (rp_Headers resp), d3)"
      "concat (d_in d3) = bs @ r" "hdr_ring width (d_hdr d3)"
      "d_isconn d3 = d_isconn d" "d_closeBody d3 = d_closeBody d"
    using decode_headers_ok [OF assms(1,2), of d2 "bs @ r" "Wrap ''read response headers''"] d2 ring
    by (auto simp: response_line_def)
  have sz: "to_int (pl_BodySize ?l) = int (length bs)"
    using to_int_small [OF small] bs by (simp add: response_line_def)
  have c3: "pipe_loads env (bs @ r) (to_int (pl_BodySize ?l))" if "d_isconn d3" "bs \<noteq> []"
    using conn that d3(4) unfolding sz by simp
  obtain rd d4 where d4: "decodeBody env d3 (to_int (pl_BodySize ?l)) = Some (Inr rd, d4)"
      "r_rest rd = (if d_closeBody d then [] else bs)" "r_closes rd = (if d_closeBody d then 1 else 0)" "concat (d_in d4) = r"
      "d_hdr d4 = d_hdr d3" "d_isconn d4 = d_isconn d" "d_closeBody d4 = d_closeBody d"
    using decodeBody_ok [OF d3(2) sz c3] unfolding d3(4,5) by blast
  have "DecodeResponse env reg impl d resp0 = Some (Inr
      \<lparr>rp_ID = pl_ID ?l, rp_Headers = rp_Headers resp,
       rp_Body = (rp_Body resp0)\<lparr>b_Size := pl_BodySize ?l, b_Reader := Some rd\<rparr>,
       rp_Error = (if ?E = [] then rp_Error resp0 else ?E)\<rparr>,
      d4\<lparr>d_stat := incReadCalls (d_stat d4)\<rparr>)"
    using d3(1) d4(1) rf1(1)
    by (auto simp: DecodeResponse_def rf(1) gl Let_def ez es d1_def d2_def)
  with d4 d3(3) show ?thesis
    by (intro exI [of _ rd] exI [of _ "d4\<lparr>d_stat := incReadCalls (d_stat d4)\<rparr>"])
      (simp add: response_line_def)
qed

end

section \<open>A connection's messages in sequence\<close>

text \<open>
  What the writer goroutine of a connection does with its encoder: encode the next message, or
  flush, when its timer says so. And what the reader goroutine of the other side does: decode
  one message after the other.
\<close>

datatype 'h enc_op = EReq "'h wireRequest" | EFlush

fun run_encoder :: "splice_env \<Rightarrow> (nat \<Rightarrow> nat) \<Rightarrow> 'ty registry \<Rightarrow> ('ty, 'h) headers_impl \<Rightarrow>
    messageEncoder \<Rightarrow> 'h enc_op list \<Rightarrow> messageEncoder option" where
  "run_encoder env rnd reg impl e [] = Some e"
| "run_encoder env rnd reg impl e (EFlush # ops) =
     (case Flush e of
        (Some er, e') \<Rightarrow> None
      | (None, e') \<Rightarrow> run_encoder env rnd reg impl e' ops)"
| "run_encoder env rnd reg impl e (EReq req # ops) =
     (case EncodeRequest env rnd reg impl e req of
        Some (None, e', b) \<Rightarrow> run_encoder env rnd reg impl e' ops
      | _ \<Rightarrow> None)"

fun requests_of :: "'h enc_op list \<Rightarrow> 'h wireRequest list" where
  "requests_of [] = []"
| "requests_of (EFlush # ops) = requests_of ops"
| "requests_of (EReq req # ops) = req # requests_of ops"

definition new_request :: "'h wireRequest" where
  "new_request = \<lparr>rq_Service = 0, rq_ID = 0, rq_Headers = None, rq_Body = empty_body\<rparr>"

definition new_response :: "'h wireResponse" where
  "new_response = \<lparr>rp_ID = 0, rp_Headers = None, rp_Body = empty_body, rp_Error = []\<rparr>"

lemma new_bodies [simp]: "rq_Body new_request = empty_body" "rp_Body new_response = empty_body"
    "rp_Error new_response = []"
  by (simp_all add: new_request_def new_response_def)

fun decode_requests :: "splice_env \<Rightarrow> 'ty registry \<Rightarrow> ('ty, 'h) headers_impl \<Rightarrow> messageDecoder \<Rightarrow> nat \<Rightarrow>
    ((go_error + 'h wireRequest list) \<times> messageDecoder) option" where
  "decode_requests env reg impl d 0 = Some (Inr [], d)"
| "decode_requests env reg impl d (Suc n) =
     (case DecodeRequest env reg impl d new_request of
        None \<Rightarrow> None
      | Some (Inl e, d1) \<Rightarrow> Some (Inl e, d1)
      | Some (Inr req, d1) \<Rightarrow>
          (case decode_requests env reg impl d1 n of
             None \<Rightarrow> None
           | Some (Inl e, d2) \<Rightarrow> Some (Inl e, d2)
           | Some (Inr reqs, d2) \<Rightarrow> Some (Inr (req # reqs), d2)))"

text \<open>What the two sides of a connection agree on about a request.\<close>

definition request_view :: "'h wireRequest \<Rightarrow> service \<times> u64 \<times> 'h option \<times> u64" where
  "request_view req = (rq_Service req, rq_ID req, rq_Headers req, b_Size (rq_Body req))"

definition request_wire :: "'ty registry \<Rightarrow> ('ty, 'h) headers_impl \<Rightarrow> 'h wireRequest \<Rightarrow> byte list" where
  "request_wire reg impl req =
     put_requestLine (request_line reg impl req) @ hdr_bytes reg impl (rq_Headers req)"

context header_codec
begin

lemma decode_requests_ok:
  assumes "reg_wf reg"
    and "\<forall>req \<in> set reqs. hdr_ok reg (rq_Headers req) \<and> b_Size (rq_Body req) = 0"
    and "hdr_ring width (d_hdr d)"
    and "concat (d_in d) = concat (map (request_wire reg impl) reqs) @ r"
  shows "\<exists>reqs' d'. decode_requests env reg impl d (length reqs) = Some (Inr reqs', d')
    \<and> map request_view reqs' = map request_view reqs \<and> concat (d_in d') = r"
  using assms(2-4)
proof (induction reqs arbitrary: d)
  case Nil
  then show ?case by simp
next
  case (Cons req reqs)
  have inp: "concat (d_in d) = put_requestLine (request_line reg impl req)
      @ hdr_bytes reg impl (rq_Headers req) @ [] @ (concat (map (request_wire reg impl) reqs) @ r)"
    using Cons.prems(3) by (simp add: request_wire_def [of reg impl req])
  have ok: "hdr_ok reg (rq_Headers req)" and z: "b_Size (rq_Body req) = 0"
    using Cons.prems(1) by simp_all
  have small: "uint (b_Size (rq_Body req)) < 2 ^ 63"
    and none: "length ([] :: byte list) = unat (b_Size (rq_Body req))" by (simp_all add: z)
  obtain rd d1 where d1: "DecodeRequest env reg impl d new_request = Some (Inr
      \<lparr>rq_Service = rq_Service req, rq_ID = rq_ID req, rq_Headers = rq_Headers req,
       rq_Body = empty_body\<lparr>b_Size := b_Size (rq_Body req), b_Reader := Some rd\<rparr>\<rparr>, d1)"
      "concat (d_in d1) = concat (map (request_wire reg impl) reqs) @ r" "hdr_ring width (d_hdr d1)"
    using DecodeRequest_ok [OF assms(1) ok Cons.prems(2) small inp none, of env new_request] by auto
  obtain reqs' d' where "decode_requests env reg impl d1 (length reqs) = Some (Inr reqs', d')"
      "map request_view reqs' = map request_view reqs" "concat (d_in d') = r"
    using Cons.IH [OF _ d1(3,2)] Cons.prems(1) by auto
  moreover have "request_view \<lparr>rq_Service = rq_Service req, rq_ID = rq_ID req, rq_Headers = rq_Headers req,
       rq_Body = empty_body\<lparr>b_Size := b_Size (rq_Body req), b_Reader := Some rd\<rparr>\<rparr> = request_view req"
    by (simp add: request_view_def)
  ultimately show ?case using d1(1) by simp
qed

end

end
