(* ===== verification/Read_Headers.thy ===== *)
theory Read_Headers
  imports Message_Codec
begin

text \<open>
  The one header type of the program, \<open>ReadHeaders\<close> of \<open>pkg/net/iorpc/headers.go\<close>: four
  64-bit words, 32 bytes on the wire (its field \<open>encodeBuf\<close> is scratch space, overwritten by each
  \<open>Encode\<close>). It satisfies the contract \<open>header_codec\<close>, so what the encoder produces for messages
  with these headers is what the decoder reads back. The theory also shows where it is not: a
  start line written after the header buffer has moved, and a response with headers and an error.
\<close>

section \<open>ReadHeaders\<close>

datatype header_type = TReadHeaders

record ReadHeaders =
  rh_CMD :: u64
  rh_Offset :: u64
  rh_Size :: u64
  rh_ID :: u64

definition new_ReadHeaders :: ReadHeaders where
  "new_ReadHeaders = \<lparr>rh_CMD = 0, rh_Offset = 0, rh_Size = 0, rh_ID = 0\<rparr>"

definition ReadHeaders_Encode :: "ReadHeaders \<Rightarrow> byte list list \<times> (go_error + nat)" where
  "ReadHeaders_Encode h =
     ([put_u64 (rh_CMD h) @ put_u64 (rh_Offset h) @ put_u64 (rh_Size h) @ put_u64 (rh_ID h)], Inr 32)"

definition ReadHeaders_Decode :: "ReadHeaders \<Rightarrow> byte list \<Rightarrow> go_error + ReadHeaders" where
  "ReadHeaders_Decode h b =
     (if length b \<noteq> 32 then Inl (Panic '''')
      else Inr (h\<lparr>rh_CMD := be_u64 b, rh_Offset := be_u64 (drop 8 b),
                 rh_Size := be_u64 (drop 16 b), rh_ID := be_u64 (drop 24 b)\<rparr>))"

definition read_impl :: "(header_type, ReadHeaders) headers_impl" where
  "read_impl = \<lparr>hi_type = (\<lambda>h. TReadHeaders), hi_new = (\<lambda>ty. new_ReadHeaders),
     hi_encode = ReadHeaders_Encode, hi_decode = ReadHeaders_Decode\<rparr>"

text \<open>The registry of a process that calls \<open>RegisterHeaders\<close> \<open>n\<close> times with this type.\<close>

definition read_registry :: "nat \<Rightarrow> header_type registry" where
  "read_registry n = ((\<lambda>reg. RegisterHeaders reg TReadHeaders) ^^ n) empty_registry"

lemma read_impl_sel [simp]:
  "hi_type read_impl h = TReadHeaders" "hi_new read_impl ty = new_ReadHeaders"
  "hi_encode read_impl = ReadHeaders_Encode" "hi_decode read_impl = ReadHeaders_Decode"
  by (simp_all add: read_impl_def)

interpretation rh: header_codec read_impl "\<lambda>_. True" 32
proof unfold_locales
  fix h :: ReadHeaders
  show "snd (hi_encode read_impl h) = Inr 32" by (simp add: ReadHeaders_Encode_def)
  show "length (hdr_wire read_impl h) = 32" by (simp add: hdr_wire_def ReadHeaders_Encode_def)
  show "hi_decode read_impl (hi_new read_impl (hi_type read_impl h)) (hdr_wire read_impl h) = Inr h"
    by (simp add: hdr_wire_def ReadHeaders_Encode_def ReadHeaders_Decode_def drop_append)
qed (simp_all add: headerBufferSize_def)

lemma read_registry_wf:
  assumes "n < 2 ^ 32 - 1"
  shows "reg_wf (read_registry n) \<and> length (constructors (read_registry n)) = Suc n
    \<and> (0 < n \<longrightarrow> indexes (read_registry n) TReadHeaders = Some (word_of_nat n))"
  using assms
proof (induction n)
  case 0
  then show ?case by (simp add: read_registry_def) (simp add: empty_registry_def)
next
  case (Suc n)
  then have IH: "reg_wf (read_registry n)" "length (constructors (read_registry n)) = Suc n" by simp_all
  have "read_registry (Suc n) = RegisterHeaders (read_registry n) TReadHeaders"
    by (simp add: read_registry_def)
  then show ?case
    using reg_wf_register [OF IH(1), of TReadHeaders] IH(2) Suc.prems
    by (simp add: RegisterHeaders_def)
qed

text \<open>A process registers the type once: the client or the server of \<open>pkg/net/iorpc\<close>.\<close>

definition std_registry :: "header_type registry" where
  "std_registry = read_registry 1"

lemma std_registry_wf: "reg_wf std_registry" "indexes std_registry TReadHeaders = Some 1"
  using read_registry_wf [of 1] by (simp_all add: std_registry_def)

lemma read_hdr_ok: "rh.hdr_ok std_registry ho"
  using std_registry_wf by (simp add: rh.hdr_ok_def split: option.splits)

lemma length_read_hdr: "length (hdr_bytes std_registry read_impl (Some h)) = 32"
  using rh.length_hdr_bytes [OF std_registry_wf(1) read_hdr_ok, of "Some h"] by simp

section \<open>The client's stream of requests\<close>

text \<open>
  Every request the program's client sends has headers and no body: 60 bytes. \<open>even_heads\<close> is the
  buffer between two of them: a whole number of requests, fewer than would fill it, in an array
  that is either the initial one of 4096 bytes, where neither the start line nor the headers of a
  69th request fit, or large enough for all of it (the run-time's allocator makes no arrays of 4097
  to 4139 bytes).
\<close>

definition even_heads :: "hbuf \<Rightarrow> bool" where
  "even_heads b \<longleftrightarrow> 60 dvd length (hb_data b) \<and> length (hb_data b) < headerBufferSize
     \<and> (hb_cap b = headerBufferSize \<or> headerBufferSize + 44 \<le> hb_cap b)"

definition plain_request :: "ReadHeaders wireRequest \<Rightarrow> bool" where
  "plain_request req \<longleftrightarrow> rq_Headers req \<noteq> None \<and> b_Size (rq_Body req) = 0"

lemma even_heads_len:
  assumes "even_heads b"
  shows "length (hb_data b) \<le> 4080"
proof -
  obtain k where "length (hb_data b) = 60 * k" "60 * k < 4096"
    using assms by (auto simp: even_heads_def headerBufferSize_def)
  then show ?thesis by simp
qed

lemma even_heads_step:
  assumes b: "even_heads b" and rnd: "\<And>n. n \<le> rnd n"
  defines "b1 \<equiv> hb_Write rnd b (replicate startLineSize 0)"
  shows "head_fits rnd b 32" "hb_cap b1 = headerBufferSize \<or> headerBufferSize + 44 \<le> hb_cap b1"
proof -
  let ?n = "length (hb_data b)"
  obtain k where k: "?n = 60 * k" using b by (auto simp: even_heads_def)
  have le: "?n \<le> 4080" by (rule even_heads_len [OF b])
  have cap: "hb_cap b = 4096 \<or> 4140 \<le> hb_cap b" using b by (auto simp: even_heads_def headerBufferSize_def)
  have r: "max (?n + 28) (2 * hb_cap b) \<le> rnd (max (?n + 28) (2 * hb_cap b))" by (rule rnd)
  have fit: "?n + 60 \<le> hb_cap b1 \<and> (hb_cap b1 = 4096 \<or> 4140 \<le> hb_cap b1)"
  proof (cases "?n + 28 \<le> hb_cap b")
    case True
    then have "?n + 60 \<le> hb_cap b" using cap le k by presburger
    then show ?thesis using True cap by (simp add: b1_def hb_Write_def startLineSize_def)
  next
    case False
    then show ?thesis using r cap le by (simp add: b1_def hb_Write_def startLineSize_def)
  qed
  then show "head_fits rnd b 32" "hb_cap b1 = headerBufferSize \<or> headerBufferSize + 44 \<le> hb_cap b1"
    by (simp_all add: head_fits_def b1_def startLineSize_def headerBufferSize_def)
qed

lemma w_write_unlimited:
  "w_room w = None \<Longrightarrow> w_write w p = (w\<lparr>w_out := w_out w @ p\<rparr>, length p, None)"
  by (simp add: w_write_def)

lemma Flush_unlimited:
  assumes "w_room (e_w e) = None" "even_heads (e_buf e)"
  shows "\<exists>e'. Flush e = (None, e') \<and> w_room (e_w e') = None \<and> even_heads (e_buf e')"
  using assms by (auto simp: Flush_def Let_def w_write_unlimited even_heads_def headerBufferSize_def)

lemma plain_request_step:
  assumes room: "w_room (e_w e) = None" and ev: "even_heads (e_buf e)" and rnd: "\<And>n. n \<le> rnd n"
    and req: "plain_request req"
  shows "\<exists>e'. EncodeRequest env rnd std_registry read_impl e req = Some (None, e', rq_Body req)
    \<and> w_room (e_w e') = None \<and> even_heads (e_buf e')
    \<and> pending e' = pending e @ request_wire std_registry read_impl req"
proof -
  let ?R = std_registry
  obtain h where h: "rq_Headers req = Some h" and z: "b_Size (rq_Body req) = 0"
    using req by (auto simp: plain_request_def)
  have fits: "head_fits rnd (e_buf e) (length (hdr_bytes ?R read_impl (rq_Headers req)))"
    using even_heads_step(1) [OF ev rnd] by (simp only: h length_read_hdr)
  let ?b1 = "hb_Write rnd (e_buf e) (replicate startLineSize 0)"
  let ?b = "?b1\<lparr>hb_data := hb_data (e_buf e) @ request_wire ?R read_impl req\<rparr>"
  have w60: "length (request_wire ?R read_impl req) = 60"
    using length_read_hdr by (simp add: request_wire_def startLineSize_def h)
  have fb: "flush_before e (rq_Body req) = (None, e)" by (simp add: flush_before_def z)
  have hd: "encodeRequestHeaders rnd ?R read_impl e req = (None, e\<lparr>e_buf := ?b\<rparr>)"
    using rh.encodeRequestHeaders_ok [OF std_registry_wf(1) read_hdr_ok fits]
    by (simp add: request_wire_def)
  have cap: "hb_cap ?b = headerBufferSize \<or> headerBufferSize + 44 \<le> hb_cap ?b"
    using even_heads_step(2) [OF ev rnd] by simp
  obtain e3 where e3: "flush_full (e\<lparr>e_buf := ?b\<rparr>) = (None, e3)" "w_room (e_w e3) = None"
      "even_heads (e_buf e3)"
  proof (cases "length (hb_data ?b) \<ge> headerBufferSize")
    case True
    then have "flush_full (e\<lparr>e_buf := ?b\<rparr>) = Flush (e\<lparr>e_buf := ?b\<rparr>)"
      by (simp add: flush_full_def)
    moreover have "\<exists>e'. Flush (e\<lparr>e_buf := ?b\<rparr>) = (None, e') \<and> w_room (e_w e') = None
        \<and> even_heads (e_buf e')"
      using room cap w60
      by (auto simp: Flush_def Let_def w_write_unlimited even_heads_def headerBufferSize_def)
    ultimately show ?thesis using that by auto
  next
    case False
    moreover have "60 dvd length (hb_data ?b)"
      using ev w60 by (simp add: even_heads_def)
    ultimately have "even_heads ?b" using cap by (simp add: even_heads_def)
    then show ?thesis using that [of "e\<lparr>e_buf := ?b\<rparr>"] False room by (simp add: flush_full_def)
  qed
  have enc: "EncodeRequest env rnd ?R read_impl e req
      = Some (None, e3\<lparr>e_stat := incWriteCalls (e_stat e3)\<rparr>, rq_Body req)"
    by (simp add: EncodeRequest_def fb hd e3(1) encode_body_def z)
  have "pending (e\<lparr>e_buf := ?b\<rparr>) = pending e @ request_wire ?R read_impl req"
    by (simp add: pending_def)
  then show ?thesis
    using enc e3 flush_full_ok [OF e3(1)] by (auto simp: pending_def)
qed

lemma run_encoder_plain:
  assumes "w_room (e_w e) = None" "even_heads (e_buf e)" "\<And>n. n \<le> rnd n"
    and "list_all plain_request (requests_of ops)"
  shows "\<exists>e'. run_encoder env rnd std_registry read_impl e ops = Some e'
    \<and> w_room (e_w e') = None \<and> even_heads (e_buf e')
    \<and> pending e' = pending e
        @ concat (map (request_wire std_registry read_impl) (requests_of ops))"
  using assms
proof (induction ops arbitrary: e)
  case Nil
  then show ?case by simp
next
  case (Cons op ops)
  show ?case
  proof (cases op)
    case EFlush
    obtain e1 where e1: "Flush e = (None, e1)" "w_room (e_w e1) = None" "even_heads (e_buf e1)"
      using Flush_unlimited Cons.prems by blast
    from Cons.IH [OF e1(2,3) Cons.prems(3)] Cons.prems(4) EFlush obtain e2 where
      "run_encoder env rnd std_registry read_impl e1 ops = Some e2"
      "w_room (e_w e2) = None" "even_heads (e_buf e2)"
      "pending e2 = pending e1
        @ concat (map (request_wire std_registry read_impl) (requests_of ops))" by auto
    with e1(1) EFlush Flush_ok [OF e1(1)] show ?thesis by simp
  next
    case (EReq req)
    have "plain_request req" using Cons.prems(4) EReq by simp
    from plain_request_step [OF Cons.prems(1-3) this, of env] obtain e1 where e1:
      "EncodeRequest env rnd std_registry read_impl e req = Some (None, e1, rq_Body req)"
      "w_room (e_w e1) = None" "even_heads (e_buf e1)"
      "pending e1 = pending e @ request_wire std_registry read_impl req" by blast
    from Cons.IH [OF e1(2,3) Cons.prems(3)] Cons.prems(4) EReq obtain e2 where
      "run_encoder env rnd std_registry read_impl e1 ops = Some e2"
      "w_room (e_w e2) = None" "even_heads (e_buf e2)"
      "pending e2 = pending e1
        @ concat (map (request_wire std_registry read_impl) (requests_of ops))" by auto
    with e1(1,4) EReq show ?thesis by simp
  qed
qed

section \<open>Properties\<close>

text \<open>
  C3. The request path of a connection, end to end: however many requests with read headers and
  no body (what the block client sends) the client encodes, into a header buffer whose capacity is one the
  allocator hands out (at most the 4096 asked for, or at least 4140), whenever its timer flushes in between, and however the network cuts
  the resulting bytes into segments, the encoder never fails, and the server decodes exactly
  those requests, in order, with their service, message id and headers, and leaves the bytes that
  follow untouched.
\<close>

theorem client_requests_roundtrip:
  assumes rnd: "\<And>n. n \<le> rnd n" and cap: "c \<le> 4096 \<or> 4140 \<le> c"
    and plain: "list_all plain_request (requests_of ops)"
    and w: "w_room w = None" "w_out w = []"
  shows "\<exists>e e'. run_encoder env rnd std_registry read_impl (newMessageEncoder c w zero_stats) ops
        = Some e \<and> Flush e = (None, e')
    \<and> (\<forall>segs r. concat segs = w_out (e_w e') @ r \<longrightarrow>
        (\<exists>reqs d'. decode_requests env' std_registry read_impl
            (newMessageDecoder segs conn zero_stats closeBody) (length (requests_of ops)) = Some (Inr reqs, d')
          \<and> map request_view reqs = map request_view (requests_of ops)
          \<and> concat (d_in d') = r))"
proof -
  let ?R = std_registry and ?e = "newMessageEncoder c w zero_stats"
  have "even_heads (e_buf ?e)" "w_room (e_w ?e) = None" "pending ?e = []"
    using cap w by (auto simp: newMessageEncoder_def even_heads_def headerBufferSize_def pending_def)
  from run_encoder_plain [OF this(2,1) rnd plain, of env] this(3) obtain e where e:
    "run_encoder env rnd ?R read_impl ?e ops = Some e" "w_room (e_w e) = None" "even_heads (e_buf e)"
    "pending e = concat (map (request_wire ?R read_impl) (requests_of ops))" by auto
  obtain e' where e': "Flush e = (None, e')" using Flush_unlimited [OF e(2,3)] by blast
  have out: "w_out (e_w e') = concat (map (request_wire ?R read_impl) (requests_of ops))"
    using Flush_ok [OF e'] e(4) by simp
  have all: "\<forall>req \<in> set (requests_of ops). rh.hdr_ok ?R (rq_Headers req) \<and> b_Size (rq_Body req) = 0"
    using plain read_hdr_ok by (auto simp: list_all_iff plain_request_def)
  show ?thesis
  proof (rule exI [of _ e], rule exI [of _ e'], intro conjI allI impI)
    fix segs r assume "concat segs = w_out (e_w e') @ r"
    then have inp: "concat (d_in (newMessageDecoder segs conn zero_stats closeBody))
        = concat (map (request_wire ?R read_impl) (requests_of ops)) @ r"
      by (simp add: newMessageDecoder_def out)
    show "\<exists>reqs d'. decode_requests env' ?R read_impl
            (newMessageDecoder segs conn zero_stats closeBody) (length (requests_of ops)) = Some (Inr reqs, d')
          \<and> map request_view reqs = map request_view (requests_of ops) \<and> concat (d_in d') = r"
      by (rule rh.decode_requests_ok [OF std_registry_wf(1) all _ inp]) (simp add: newMessageDecoder_def)
  qed (rule e(1), rule e')
qed

definition get_request :: "u64 \<Rightarrow> ReadHeaders wireRequest" where
  "get_request i = \<lparr>rq_Service = 1, rq_ID = i,
     rq_Headers = Some \<lparr>rh_CMD = 4, rh_Offset = 0, rh_Size = 0, rh_ID = i\<rparr>, rq_Body = empty_body\<rparr>"

definition open_sock :: writer where
  "open_sock = \<lparr>w_out = [], w_room = None, w_err = EOF, w_isconn = True\<rparr>"

theorem client_requests_roundtrip_witness:
  "\<exists>e e' reqs d'. run_encoder slow_kernel (\<lambda>n. n) std_registry read_impl
        (newMessageEncoder 0 open_sock zero_stats) [EReq (get_request 1), EFlush, EReq (get_request 2)]
        = Some e
    \<and> Flush e = (None, e')
    \<and> decode_requests slow_kernel std_registry read_impl
        (newMessageDecoder [take 7 (w_out (e_w e')), drop 7 (w_out (e_w e'))] True zero_stats False) 2
        = Some (Inr reqs, d')
    \<and> map request_view reqs = map request_view [get_request 1, get_request 2]"
proof -
  let ?ops = "[EReq (get_request 1), EFlush, EReq (get_request 2)]"
  have pl: "list_all plain_request (requests_of ?ops)"
    by (simp add: plain_request_def get_request_def empty_body_def)
  have "\<exists>e e'. run_encoder slow_kernel (\<lambda>n. n) std_registry read_impl
          (newMessageEncoder 0 open_sock zero_stats) ?ops = Some e \<and> Flush e = (None, e')
    \<and> (\<forall>segs r. concat segs = w_out (e_w e') @ r \<longrightarrow>
        (\<exists>reqs d'. decode_requests slow_kernel std_registry read_impl
            (newMessageDecoder segs True zero_stats False) (length (requests_of ?ops)) = Some (Inr reqs, d')
          \<and> map request_view reqs = map request_view (requests_of ?ops) \<and> concat (d_in d') = r))"
    by (rule client_requests_roundtrip) (use pl in \<open>simp_all add: open_sock_def\<close>)
  then obtain e e' where e: "run_encoder slow_kernel (\<lambda>n. n) std_registry read_impl
          (newMessageEncoder 0 open_sock zero_stats) ?ops = Some e" "Flush e = (None, e')"
    and dec: "\<And>segs r. concat segs = w_out (e_w e') @ r \<Longrightarrow>
        (\<exists>reqs d'. decode_requests slow_kernel std_registry read_impl
            (newMessageDecoder segs True zero_stats False) (length (requests_of ?ops)) = Some (Inr reqs, d')
          \<and> map request_view reqs = map request_view (requests_of ?ops) \<and> concat (d_in d') = r)"
    by blast
  have "concat [take 7 (w_out (e_w e')), drop 7 (w_out (e_w e'))] = w_out (e_w e') @ []" by simp
  from dec [OF this] e show ?thesis by (auto simp: numeral_2_eq_2)
qed

text \<open>The message of a response, what the encoder adds to the connection for it, and its decoding.\<close>

definition response_msg :: "ReadHeaders wireResponse \<Rightarrow> byte list" where
  "response_msg resp = put_responseLine (response_line std_registry read_impl resp)
     @ hdr_bytes std_registry read_impl (rp_Headers resp) @ rp_Error resp @ body_bytes (rp_Body resp)"

lemma response_sent:
  assumes enc: "EncodeResponse env rnd std_registry read_impl e resp = Some (None, e', b')"
    and st: "body_steady (rp_Body resp)"
    and fl: "flush_before e (rp_Body resp) = (None, e1)" and fits: "head_fits rnd (e_buf e1) 32"
  shows "pending e' = pending e @ response_msg resp
    \<and> length (body_bytes (rp_Body resp)) = unat (b_Size (rp_Body resp))"
proof -
  let ?R = std_registry
  have "length (hdr_bytes ?R read_impl (rp_Headers resp)) \<le> 32"
    using rh.length_hdr_bytes [OF std_registry_wf(1) read_hdr_ok] by (auto split: option.splits)
  then have f: "head_fits rnd (e_buf e1) (length (hdr_bytes ?R read_impl (rp_Headers resp)))"
    using fits by (simp add: head_fits_def)
  show ?thesis
    using rh.EncodeResponse_pending [OF std_registry_wf(1) read_hdr_ok st f fl enc] by (auto simp: response_msg_def)
qed

lemma response_received:
  assumes seg: "concat segs = response_msg resp @ r"
    and c: "conn \<longrightarrow> pipe_loads env' (body_bytes (rp_Body resp) @ r) (uint (b_Size (rp_Body resp)))"
    and st: "body_steady (rp_Body resp)" and len: "length (body_bytes (rp_Body resp)) = unat (b_Size (rp_Body resp))"
    and err: "rp_Error resp = [] \<or> rp_Headers resp = None" "length (rp_Error resp) < 2 ^ 32"
  shows "\<exists>rd d'. DecodeResponse env' std_registry read_impl
            (newMessageDecoder segs conn zero_stats closeBody) new_response = Some (Inr
              \<lparr>rp_ID = rp_ID resp, rp_Headers = rp_Headers resp,
               rp_Body = empty_body\<lparr>b_Size := b_Size (rp_Body resp), b_Reader := Some rd\<rparr>,
               rp_Error = rp_Error resp\<rparr>, d')
          \<and> r_rest rd = (if closeBody then [] else body_bytes (rp_Body resp)) \<and> r_closes rd = (if closeBody then 1 else 0)
          \<and> concat (d_in d') = r"
proof -
  let ?R = std_registry and ?d = "newMessageDecoder segs conn zero_stats closeBody"
  have small: "uint (b_Size (rp_Body resp)) < 2 ^ 63" using st by (simp add: body_steady_def)
  have inp: "concat (d_in ?d) = put_responseLine (response_line ?R read_impl resp)
      @ hdr_bytes ?R read_impl (rp_Headers resp) @ rp_Error resp @ body_bytes (rp_Body resp) @ r"
    using seg by (simp add: newMessageDecoder_def response_msg_def)
  have ring: "hdr_ring 32 (d_hdr ?d)" by (simp add: newMessageDecoder_def)
  have cc: "pipe_loads env' (body_bytes (rp_Body resp) @ r) (int (length (body_bytes (rp_Body resp))))"
    if "d_isconn ?d" using c that len by (simp add: newMessageDecoder_def)
  show ?thesis
    using rh.DecodeResponse_ok [OF std_registry_wf(1) read_hdr_ok ring small err inp len cc, of new_response]
    by (auto simp: newMessageDecoder_def split: if_splits)
qed

text \<open>
  C4. The response path: a response that the server encodes without an encoder error, with read
  headers or an error text but not both, a head that fits the header buffer, and a body that splicing and
  copying read alike (no connection, and a file positioned at \<open>Offset\<close>), is one
  message on the wire, which the client decodes, from any segmentation (on a connection that it splices, if
  the kernel moves the whole body into the pipe), into the same message id,
  headers and error and a reader that holds exactly the \<open>Size\<close> bytes of the body, whatever
  follows on the stream; if the client asked for bodies to be closed, that reader is closed and empty.
\<close>

theorem response_roundtrip:
  assumes enc: "EncodeResponse env rnd std_registry read_impl e resp = Some (None, e', b')"
    and st: "body_steady (rp_Body resp)"
    and err: "rp_Error resp = [] \<or> rp_Headers resp = None" "length (rp_Error resp) < 2 ^ 32"
    and fl: "flush_before e (rp_Body resp) = (None, e1)" and fits: "head_fits rnd (e_buf e1) 32"
  shows "\<exists>msg. pending e' = pending e @ msg
    \<and> (\<forall>segs r.
        concat segs = msg @ r
        \<and> (conn \<longrightarrow> pipe_loads env' (body_bytes (rp_Body resp) @ r) (uint (b_Size (rp_Body resp)))) \<longrightarrow>
        (\<exists>rd d'. DecodeResponse env' std_registry read_impl
            (newMessageDecoder segs conn zero_stats closeBody) new_response = Some (Inr
              \<lparr>rp_ID = rp_ID resp, rp_Headers = rp_Headers resp,
               rp_Body = empty_body\<lparr>b_Size := b_Size (rp_Body resp), b_Reader := Some rd\<rparr>,
               rp_Error = rp_Error resp\<rparr>, d')
          \<and> r_rest rd = (if closeBody then [] else body_bytes (rp_Body resp)) \<and> r_closes rd = (if closeBody then 1 else 0)
          \<and> concat (d_in d') = r))"
  using response_sent [OF enc st fl fits] response_received [OF _ _ st _ err] by blast

definition read_response :: "ReadHeaders wireResponse" where
  "read_response = \<lparr>rp_ID = 7,
     rp_Headers = Some \<lparr>rh_CMD = 4, rh_Offset = 2, rh_Size = 4, rh_ID = 9\<rparr>,
     rp_Body = \<lparr>b_Offset = 2, b_Size = 4,
       b_Reader = Some \<lparr>r_kind = RFile, r_data = [10, 11, 12, 13, 14, 15, 16], r_pos = 2, r_closes = 0\<rparr>,
       b_NotClose = True\<rparr>, rp_Error = []\<rparr>"

theorem response_roundtrip_witness:
  "\<exists>e' rd d'. EncodeResponse slow_kernel (\<lambda>n. n) std_registry read_impl
      (newMessageEncoder 0 open_sock zero_stats) read_response = Some (None, e', rp_Body read_response)
    \<and> DecodeResponse slow_kernel std_registry read_impl
        (newMessageDecoder [take 40 (w_out (e_w e')), drop 40 (w_out (e_w e'))] False zero_stats False)
        new_response = Some (Inr (read_response\<lparr>rp_Body :=
          empty_body\<lparr>b_Size := 4, b_Reader := Some rd\<rparr>\<rparr>), d')
    \<and> r_rest rd = [12, 13, 14, 15] \<and> r_closes rd = 0"
proof -
  let ?e = "newMessageEncoder 0 open_sock zero_stats" and ?b = "rp_Body read_response"
  have "case EncodeResponse slow_kernel (\<lambda>n. n) std_registry read_impl ?e read_response of
      Some (None, e', b') \<Rightarrow> b' = ?b \<and> hb_data (e_buf e') = [] | _ \<Rightarrow> False" by code_simp
  then obtain e' where enc: "EncodeResponse slow_kernel (\<lambda>n. n) std_registry read_impl ?e read_response
      = Some (None, e', ?b)" and nil: "hb_data (e_buf e') = []"
    by (auto split: option.splits prod.splits)
  have fl: "flush_before ?e ?b = (None, ?e)" by code_simp
  have fits: "head_fits (\<lambda>n. n) (e_buf ?e) 32" by code_simp
  have st: "body_steady ?b" by code_simp
  have bb: "body_bytes ?b = [12, 13, 14, 15]" by code_simp
  obtain msg where msg: "pending e' = pending ?e @ msg" and dec: "\<And>segs r.
        concat segs = msg @ r \<and> (False \<longrightarrow> pipe_loads slow_kernel (body_bytes ?b @ r) (uint (b_Size ?b))) \<Longrightarrow>
        (\<exists>rd d'. DecodeResponse slow_kernel std_registry read_impl
            (newMessageDecoder segs False zero_stats False) new_response = Some (Inr
              \<lparr>rp_ID = rp_ID read_response, rp_Headers = rp_Headers read_response,
               rp_Body = empty_body\<lparr>b_Size := b_Size ?b, b_Reader := Some rd\<rparr>,
               rp_Error = rp_Error read_response\<rparr>, d')
          \<and> r_rest rd = (if False then [] else body_bytes ?b) \<and> r_closes rd = (if False then 1 else 0)
          \<and> concat (d_in d') = r)"
    using response_roundtrip [OF enc st _ _ fl fits, where conn = False and closeBody = False
        and env' = slow_kernel] by (auto simp: read_response_def)
  have "w_out (e_w e') = msg"
    using msg nil by (simp add: pending_def newMessageEncoder_def open_sock_def)
  then have "concat [take 40 (w_out (e_w e')), drop 40 (w_out (e_w e'))] = msg @ []" by simp
  from dec [of "[take 40 (w_out (e_w e')), drop 40 (w_out (e_w e'))]" "[]"] this
  show ?thesis using enc bb by (auto simp: read_response_def)
qed

text \<open>
  C24. A start line can be lost: when the header buffer's array has room for the placeholder of
  the start line but not for the headers behind it, the headers move the buffer to a new array,
  the start line goes to the old one, and the message goes out with 28 zero bytes in its place,
  although the encoder reports no error. (67 requests with headers and one without bring a new
  connection's buffer to that point.)
\<close>

theorem start_line_lost:
  assumes tight: "length (hb_data (e_buf e)) + startLineSize \<le> hb_cap (e_buf e)"
      "hb_cap (e_buf e) < length (hb_data (e_buf e)) + startLineSize + 32"
    and req: "rq_Headers req = Some h" "b_Size (rq_Body req) = 0"
    and room: "w_room (e_w e) = None"
  shows "\<exists>e'. EncodeRequest env rnd std_registry read_impl e req = Some (None, e', rq_Body req)
    \<and> pending e' = pending e @ replicate startLineSize 0 @ hdr_wire read_impl h"
proof -
  let ?D = "hb_data (e_buf e) @ replicate startLineSize 0"
  obtain b where b: "encodeRequestHeaders rnd std_registry read_impl e req = (None, e\<lparr>e_buf := b\<rparr>)"
    and data: "hb_data b = ?D @ hdr_wire read_impl h"
    using tight req(1) std_registry_wf(2)
    by (auto simp: encodeRequestHeaders_def put_headers_def Let_def indexHeaders_def hb_Write_fits
        hdr_wire_def ReadHeaders_Encode_def hb_Write_def hb_patch_def)
  have "\<exists>e3. flush_full (e\<lparr>e_buf := b\<rparr>) = (None, e3)"
    using room by (auto simp: flush_full_def Flush_def Let_def w_write_unlimited)
  then obtain e3 where e3: "flush_full (e\<lparr>e_buf := b\<rparr>) = (None, e3)" by blast
  have "EncodeRequest env rnd std_registry read_impl e req
      = Some (None, e3\<lparr>e_stat := incWriteCalls (e_stat e3)\<rparr>, rq_Body req)"
    by (simp add: EncodeRequest_def flush_before_def req(2) b e3 encode_body_def)
  then show ?thesis
    using flush_full_ok [OF e3] data by (simp add: pending_def)
qed

lemma run_encoder_append:
  "run_encoder env rnd reg impl e (xs @ ys) =
     (case run_encoder env rnd reg impl e xs of
        None \<Rightarrow> None | Some e' \<Rightarrow> run_encoder env rnd reg impl e' ys)"
  by (induction env rnd reg impl e xs rule: run_encoder.induct)
    (auto split: option.splits prod.splits)

text \<open>A new connection's buffer takes 68 requests with headers before it is flushed.\<close>

lemma few_requests:
  assumes req: "plain_request req" and k: "60 * k < headerBufferSize"
  shows "\<exists>e. run_encoder env rnd std_registry read_impl (newMessageEncoder 0 open_sock zero_stats)
        (replicate k (EReq req)) = Some e
    \<and> length (hb_data (e_buf e)) = 60 * k \<and> hb_cap (e_buf e) = headerBufferSize
    \<and> w_room (e_w e) = None \<and> w_out (e_w e) = []"
  using k
proof (induction k)
  case 0
  then show ?case by (simp add: newMessageEncoder_def open_sock_def)
next
  case (Suc k)
  then obtain e where e: "run_encoder env rnd std_registry read_impl
        (newMessageEncoder 0 open_sock zero_stats) (replicate k (EReq req)) = Some e"
      "length (hb_data (e_buf e)) = 60 * k" "hb_cap (e_buf e) = headerBufferSize"
      "w_room (e_w e) = None" "w_out (e_w e) = []" by auto
  obtain h where h: "rq_Headers req = Some h" and z: "b_Size (rq_Body req) = 0"
    using req by (auto simp: plain_request_def)
  have "length (request_wire std_registry read_impl req) = 60"
    using length_read_hdr by (simp add: request_wire_def startLineSize_def h)
  let ?b1 = "(e_buf e)\<lparr>hb_data := hb_data (e_buf e) @ replicate startLineSize 0\<rparr>"
  let ?b = "?b1\<lparr>hb_data := hb_data (e_buf e) @ request_wire std_registry read_impl req\<rparr>"
  have w: "hb_Write rnd (e_buf e) (replicate startLineSize 0) = ?b1"
    using e(2,3) Suc.prems by (intro hb_Write_fits) (simp add: startLineSize_def)
  have fits: "head_fits rnd (e_buf e) (length (hdr_bytes std_registry read_impl (rq_Headers req)))"
    using e(2,3) Suc.prems unfolding h length_read_hdr head_fits_def w by (simp add: startLineSize_def)
  have hd: "encodeRequestHeaders rnd std_registry read_impl e req = (None, e\<lparr>e_buf := ?b\<rparr>)"
    using rh.encodeRequestHeaders_ok [OF std_registry_wf(1) read_hdr_ok fits]
    by (simp add: request_wire_def w)
  have "EncodeRequest env rnd std_registry read_impl e req
      = Some (None, e\<lparr>e_buf := ?b, e_stat := incWriteCalls (e_stat e)\<rparr>, rq_Body req)"
    using e(2,3) Suc.prems \<open>length (request_wire _ _ _) = 60\<close>
    by (simp add: EncodeRequest_def flush_before_def z hd flush_full_def encode_body_def)
  then show ?case
    using e \<open>length (request_wire _ _ _) = 60\<close>
    by (simp add: replicate_append_same [symmetric] run_encoder_append del: replicate.simps
        add: replicate_Suc)
qed

definition noop_request :: "ReadHeaders wireRequest" where
  "noop_request = \<lparr>rq_Service = 0, rq_ID = 99, rq_Headers = None, rq_Body = empty_body\<rparr>"

theorem start_line_lost_witness:
  "\<exists>e e'. run_encoder slow_kernel (\<lambda>n. n) std_registry read_impl (newMessageEncoder 0 open_sock zero_stats)
      (replicate 67 (EReq (get_request 1)) @ [EReq noop_request]) = Some e
    \<and> EncodeRequest slow_kernel (\<lambda>n. n) std_registry read_impl e (get_request 2)
        = Some (None, e', empty_body)
    \<and> take startLineSize (drop 4048 (pending e')) = replicate startLineSize 0"
proof -
  let ?run = "run_encoder slow_kernel (\<lambda>n. n) std_registry read_impl (newMessageEncoder 0 open_sock zero_stats)
      (replicate 67 (EReq (get_request 1)) @ [EReq noop_request])"
  obtain e0 where e0: "run_encoder slow_kernel (\<lambda>n. n) std_registry read_impl
        (newMessageEncoder 0 open_sock zero_stats) (replicate 67 (EReq (get_request 1))) = Some e0"
      "length (hb_data (e_buf e0)) = 60 * 67" "hb_cap (e_buf e0) = 4096"
      "w_room (e_w e0) = None" "w_out (e_w e0) = []"
    using few_requests [of "get_request 1" 67 slow_kernel "\<lambda>n. n"]
    by (auto simp: plain_request_def get_request_def empty_body_def headerBufferSize_def)
  obtain e where e: "EncodeRequest slow_kernel (\<lambda>n. n) std_registry read_impl e0 noop_request
        = Some (None, e, empty_body)" "length (hb_data (e_buf e)) = 4048" "hb_cap (e_buf e) = 4096"
      "w_room (e_w e) = None" "w_out (e_w e) = []"
    using e0(2-5)
    by (auto simp: EncodeRequest_def flush_before_def noop_request_def empty_body_def flush_full_def
        encodeRequestHeaders_def put_headers_def Let_def indexHeaders_def hb_Write_fits startLineSize_def
        hb_patch_def encode_body_def headerBufferSize_def put_requestLine_def)
  have run: "?run = Some e" by (simp only: run_encoder_append e0(1) e(1) run_encoder.simps
      option.case prod.case)
  have r: "rq_Headers (get_request 2) = Some \<lparr>rh_CMD = 4, rh_Offset = 0, rh_Size = 0, rh_ID = 2\<rparr>"
      "rq_Body (get_request 2) = empty_body" "b_Size (rq_Body (get_request 2)) = 0"
    by (simp_all add: get_request_def empty_body_def)
  obtain e' where "EncodeRequest slow_kernel (\<lambda>n. n) std_registry read_impl e (get_request 2)
        = Some (None, e', empty_body)"
    "pending e' = pending e @ replicate startLineSize 0
        @ hdr_wire read_impl \<lparr>rh_CMD = 4, rh_Offset = 0, rh_Size = 0, rh_ID = 2\<rparr>"
    using start_line_lost [OF _ _ r(1,3) e(4), of slow_kernel "\<lambda>n. n"] e(2,3) r(2)
    by (auto simp: startLineSize_def)
  moreover have "length (pending e) = 4048" using e by (simp add: pending_def)
  ultimately show ?thesis using run by auto
qed

text \<open>
  A response with headers and an error text is garbled: the encoder writes the headers before
  the error, the decoder reads the error before the headers. The stream stays in step, but the
  error the client sees is made of header bytes, and the headers are read from the rest.
\<close>

theorem error_and_headers_swapped:
  assumes h: "rp_Headers resp = Some h" and es: "rp_Error resp \<noteq> []" "length (rp_Error resp) < 2 ^ 32"
    and b: "b_Size (rp_Body resp) = 0"
    and seg: "concat segs = put_responseLine (response_line std_registry read_impl resp)
        @ hdr_bytes std_registry read_impl (rp_Headers resp) @ rp_Error resp @ r"
  shows "\<exists>h' rd d'. DecodeResponse env std_registry read_impl
      (newMessageDecoder segs conn zero_stats closeBody) new_response = Some (Inr
        \<lparr>rp_ID = rp_ID resp, rp_Headers = Some h',
         rp_Body = empty_body\<lparr>b_Size := 0, b_Reader := Some rd\<rparr>,
         rp_Error = take (length (rp_Error resp)) (hdr_wire read_impl h @ rp_Error resp)\<rparr>, d')
    \<and> ReadHeaders_Decode new_ReadHeaders
        (drop (length (rp_Error resp)) (hdr_wire read_impl h @ rp_Error resp)) = Inr h'
    \<and> concat (d_in d') = r"
proof -
  let ?l = "response_line std_registry read_impl resp" and ?E = "rp_Error resp"
  let ?M = "hdr_wire read_impl h @ ?E"
  have w32: "length (hdr_wire read_impl h) = 32" by (rule rh.enc_width) simp
  have hb: "hdr_bytes std_registry read_impl (rp_Headers resp) = hdr_wire read_impl h"
    using std_registry_wf(2) h by (simp add: hdr_bytes_def indexHeaders_def)
  have "take (length ?E) ?M @ drop (length ?E) ?M @ r = ?M @ r"
    by (metis append_assoc append_take_drop_id)
  then have seg': "concat segs = put_responseLine ?l @ take (length ?E) ?M @ drop (length ?E) ?M @ r"
    using seg hb by (simp del: take_append drop_append)
  obtain rest where rf: "read_full startLineSize segs = (Inr (put_responseLine ?l), rest)"
      "concat rest = take (length ?E) ?M @ drop (length ?E) ?M @ r"
    using read_full_exact [OF seg' length_responseLine [symmetric]] by blast
  have gl: "get_responseLine (put_responseLine ?l) = ?l"
    using get_put_responseLine [of ?l "[]"] by simp
  have n: "unat (pl_ErrorSize ?l) = length ?E"
    using unat_index [OF es(2)] by (simp add: response_line_def)
  then have nz: "pl_ErrorSize ?l > 0" using es(1) by (auto simp: word_less_nat_alt)
  obtain rest1 where rf1: "read_full (length ?E) rest = (Inr (take (length ?E) ?M), rest1)"
      "concat rest1 = drop (length ?E) ?M @ r"
    using read_full_exact [OF rf(2), of "length ?E"] w32 by (auto simp del: take_append drop_append)
  let ?d1 = "(newMessageDecoder segs conn zero_stats closeBody)\<lparr>d_in := rest,
      d_stat := addHeadRead (word_of_nat startLineSize) zero_stats\<rparr>"
  let ?d2 = "?d1\<lparr>d_in := rest1, d_stat := addHeadRead (ucast (pl_ErrorSize ?l)) (d_stat ?d1)\<rparr>"
  have len: "length (drop (length ?E) ?M) = 32" using w32 by simp
  obtain h' where dec: "ReadHeaders_Decode new_ReadHeaders (drop (length ?E) ?M) = Inr h'"
    using len by (simp add: ReadHeaders_Decode_def)
  obtain d3 where d3: "decode_headers (Wrap ''read response headers'') std_registry read_impl ?d2
        (pl_HeaderType ?l) (pl_HeaderSize ?l) = (Inr (Some h'), d3)" "concat (d_in d3) = r"
    using rh.decode_headers_raw [OF std_registry_wf(1) read_hdr_ok _ _ len, of ?d2 r h h'
        "Wrap ''read response headers''"] dec rf1(2) w32
    by (auto simp: newMessageDecoder_def response_line_def h length_read_hdr)
  have bs: "to_int (pl_BodySize ?l) = 0" using b by (simp add: response_line_def to_int_def)
  have "DecodeResponse env std_registry read_impl (newMessageDecoder segs conn zero_stats closeBody)
      new_response = Some (Inr \<lparr>rp_ID = pl_ID ?l, rp_Headers = Some h',
        rp_Body = empty_body\<lparr>b_Size := pl_BodySize ?l,
          b_Reader := Some (close_if (d_closeBody d3) noopBody)\<rparr>,
        rp_Error = take (length ?E) ?M\<rparr>, d3\<lparr>d_stat := incReadCalls (d_stat d3)\<rparr>)"
    using d3(1) rf1(1) nz n
    by (simp add: DecodeResponse_def newMessageDecoder_def rf(1) gl Let_def decodeBody_def bs)
  with d3(2) dec b show ?thesis
    by (intro exI [of _ h'] exI [of _ "close_if (d_closeBody d3) noopBody"]
        exI [of _ "d3\<lparr>d_stat := incReadCalls (d_stat d3)\<rparr>"]) (simp add: response_line_def)
qed

definition failed_response :: "ReadHeaders wireResponse" where
  "failed_response = \<lparr>rp_ID = 7, rp_Headers = Some \<lparr>rh_CMD = 4, rh_Offset = 0, rh_Size = 0, rh_ID = 9\<rparr>,
     rp_Body = empty_body, rp_Error = [110, 111]\<rparr>"

theorem error_and_headers_swapped_witness:
  "\<exists>h' rd d'. DecodeResponse slow_kernel std_registry read_impl
      (newMessageDecoder [put_responseLine (response_line std_registry read_impl failed_response)
        @ hdr_bytes std_registry read_impl (rp_Headers failed_response) @ rp_Error failed_response]
        True zero_stats False) new_response = Some (Inr
      \<lparr>rp_ID = 7, rp_Headers = Some h', rp_Body = empty_body\<lparr>b_Size := 0, b_Reader := Some rd\<rparr>,
       rp_Error = [0, 0]\<rparr>, d') \<and> rh_ID h' = 0x9 * 0x10000 + 0x6e6f"
proof -
  let ?h = "\<lparr>rh_CMD = 4, rh_Offset = 0, rh_Size = 0, rh_ID = 9\<rparr>"
  have h: "rp_Headers failed_response = Some ?h" and es: "rp_Error failed_response = [110, 111]"
    and b: "b_Size (rp_Body failed_response) = 0" and i: "rp_ID failed_response = 7"
    by (simp_all add: failed_response_def empty_body_def)
  have n: "rp_Error failed_response \<noteq> []" "length (rp_Error failed_response) < 2 ^ 32" by (simp_all add: es)
  have c: "concat [put_responseLine (response_line std_registry read_impl failed_response)
        @ hdr_bytes std_registry read_impl (rp_Headers failed_response) @ rp_Error failed_response]
      = put_responseLine (response_line std_registry read_impl failed_response)
        @ hdr_bytes std_registry read_impl (rp_Headers failed_response) @ rp_Error failed_response @ []"
    by simp
  have t: "take (length (rp_Error failed_response)) (hdr_wire read_impl ?h @ rp_Error failed_response) = [0, 0]"
    by code_simp
  have d: "\<forall>h'. ReadHeaders_Decode new_ReadHeaders
        (drop (length (rp_Error failed_response)) (hdr_wire read_impl ?h @ rp_Error failed_response)) = Inr h'
      \<longrightarrow> rh_ID h' = 0x9 * 0x10000 + 0x6e6f"
  proof -
    have "map_sum id rh_ID (ReadHeaders_Decode new_ReadHeaders
        (drop (length (rp_Error failed_response)) (hdr_wire read_impl ?h @ rp_Error failed_response)))
      = Inr (0x9 * 0x10000 + 0x6e6f)" by code_simp
    then show ?thesis by auto
  qed
  show ?thesis
    using error_and_headers_swapped [OF h n b c, of slow_kernel True False] t d i by auto
qed

text \<open>
  The header type on the wire indexes the decoder's constructor table unchecked: a message
  whose header type the receiving process has not registered (its peer registered one more, or
  is not an honest peer) makes the decoder panic, after reading the start line only.
\<close>

theorem unregistered_header_type_panics:
  assumes seg: "concat segs = put_requestLine l @ r"
    and t: "length (constructors reg) \<le> unat (ql_HeaderType l)"
  shows "\<exists>d' m. DecodeRequest env reg impl (newMessageDecoder segs conn zero_stats closeBody) req
      = Some (Inl (Panic m), d') \<and> concat (d_in d') = r"
proof -
  obtain rest where rf: "read_full startLineSize segs = (Inr (put_requestLine l), rest)" "concat rest = r"
    using read_full_exact [OF seg] by auto
  have "get_requestLine (put_requestLine l) = l"
    using get_put_requestLine [of l "[]"] by simp
  then show ?thesis
    using rf t by (auto simp: DecodeRequest_def newMessageDecoder_def Let_def decode_headers_def newHeaders_def)
qed

definition second_header_line :: requestStartLine where
  "second_header_line = \<lparr>ql_Service = 1, ql_HeaderType = 2, ql_HeaderSize = 32, ql_ID = 1, ql_BodySize = 0\<rparr>"

theorem unregistered_header_type_panics_witness:
  "indexes (read_registry 2) TReadHeaders = Some (ql_HeaderType second_header_line)
   \<and> (\<exists>d' m. DecodeRequest slow_kernel std_registry read_impl
        (newMessageDecoder [put_requestLine second_header_line] True zero_stats False) new_request
      = Some (Inl (Panic m), d'))"
proof -
  have c: "concat [put_requestLine second_header_line] = put_requestLine second_header_line @ []" by simp
  have "length (constructors std_registry) \<le> unat (ql_HeaderType second_header_line)" by code_simp
  from unregistered_header_type_panics [OF c this, of slow_kernel read_impl True False new_request]
  have "\<exists>d' m. DecodeRequest slow_kernel std_registry read_impl
        (newMessageDecoder [put_requestLine second_header_line] True zero_stats False) new_request
      = Some (Inl (Panic m), d')" by blast
  moreover have "indexes (read_registry 2) TReadHeaders = Some (ql_HeaderType second_header_line)"
    using read_registry_wf [of 2] by (simp add: second_header_line_def)
  ultimately show ?thesis by blast
qed

end
