(* ===== verification/Rpc_Client.thy ===== *)
theory Rpc_Client
  imports Read_Headers "HOL-Library.AList" "HOL-Library.Multiset"
begin

text \<open>
  The RPC client of \<open>pkg/iorpc/client.go\<close>: the queue of requests with its overflow rule, the pool
  of \<open>AsyncResult\<close> objects, one writer and one reader goroutine per connection with the table of
  pending requests between them, and the end of a connection.

  An \<open>AsyncResult\<close> is an object that callers, queue, tables and pool share, so the state holds a
  heap of them, addressed by numbers. The channel \<open>done\<close> of a result is absent, open or closed;
  closing an absent or closed channel is a run-time panic. The stretches of the goroutines between two
  accesses to what they share are functions on the state; \<open>client_step\<close> interleaves them in any order. Time (\<open>m.t\<close> and the
  counter \<open>RPCTime\<close>), logging and the texts of errors are left out, and the counters are kept by
  the encoder, the decoder and the client separately (they are sums, see \<open>Conn_Stats\<close>).
\<close>

section \<open>State\<close>

text \<open>The flags of \<open>ClientError\<close>.\<close>

datatype client_error =
    CE_Timeout
  | CE_Connection go_error
  | CE_Server "byte list"
  | CE_Overflow
  | CE_Canceled

datatype done_chan = NoChan | Open | Closed

record 'h AsyncResult =
  ar_Response :: "'h response"
  ar_Error :: "client_error option"
  ar_request :: "'h request"
  ar_done :: done_chan
  ar_canceled :: bool

definition empty_request :: "'h request" where
  "empty_request = \<lparr>req_Service = 0, req_Headers = None, req_Body = empty_body\<rparr>"

definition new_AsyncResult :: "'h AsyncResult" where
  "new_AsyncResult = \<lparr>ar_Response = \<lparr>res_Headers = None, res_Body = empty_body\<rparr>, ar_Error = None,
     ar_request = empty_request, ar_done = NoChan, ar_canceled = False\<rparr>"

text \<open>
  A connection: \<open>cn_w\<close> and \<open>cn_r\<close> are what the writer and the reader have sent on their done
  channels, \<open>cn_stop\<close> whether the connection's stop channel is closed, and \<open>cn_err\<close> the error
  the handler has got. \<open>cn_armed\<close>: the flush timer is set. The table of pending requests has a lock and the
  client's counter is atomic, so a goroutine is between the two for a while: \<open>cn_sending\<close> are the local
  variables of a writer that has entered a call and not yet counted it, \<open>cn_taken\<close> those of a reader that has
  deleted one and not yet discounted it, and \<open>cn_failing\<close> the call that the handler has discounted and not yet
  completed.
\<close>

record 'h conn =
  cn_pending :: "(u64 \<times> nat) list"
  cn_msgID :: u64
  cn_e :: messageEncoder
  cn_armed :: bool
  cn_d :: messageDecoder
  cn_w :: "go_error option option"
  cn_r :: "go_error option option"
  cn_stop :: bool
  cn_err :: "go_error option"
  cn_sending :: "(nat \<times> 'h wireRequest) option"
  cn_taken :: "(nat \<times> 'h wireResponse) option"
  cn_failing :: "nat option"

record 'h client =
  c_PendingRequests :: nat
  c_Conns :: nat
  c_requestsChan :: "nat list"
  c_heap :: "nat \<Rightarrow> 'h AsyncResult"
  c_next :: nat
  c_pool :: "nat list"
  c_flight :: "nat list"
  c_count :: u32
  c_conn :: "nat \<Rightarrow> 'h conn"
  c_stopped :: bool
  c_stat :: conn_stats

section \<open>AsyncResult objects\<close>

definition close_done :: "'h AsyncResult \<Rightarrow> go_error + 'h AsyncResult" where
  "close_done a =
     (case ar_done a of
        NoChan \<Rightarrow> Inl (Panic ''close of nil channel'')
      | Closed \<Rightarrow> Inl (Panic ''close of closed channel'')
      | Open \<Rightarrow> Inr (a\<lparr>ar_done := Closed\<rparr>))"

text \<open>Set the error of a result and close its channel: the way every failing call ends.\<close>

definition finish :: "'h client \<Rightarrow> nat \<Rightarrow> client_error option \<Rightarrow> go_error + 'h client" where
  "finish c m err =
     (case close_done ((c_heap c m)\<lparr>ar_Error := err\<rparr>) of
        Inl e \<Rightarrow> Inl e
      | Inr a \<Rightarrow> Inr (c\<lparr>c_heap := (c_heap c)(m := a)\<rparr>))"

text \<open>\<open>releaseAsyncResult\<close> leaves \<open>canceled\<close> and the headers of the response as they are.\<close>

definition releaseAsyncResult :: "'h client \<Rightarrow> nat \<Rightarrow> 'h client" where
  "releaseAsyncResult c m =
     (let a = c_heap c m in
      c\<lparr>c_heap := (c_heap c)(m := a\<lparr>
          ar_Response := (ar_Response a)\<lparr>res_Body := body_Reset (res_Body (ar_Response a))\<rparr>,
          ar_Error := None,
          ar_request := (ar_request a)\<lparr>req_Service := 0, req_Headers := None,
             req_Body := body_Reset (req_Body (ar_request a))\<rparr>,
          ar_done := NoChan\<rparr>),
        c_pool := m # c_pool c\<rparr>)"

text \<open>
  \<open>sync.Pool\<close> may give any of its objects, or none: \<open>pick\<close> is its choice. Without one a new
  object is made.
\<close>

definition acquireAsyncResult :: "'h client \<Rightarrow> nat option \<Rightarrow> nat \<times> 'h client" where
  "acquireAsyncResult c pick =
     (case pick of
        Some j \<Rightarrow>
          if j < length (c_pool c)
          then (c_pool c ! j, c\<lparr>c_pool := take j (c_pool c) @ drop (Suc j) (c_pool c)\<rparr>)
          else (c_next c, c\<lparr>c_heap := (c_heap c)(c_next c := new_AsyncResult), c_next := Suc (c_next c)\<rparr>)
      | None \<Rightarrow>
          (c_next c, c\<lparr>c_heap := (c_heap c)(c_next c := new_AsyncResult), c_next := Suc (c_next c)\<rparr>))"

definition Cancel :: "'h client \<Rightarrow> nat \<Rightarrow> 'h client" where
  "Cancel c m = c\<lparr>c_heap := (c_heap c)(m := (c_heap c m)\<lparr>ar_canceled := True\<rparr>)\<rparr>"

section \<open>Submitting a request\<close>

text \<open>
  \<open>callAsync\<close> in three parts, because other goroutines run between them: the result is made
  ready, sent on the queue if there is room (\<open>try_push\<close>), and otherwise, after the oldest queued
  request has been taken out and failed (\<open>substitute\<close>), sent again.
\<close>

definition callAsync_init :: "'h client \<Rightarrow> 'h request \<Rightarrow> bool \<Rightarrow> bool \<Rightarrow> nat option \<Rightarrow> nat \<times> 'h client" where
  "callAsync_init c request skipResponse usePool pick =
     (let (m, c1) = acquireAsyncResult c (if usePool \<or> skipResponse then pick else None);
          a = (c_heap c1 m)\<lparr>ar_request := request\<rparr>
      in (m, c1\<lparr>c_heap := (c_heap c1)(m := if skipResponse then a else a\<lparr>ar_done := Open\<rparr>)\<rparr>))"

definition try_push :: "'h client \<Rightarrow> nat \<Rightarrow> 'h client option" where
  "try_push c m =
     (if length (c_requestsChan c) < c_PendingRequests c
      then Some (c\<lparr>c_requestsChan := c_requestsChan c @ [m]\<rparr>) else None)"

definition substitute :: "'h client \<Rightarrow> go_error + 'h client" where
  "substitute c =
     (case c_requestsChan c of
        [] \<Rightarrow> Inr c
      | mm # rest \<Rightarrow>
          (let c1 = c\<lparr>c_requestsChan := rest\<rparr> in
           if ar_done (c_heap c1 mm) \<noteq> NoChan then finish c1 mm (Some CE_Overflow)
           else Inr (releaseAsyncResult c1 mm)))"

definition callAsync :: "'h client \<Rightarrow> 'h request \<Rightarrow> bool \<Rightarrow> bool \<Rightarrow> nat option \<Rightarrow>
    go_error + 'h client \<times> (client_error + nat)" where
  "callAsync c request skipResponse usePool pick =
     (let (m, c1) = callAsync_init c request skipResponse usePool pick in
      case try_push c1 m of
        Some c2 \<Rightarrow> Inr (c2, Inr m)
      | None \<Rightarrow>
          if skipResponse then Inr (releaseAsyncResult c1 m, Inl CE_Overflow)
          else (case substitute c1 of
            Inl e \<Rightarrow> Inl e
          | Inr c2 \<Rightarrow>
              (case try_push c2 m of
                 Some c3 \<Rightarrow> Inr (c3, Inr m)
               | None \<Rightarrow> Inr (releaseAsyncResult c2 m, Inl CE_Overflow))))"

section \<open>The writer\<close>

text \<open>
  The next message id that is not pending, from \<open>i\<close> on. The fuel is the number of tries; one
  more than there are pending requests is enough (\<open>free_id_ok\<close>).
\<close>

fun free_id :: "nat \<Rightarrow> (u64 \<times> nat) list \<Rightarrow> u64 \<Rightarrow> u64 option" where
  "free_id 0 pend i = None"
| "free_id (Suc n) pend i = (if map_of pend i = None then Some i else free_id n pend (i + 1))"

definition set_conn :: "'h client \<Rightarrow> nat \<Rightarrow> 'h conn \<Rightarrow> 'h client" where
  "set_conn c k cn = c\<lparr>c_conn := (c_conn c)(k := cn)\<rparr>"

definition wire_of :: "u64 \<Rightarrow> 'h request \<Rightarrow> 'h wireRequest" where
  "wire_of i r = \<lparr>rq_Service = req_Service r, rq_ID = i, rq_Headers = req_Headers r, rq_Body = req_Body r\<rparr>"

definition writer_encode :: "splice_env \<Rightarrow> (nat \<Rightarrow> nat) \<Rightarrow> 'ty registry \<Rightarrow> ('ty, 'h) headers_impl \<Rightarrow>
    'h client \<Rightarrow> nat \<Rightarrow> 'h wireRequest \<Rightarrow> 'h client option" where
  "writer_encode env rnd reg impl c k wr =
     (let cn = c_conn c k in
      case EncodeRequest env rnd reg impl (cn_e cn) wr of
        None \<Rightarrow> None
      | Some (Some er, e', b) \<Rightarrow>
          Some (set_conn c k (cn\<lparr>cn_e := e', cn_w := Some (Some (Wrap ''Cannot send request to wire'' er))\<rparr>))
      | Some (None, e', b) \<Rightarrow> Some (set_conn c k (cn\<lparr>cn_e := e'\<rparr>)))"

text \<open>
  One message of \<open>clientWriter\<close>'s loop, from the head of the queue to the end of the loop's body, in two parts.
  \<open>writer_take\<close> ends with the unlocking of the table, into which it has entered the call; its result
  has the local variables for \<open>writer_send\<close>, which counts the call and encodes its request. (The request is
  copied with the entry; the code reads it after the count, which is the same as long as nobody completes the
  call before its request is sent.) A result without channel is encoded at once, after it went back to the pool.
\<close>

definition writer_take :: "splice_env \<Rightarrow> (nat \<Rightarrow> nat) \<Rightarrow> 'ty registry \<Rightarrow> ('ty, 'h) headers_impl \<Rightarrow>
    'h client \<Rightarrow> nat \<Rightarrow> (go_error + 'h client \<times> (nat \<times> 'h wireRequest) option) option" where
  "writer_take env rnd reg impl c0 k =
     (case c_requestsChan c0 of
        [] \<Rightarrow> Some (Inr (c0, None))
      | m # rest \<Rightarrow>
          (let c = set_conn (c0\<lparr>c_requestsChan := rest\<rparr>) k ((c_conn c0 k)\<lparr>cn_armed := True\<rparr>);
               a = c_heap c m; cn = c_conn c k in
           if ar_canceled a then
             (if ar_done a \<noteq> NoChan
              then (case finish c m (Some CE_Canceled) of Inl e \<Rightarrow> Some (Inl e) | Inr c' \<Rightarrow> Some (Inr (c', None)))
              else Some (Inr (releaseAsyncResult c m, None)))
           else if ar_done a = NoChan then
             map_option (\<lambda>c'. Inr (c', None)) (writer_encode env rnd reg impl
               (releaseAsyncResult (c\<lparr>c_stat := incRPCCalls (c_stat c)\<rparr>) m) k (wire_of 0 (ar_request a)))
           else
             (let i0 = (if cn_msgID cn + 1 = 0 then 1 else cn_msgID cn + 1); n = length (cn_pending cn) in
              case free_id (Suc n) (cn_pending cn) i0 of
                None \<Rightarrow> None
              | Some i \<Rightarrow>
                  Some (Inr (set_conn c k (cn\<lparr>cn_msgID := i, cn_pending := (i, m) # cn_pending cn\<rparr>),
                    Some (n, wire_of i (ar_request a)))))))"

definition writer_send :: "splice_env \<Rightarrow> (nat \<Rightarrow> nat) \<Rightarrow> 'ty registry \<Rightarrow> ('ty, 'h) headers_impl \<Rightarrow>
    'h client \<Rightarrow> nat \<Rightarrow> nat \<times> 'h wireRequest \<Rightarrow> 'h client option" where
  "writer_send env rnd reg impl c k loc =
     (case loc of (n, wr) \<Rightarrow>
        (let c1 = c\<lparr>c_count := c_count c + 1\<rparr> in
         if n > 10 * c_PendingRequests c
         then Some (set_conn c1 k
           ((c_conn c1 k)\<lparr>cn_w := Some (Some (ErrMsg ''The server didn't return responses yet''))\<rparr>))
         else writer_encode env rnd reg impl c1 k wr))"

text \<open>Both in a row, with no other goroutine in between.\<close>

definition clientWriter_message :: "splice_env \<Rightarrow> (nat \<Rightarrow> nat) \<Rightarrow> 'ty registry \<Rightarrow> ('ty, 'h) headers_impl \<Rightarrow>
    'h client \<Rightarrow> nat \<Rightarrow> (go_error + 'h client) option" where
  "clientWriter_message env rnd reg impl c k =
     (case writer_take env rnd reg impl c k of
        None \<Rightarrow> None
      | Some (Inl e) \<Rightarrow> Some (Inl e)
      | Some (Inr (c1, None)) \<Rightarrow> Some (Inr c1)
      | Some (Inr (c1, Some loc)) \<Rightarrow> map_option Inr (writer_send env rnd reg impl c1 k loc))"

text \<open>The flush timer has fired.\<close>

definition clientWriter_flush :: "'h client \<Rightarrow> nat \<Rightarrow> 'h client" where
  "clientWriter_flush c k =
     (let cn = c_conn c k in
      case Flush (cn_e cn) of
        (Some er, e') \<Rightarrow>
          set_conn c k (cn\<lparr>cn_e := e',
            cn_w := Some (Some (Wrap ''Cannot flush requests to underlying stream'' er))\<rparr>)
      | (None, e') \<Rightarrow> set_conn c k (cn\<lparr>cn_e := e', cn_armed := False\<rparr>))"

section \<open>The reader\<close>

text \<open>
  One round of \<open>clientReader\<close>'s loop. Its message variable is reset after each response, so every
  round decodes into a new one. A panic, of the decoder or of \<open>close\<close>, is recovered and ends the
  reader with an error. \<open>reader_take\<close> decodes a response and deletes its call from the table;
  \<open>reader_finish\<close> discounts the call and completes it.
\<close>

definition reader_fails :: "'h client \<Rightarrow> nat \<Rightarrow> messageDecoder \<Rightarrow> go_error \<Rightarrow> 'h client" where
  "reader_fails c k d er = set_conn c k ((c_conn c k)\<lparr>cn_d := d, cn_r := Some (Some er)\<rparr>)"

definition reader_take :: "splice_env \<Rightarrow> 'ty registry \<Rightarrow> ('ty, 'h) headers_impl \<Rightarrow>
    'h client \<Rightarrow> nat \<Rightarrow> ('h client \<times> (nat \<times> 'h wireResponse) option) option" where
  "reader_take env reg impl c k =
     (let cn = c_conn c k in
      case DecodeResponse env reg impl (cn_d cn) new_response of
        None \<Rightarrow> None
      | Some (Inl er, d) \<Rightarrow> Some (reader_fails c k d (Wrap ''Cannot decode response'' er), None)
      | Some (Inr wr, d) \<Rightarrow>
          (case map_of (cn_pending cn) (rp_ID wr) of
             None \<Rightarrow> Some (reader_fails c k d (ErrMsg ''Unexpected msgID obtained from server''), None)
           | Some m \<Rightarrow>
               Some (set_conn c k (cn\<lparr>cn_d := d, cn_pending := AList.delete (rp_ID wr) (cn_pending cn)\<rparr>), Some (m, wr))))"

definition reader_finish :: "'h client \<Rightarrow> nat \<times> 'h wireResponse \<Rightarrow> go_error + 'h client" where
  "reader_finish c loc =
     (case loc of (m, wr) \<Rightarrow>
        (let a = (c_heap c m)\<lparr>ar_Response := \<lparr>res_Headers = rp_Headers wr, res_Body = rp_Body wr\<rparr>\<rparr>;
             err = (if rp_Error wr \<noteq> [] then Some (CE_Server (rp_Error wr)) else ar_Error a);
             c1 = c\<lparr>c_count := c_count c - 1, c_heap := (c_heap c)(m := a), c_stat := incRPCCalls (c_stat c)\<rparr> in
         finish c1 m err))"

definition clientReader_response :: "splice_env \<Rightarrow> 'ty registry \<Rightarrow> ('ty, 'h) headers_impl \<Rightarrow>
    'h client \<Rightarrow> nat \<Rightarrow> (go_error + 'h client) option" where
  "clientReader_response env reg impl c k =
     (case reader_take env reg impl c k of
        None \<Rightarrow> None
      | Some (c1, None) \<Rightarrow> Some (Inr c1)
      | Some (c1, Some loc) \<Rightarrow> Some (reader_finish c1 loc))"

section \<open>The connection handler\<close>

text \<open>
  \<open>clientHandleConnection\<close>: a new connection, the select on the two done channels and the
  client's stop channel, and, when both goroutines are done, the failing of what is pending.
\<close>

datatype handler_event = WriterDone | ReaderDone | ClientStop

definition new_conn :: "messageEncoder \<Rightarrow> messageDecoder \<Rightarrow> 'h conn" where
  "new_conn e d = \<lparr>cn_pending = [], cn_msgID = 0, cn_e = e, cn_armed = False, cn_d = d,
     cn_w = None, cn_r = None, cn_stop = False, cn_err = None, cn_sending = None, cn_taken = None, cn_failing = None\<rparr>"

definition handler_select :: "'h client \<Rightarrow> nat \<Rightarrow> handler_event \<Rightarrow> 'h client option" where
  "handler_select c k ev =
     (let cn = c_conn c k in
      if cn_stop cn then None
      else case ev of
        WriterDone \<Rightarrow> map_option (\<lambda>err. set_conn c k (cn\<lparr>cn_stop := True, cn_err := err\<rparr>)) (cn_w cn)
      | ReaderDone \<Rightarrow> map_option (\<lambda>err. set_conn c k (cn\<lparr>cn_stop := True, cn_err := err\<rparr>)) (cn_r cn)
      | ClientStop \<Rightarrow>
          if c_stopped c then Some (set_conn c k (cn\<lparr>cn_stop := True, cn_err := None\<rparr>)) else None)"

text \<open>
  The loop over what is pending: a round discounts a call (\<open>drain_count\<close>; the call then counts as visited and
  leaves \<open>cn_pending\<close>, which nobody reads any more) and completes it (\<open>drain_close\<close>). \<open>fail_pending\<close> are all
  rounds, and \<open>handler_drain\<close> is the end of the handler, with no other goroutine in between.
\<close>

definition drain_count :: "'h client \<Rightarrow> nat \<Rightarrow> 'h client option" where
  "drain_count c k =
     (let cn = c_conn c k in
      case cn_pending cn of
        [] \<Rightarrow> None
      | (i, m) # rest \<Rightarrow>
          Some ((set_conn c k (cn\<lparr>cn_pending := rest, cn_failing := Some m\<rparr>))\<lparr>c_count := c_count c - 1\<rparr>))"

definition fail_one :: "'h client \<Rightarrow> client_error option \<Rightarrow> nat \<Rightarrow> go_error + 'h client" where
  "fail_one c err m =
     (if ar_done (c_heap c m) \<noteq> NoChan then finish c m err
      else Inr (c\<lparr>c_heap := (c_heap c)(m := (c_heap c m)\<lparr>ar_Error := err\<rparr>)\<rparr>))"

definition drain_close :: "'h client \<Rightarrow> nat \<Rightarrow> go_error + 'h client" where
  "drain_close c k =
     (let cn = c_conn c k in
      case cn_failing cn of
        None \<Rightarrow> Inr c
      | Some m \<Rightarrow> fail_one (set_conn c k (cn\<lparr>cn_failing := None\<rparr>)) (map_option CE_Connection (cn_err cn)) m)"

fun fail_pending :: "'h client \<Rightarrow> client_error option \<Rightarrow> (u64 \<times> nat) list \<Rightarrow> go_error + 'h client" where
  "fail_pending c err [] = Inr c"
| "fail_pending c err ((i, m) # rest) =
     (case fail_one (c\<lparr>c_count := c_count c - 1\<rparr>) err m of
        Inl e \<Rightarrow> Inl e
      | Inr c1 \<Rightarrow> fail_pending c1 err rest)"

definition handler_drain :: "'h client \<Rightarrow> nat \<Rightarrow> go_error + 'h client" where
  "handler_drain c k =
     (let cn = c_conn c k in
      case fail_pending c (map_option CE_Connection (cn_err cn)) (cn_pending cn) of
        Inl e \<Rightarrow> Inl e
      | Inr c' \<Rightarrow> Inr (set_conn c' k (cn\<lparr>cn_pending := []\<rparr>)))"

section \<open>The steps of a client\<close>

text \<open>
  Everything that runs concurrently: callers in the parts of \<open>callAsync\<close>, cancelling and
  releasing results, the writer, the reader and the handler of each connection. A caller that has
  found the queue full and is about to send again holds its result in \<open>c_flight\<close>. What the
  connection delivers and what the kernel answers is arbitrary.
\<close>

inductive client_step :: "(nat \<Rightarrow> nat) \<Rightarrow> 'ty registry \<Rightarrow> ('ty, 'h) headers_impl \<Rightarrow>
    'h client \<Rightarrow> 'h client \<Rightarrow> bool" for rnd reg impl where
  submit: "callAsync_init c req skip pool pick = (m, c1) \<Longrightarrow> try_push c1 m = Some c2 \<Longrightarrow>
     client_step rnd reg impl c c2"
| skip_full: "callAsync_init c req True pool pick = (m, c1) \<Longrightarrow> try_push c1 m = None \<Longrightarrow>
     client_step rnd reg impl c (releaseAsyncResult c1 m)"
| full: "callAsync_init c req False pool pick = (m, c1) \<Longrightarrow> try_push c1 m = None \<Longrightarrow>
     client_step rnd reg impl c (c1\<lparr>c_flight := m # c_flight c1\<rparr>)"
| subst: "c_flight c \<noteq> [] \<Longrightarrow> substitute c = Inr c' \<Longrightarrow> client_step rnd reg impl c c'"
| retry: "m \<in> set (c_flight c) \<Longrightarrow> try_push (c\<lparr>c_flight := remove1 m (c_flight c)\<rparr>) m = Some c' \<Longrightarrow>
     client_step rnd reg impl c c'"
| retry_full: "m \<in> set (c_flight c) \<Longrightarrow> try_push (c\<lparr>c_flight := remove1 m (c_flight c)\<rparr>) m = None \<Longrightarrow>
     client_step rnd reg impl c (releaseAsyncResult (c\<lparr>c_flight := remove1 m (c_flight c)\<rparr>) m)"
| cancel: "m < c_next c \<Longrightarrow> client_step rnd reg impl c (Cancel c m)"
| release: "m < c_next c \<Longrightarrow> ar_done (c_heap c m) = Closed \<Longrightarrow>
     client_step rnd reg impl c (releaseAsyncResult c m)"
| take: "k < c_Conns c \<Longrightarrow> cn_w (c_conn c k) = None \<Longrightarrow> cn_sending (c_conn c k) = None \<Longrightarrow>
     writer_take env rnd reg impl c k = Some (Inr (c', loc)) \<Longrightarrow>
     client_step rnd reg impl c (set_conn c' k ((c_conn c' k)\<lparr>cn_sending := loc\<rparr>))"
| send: "k < c_Conns c \<Longrightarrow> cn_sending (c_conn c k) = Some loc \<Longrightarrow>
     writer_send env rnd reg impl (set_conn c k ((c_conn c k)\<lparr>cn_sending := None\<rparr>)) k loc = Some c' \<Longrightarrow>
     client_step rnd reg impl c c'"
| flush: "k < c_Conns c \<Longrightarrow> cn_w (c_conn c k) = None \<Longrightarrow> cn_sending (c_conn c k) = None \<Longrightarrow>
     cn_armed (c_conn c k) \<Longrightarrow> client_step rnd reg impl c (clientWriter_flush c k)"
| write_stop: "k < c_Conns c \<Longrightarrow> cn_w (c_conn c k) = None \<Longrightarrow> cn_sending (c_conn c k) = None \<Longrightarrow>
     cn_stop (c_conn c k) \<Longrightarrow> client_step rnd reg impl c (set_conn c k ((c_conn c k)\<lparr>cn_w := Some None\<rparr>))"
| read: "k < c_Conns c \<Longrightarrow> cn_r (c_conn c k) = None \<Longrightarrow> cn_taken (c_conn c k) = None \<Longrightarrow>
     reader_take env reg impl c k = Some (c', loc) \<Longrightarrow>
     client_step rnd reg impl c (set_conn c' k ((c_conn c' k)\<lparr>cn_taken := loc\<rparr>))"
| complete: "k < c_Conns c \<Longrightarrow> cn_taken (c_conn c k) = Some loc \<Longrightarrow>
     reader_finish (set_conn c k ((c_conn c k)\<lparr>cn_taken := None\<rparr>)) loc = Inr c' \<Longrightarrow> client_step rnd reg impl c c'"
| read_closed: "k < c_Conns c \<Longrightarrow> cn_r (c_conn c k) = None \<Longrightarrow> cn_taken (c_conn c k) = None \<Longrightarrow>
     cn_stop (c_conn c k) \<Longrightarrow> client_step rnd reg impl c (reader_fails c k (cn_d (c_conn c k)) er)"
| select: "k < c_Conns c \<Longrightarrow> handler_select c k ev = Some c' \<Longrightarrow> client_step rnd reg impl c c'"
| drain: "k < c_Conns c \<Longrightarrow> cn_stop (c_conn c k) \<Longrightarrow> cn_w (c_conn c k) \<noteq> None \<Longrightarrow>
     cn_r (c_conn c k) \<noteq> None \<Longrightarrow> cn_failing (c_conn c k) = None \<Longrightarrow> drain_count c k = Some c' \<Longrightarrow>
     client_step rnd reg impl c c'"
| fail: "k < c_Conns c \<Longrightarrow> cn_failing (c_conn c k) \<noteq> None \<Longrightarrow> drain_close c k = Inr c' \<Longrightarrow> client_step rnd reg impl c c'"
| connect: "k < c_Conns c \<Longrightarrow> cn_pending (c_conn c k) = [] \<Longrightarrow> cn_failing (c_conn c k) = None \<Longrightarrow> cn_stop (c_conn c k) \<Longrightarrow>
     cn_w (c_conn c k) \<noteq> None \<Longrightarrow> cn_r (c_conn c k) \<noteq> None \<Longrightarrow> \<not> c_stopped c \<Longrightarrow>
     client_step rnd reg impl c (set_conn c k (new_conn e d))"
| stop: "client_step rnd reg impl c (c\<lparr>c_stopped := True\<rparr>)"

definition client_start :: "nat \<Rightarrow> nat \<Rightarrow> (nat \<Rightarrow> 'h conn) \<Rightarrow> 'h client" where
  "client_start pendingRequests conns cs =
     \<lparr>c_PendingRequests = pendingRequests, c_Conns = conns, c_requestsChan = [],
      c_heap = (\<lambda>_. new_AsyncResult), c_next = 0, c_pool = [], c_flight = [], c_count = 0,
      c_conn = cs, c_stopped = False, c_stat = zero_stats\<rparr>"

inductive client_reach :: "(nat \<Rightarrow> nat) \<Rightarrow> 'ty registry \<Rightarrow> ('ty, 'h) headers_impl \<Rightarrow> 'h client \<Rightarrow> bool"
  for rnd reg impl where
  start: "client_reach rnd reg impl (client_start p n (\<lambda>k. new_conn (e k) (d k)))"
| step: "client_reach rnd reg impl c \<Longrightarrow> client_step rnd reg impl c c' \<Longrightarrow> client_reach rnd reg impl c'"

section \<open>Who holds a result\<close>

text \<open>
  \<open>held c m\<close> counts the places that will still act on the result \<open>m\<close>: pool, queue, a caller
  about to send it, the tables of pending requests, a reader or handler that has taken it from there. The
  invariant: at most one place holds a result, and its channel is in the state that place expects.
\<close>

definition owned :: "'h conn \<Rightarrow> nat list" where
  "owned cn = map snd (cn_pending cn)
     @ (case cn_taken cn of None \<Rightarrow> [] | Some (m, wr) \<Rightarrow> [m]) @ (case cn_failing cn of None \<Rightarrow> [] | Some m \<Rightarrow> [m])"

definition pend_count :: "'h client \<Rightarrow> nat \<Rightarrow> nat" where
  "pend_count c m = (\<Sum>k<c_Conns c. count_list (owned (c_conn c k)) m)"

definition held :: "'h client \<Rightarrow> nat \<Rightarrow> nat" where
  "held c m = count_list (c_pool c) m + count_list (c_requestsChan c) m + count_list (c_flight c) m
     + pend_count c m"

definition holder_ok :: "'h client \<Rightarrow> nat \<Rightarrow> bool" where
  "holder_ok c m \<longleftrightarrow> held c m \<le> 1 \<and> (c_next c \<le> m \<longrightarrow> held c m = 0)
     \<and> (m \<in> set (c_pool c) \<longrightarrow> ar_done (c_heap c m) = NoChan)
     \<and> (m \<in> set (c_requestsChan c) \<longrightarrow> ar_done (c_heap c m) \<noteq> Closed)
     \<and> (m \<in> set (c_flight c) \<longrightarrow> ar_done (c_heap c m) = Open)
     \<and> (\<forall>k < c_Conns c. m \<in> set (owned (c_conn c k)) \<longrightarrow> ar_done (c_heap c m) = Open)"

text \<open>A goroutine that has returned is not in the middle of a message.\<close>

definition conn_ok :: "'h conn \<Rightarrow> bool" where
  "conn_ok cn \<longleftrightarrow> distinct (map fst (cn_pending cn)) \<and> (cn_w cn \<noteq> None \<longrightarrow> cn_sending cn = None)
     \<and> (cn_r cn \<noteq> None \<longrightarrow> cn_taken cn = None)"

definition client_inv :: "'h client \<Rightarrow> bool" where
  "client_inv c \<longleftrightarrow> (\<forall>m. holder_ok c m) \<and> (\<forall>k < c_Conns c. conn_ok (c_conn c k))"

text \<open>The counter, with the calls that are entered and not counted, or deleted and not discounted.\<close>

definition uncounted :: "'h conn \<Rightarrow> nat" where
  "uncounted cn = (if cn_sending cn = None then 0 else 1)"

definition entered :: "'h conn \<Rightarrow> nat" where
  "entered cn = length (cn_pending cn) + (if cn_taken cn = None then 0 else 1)"

definition count_inv :: "'h client \<Rightarrow> bool" where
  "count_inv c \<longleftrightarrow> c_count c + word_of_nat (\<Sum>k<c_Conns c. uncounted (c_conn c k))
     = word_of_nat (\<Sum>k<c_Conns c. entered (c_conn c k))"

text \<open>A result that nothing holds: the caller at hand may do with it what it likes.\<close>

definition client_free :: "'h client \<Rightarrow> nat \<Rightarrow> bool" where
  "client_free c m \<longleftrightarrow> client_inv c \<and> held c m = 0 \<and> m < c_next c"

lemma count_list_pos: "x \<in> set xs \<longleftrightarrow> 0 < count_list xs x"
  by (metis count_list_0_iff gr0I less_irrefl)

lemma pend_member:
  "k < c_Conns c \<Longrightarrow> m \<in> set (owned (c_conn c k)) \<Longrightarrow> 0 < pend_count c m"
proof -
  assume k: "k < c_Conns c" and im: "m \<in> set (owned (c_conn c k))"
  have "0 < count_list (owned (c_conn c k)) m" using im by (simp only: count_list_pos)
  also have "\<dots> \<le> pend_count c m"
    using k unfolding pend_count_def by (intro member_le_sum) auto
  finally show ?thesis .
qed

lemma not_held:
  assumes "held c m = 0"
  shows "m \<notin> set (c_pool c)" "m \<notin> set (c_requestsChan c)" "m \<notin> set (c_flight c)"
    "\<And>k. k < c_Conns c \<Longrightarrow> m \<notin> set (owned (c_conn c k))"
proof -
  have z: "count_list (c_pool c) m = 0" "count_list (c_requestsChan c) m = 0"
      "count_list (c_flight c) m = 0" "pend_count c m = 0"
    using assms by (simp_all add: held_def)
  then show "m \<notin> set (c_pool c)" "m \<notin> set (c_requestsChan c)" "m \<notin> set (c_flight c)"
    by (simp_all add: count_list_0_iff)
  show "m \<notin> set (owned (c_conn c k))" if "k < c_Conns c" for k
    using pend_member [OF that, of m] z(4) by auto
qed

lemma freeD:
  assumes "client_free c m"
  shows "m \<notin> set (c_pool c)" "m \<notin> set (c_requestsChan c)" "m \<notin> set (c_flight c)"
    "\<And>k. k < c_Conns c \<Longrightarrow> m \<notin> set (owned (c_conn c k))"
  using assms not_held [of c m] by (simp_all add: client_free_def)

text \<open>Changing a result that nothing holds.\<close>

lemma inv_heap_upd:
  assumes "client_free c m"
  shows "client_free (c\<lparr>c_heap := (c_heap c)(m := a)\<rparr>) m"
proof -
  have "holder_ok (c\<lparr>c_heap := (c_heap c)(m := a)\<rparr>) x" for x
    using assms freeD [OF assms]
    by (cases "x = m") (auto simp: client_free_def client_inv_def holder_ok_def held_def pend_count_def)
  then show ?thesis using assms by (simp add: client_free_def client_inv_def held_def pend_count_def)
qed

lemma inv_release:
  assumes "client_free c m"
  shows "client_inv (releaseAsyncResult c m)"
proof -
  have "holder_ok (releaseAsyncResult c m) x" for x
    using assms freeD [OF assms]
    by (cases "x = m")
      (auto simp: client_free_def client_inv_def holder_ok_def held_def pend_count_def
        releaseAsyncResult_def Let_def)
  then show ?thesis
    using assms by (simp add: client_free_def client_inv_def releaseAsyncResult_def Let_def)
qed

lemma inv_finish:
  assumes "client_free c m" "ar_done (c_heap c m) = Open"
  shows "\<exists>c'. finish c m err = Inr c' \<and> client_free c' m \<and> c_conn c' = c_conn c \<and> c_Conns c' = c_Conns c
    \<and> c_count c' = c_count c"
  using assms inv_heap_upd by (auto simp: finish_def close_done_def)

lemma finish_ok:
  "finish c m err = Inr c' \<Longrightarrow> ar_done (c_heap c m) = Open
     \<and> c' = c\<lparr>c_heap := (c_heap c)(m := (c_heap c m)\<lparr>ar_Error := err, ar_done := Closed\<rparr>)\<rparr>"
  by (auto simp: finish_def close_done_def split: done_chan.splits)

text \<open>Taking a result from the pool, the queue, a caller or a table.\<close>

lemma inv_acquire:
  assumes inv: "client_inv c" and acq: "acquireAsyncResult c pick = (m, c')"
  shows "client_free c' m \<and> ar_done (c_heap c' m) = NoChan"
proof (cases "\<exists>j. pick = Some j \<and> j < length (c_pool c)")
  case True
  then obtain j where j: "pick = Some j" "j < length (c_pool c)" by blast
  have m: "m = c_pool c ! j"
    and c': "c' = c\<lparr>c_pool := take j (c_pool c) @ drop (Suc j) (c_pool c)\<rparr>"
    using acq j by (auto simp: acquireAsyncResult_def)
  have split: "c_pool c = take j (c_pool c) @ m # drop (Suc j) (c_pool c)"
    using j m id_take_nth_drop by blast
  have cnt: "count_list (c_pool c) x = count_list (c_pool c') x + (if x = m then 1 else 0)" for x
    by (subst split) (simp add: c')
  have sub: "set (c_pool c') \<subseteq> set (c_pool c)"
    by (auto simp: c' dest: in_set_takeD in_set_dropD)
  have hc: "held c x = held c' x + (if x = m then 1 else 0)" for x
    using cnt [of x] by (simp add: held_def pend_count_def c')
  have "m \<in> set (c_pool c)" using j m by simp
  then have m1: "ar_done (c_heap c m) = NoChan" "m < c_next c" "held c m \<le> 1"
    using inv hc [of m] by (auto simp: client_inv_def holder_ok_def not_le [symmetric])
  have "holder_ok c' x" for x
  proof -
    have ok: "holder_ok c x" using inv by (simp add: client_inv_def)
    have "held c' x \<le> held c x" using hc [of x] by simp
    then show ?thesis
      using ok sub by (auto simp: holder_ok_def c')
  qed
  then show ?thesis
    using inv m1 hc [of m] by (simp add: client_free_def client_inv_def c')
next
  case False
  then have m: "m = c_next c"
    and c': "c' = c\<lparr>c_heap := (c_heap c)(c_next c := new_AsyncResult), c_next := Suc (c_next c)\<rparr>"
    using acq by (auto simp: acquireAsyncResult_def split: option.splits)
  have h0: "held c m = 0" using inv m by (auto simp: client_inv_def holder_ok_def)
  have hc: "held c' x = held c x" for x by (simp add: held_def pend_count_def c')
  note z = not_held [OF h0]
  have "holder_ok c' x" for x
    using inv z hc [of x] h0 by (cases "x = m") (auto simp: client_inv_def holder_ok_def c' m)
  then show ?thesis
    using inv h0 hc [of m] by (simp add: client_free_def client_inv_def c' m new_AsyncResult_def)
qed

lemma inv_pop:
  assumes inv: "client_inv c" and q: "c_requestsChan c = m # rest"
  shows "client_free (c\<lparr>c_requestsChan := rest\<rparr>) m \<and> ar_done (c_heap c m) \<noteq> Closed"
proof -
  let ?c = "c\<lparr>c_requestsChan := rest\<rparr>"
  have hc: "held c x = held ?c x + (if x = m then 1 else 0)" for x
    by (simp add: held_def pend_count_def q)
  have "holder_ok c m" using inv by (simp add: client_inv_def)
  then have m: "held c m \<le> 1" "m < c_next c" "ar_done (c_heap c m) \<noteq> Closed"
    using hc [of m] q by (auto simp: holder_ok_def not_le [symmetric])
  have "holder_ok ?c x" for x
  proof -
    have ok: "holder_ok c x" using inv by (simp add: client_inv_def)
    have "held ?c x \<le> held c x" using hc [of x] by simp
    then show ?thesis using ok q by (auto simp: holder_ok_def)
  qed
  then show ?thesis using inv m hc [of m] by (simp add: client_free_def client_inv_def)
qed

lemma inv_land:
  assumes inv: "client_inv c" and m: "m \<in> set (c_flight c)"
  shows "client_free (c\<lparr>c_flight := remove1 m (c_flight c)\<rparr>) m \<and> ar_done (c_heap c m) = Open"
proof -
  let ?c = "c\<lparr>c_flight := remove1 m (c_flight c)\<rparr>"
  obtain ys zs where split: "c_flight c = ys @ m # zs" "m \<notin> set ys" using split_list_first [OF m] by blast
  then have r: "remove1 m (c_flight c) = ys @ zs" by (simp add: remove1_append)
  have hc: "held c x = held ?c x + (if x = m then 1 else 0)" for x
    unfolding held_def pend_count_def by (simp add: r) (simp add: split(1))
  have "holder_ok c m" using inv by (simp add: client_inv_def)
  then have m1: "held c m \<le> 1" "m < c_next c" "ar_done (c_heap c m) = Open"
    using hc [of m] m by (auto simp: holder_ok_def not_le [symmetric])
  have sub: "set (remove1 m (c_flight c)) \<subseteq> set (c_flight c)" by (rule set_remove1_subset)
  have "holder_ok ?c x" for x
  proof -
    have ok: "holder_ok c x" using inv by (simp add: client_inv_def)
    have "held ?c x \<le> held c x" using hc [of x] by simp
    then show ?thesis using ok sub by (auto simp: holder_ok_def)
  qed
  then show ?thesis using inv m1 hc [of m] by (simp add: client_free_def client_inv_def)
qed

text \<open>Putting a result that nothing holds somewhere.\<close>

lemma inv_push:
  assumes free: "client_free c m" and d: "ar_done (c_heap c m) \<noteq> Closed" and p: "try_push c m = Some c'"
  shows "client_inv c'"
proof -
  have c': "c' = c\<lparr>c_requestsChan := c_requestsChan c @ [m]\<rparr>"
    using p by (simp add: try_push_def split: if_splits)
  have "holder_ok c' x" for x
    using free freeD [OF free] d
    by (cases "x = m") (auto simp: client_free_def client_inv_def holder_ok_def held_def pend_count_def c')
  then show ?thesis using free by (simp add: client_free_def client_inv_def c')
qed

lemma inv_take_off:
  assumes free: "client_free c m" and d: "ar_done (c_heap c m) = Open"
  shows "client_inv (c\<lparr>c_flight := m # c_flight c\<rparr>)"
proof -
  have "holder_ok (c\<lparr>c_flight := m # c_flight c\<rparr>) x" for x
    using free freeD [OF free] d
    by (cases "x = m") (auto simp: client_free_def client_inv_def holder_ok_def held_def pend_count_def)
  then show ?thesis using free by (simp add: client_free_def client_inv_def)
qed

lemma set_conn_sel [simp]:
  "c_conn (set_conn c k cn) = (c_conn c)(k := cn)" "c_Conns (set_conn c k cn) = c_Conns c"
  "c_heap (set_conn c k cn) = c_heap c" "c_pool (set_conn c k cn) = c_pool c"
  "c_requestsChan (set_conn c k cn) = c_requestsChan c" "c_flight (set_conn c k cn) = c_flight c"
  "c_next (set_conn c k cn) = c_next c" "c_count (set_conn c k cn) = c_count c"
  "c_PendingRequests (set_conn c k cn) = c_PendingRequests c" "c_stopped (set_conn c k cn) = c_stopped c"
  by (simp_all add: set_conn_def)

lemma pend_count_set_conn:
  "k < c_Conns c \<Longrightarrow> pend_count (set_conn c k cn) m + count_list (owned (c_conn c k)) m
     = pend_count c m + count_list (owned cn) m"
  unfolding pend_count_def set_conn_sel
  by (rule sum_fun_upd [of k _ "\<lambda>cn. count_list (owned cn) m"])

lemma held_set_conn:
  "k < c_Conns c \<Longrightarrow> held (set_conn c k cn) m + count_list (owned (c_conn c k)) m
     = held c m + count_list (owned cn) m"
  using pend_count_set_conn [of k c cn m] by (simp add: held_def)

text \<open>The state's counters, statistics and stop flag play no part in the invariant.\<close>

lemma inv_irrelevant [simp]:
  "client_inv (c\<lparr>c_count := n\<rparr>) = client_inv c" "client_inv (c\<lparr>c_stat := s\<rparr>) = client_inv c"
  "client_inv (c\<lparr>c_stopped := b\<rparr>) = client_inv c"
  "client_free (c\<lparr>c_count := n\<rparr>) m = client_free c m" "client_free (c\<lparr>c_stat := s\<rparr>) m = client_free c m"
  by (simp_all add: client_free_def client_inv_def holder_ok_def held_def pend_count_def)

lemma inv_same_owned:
  assumes k: "k < c_Conns c" and p: "owned cn = owned (c_conn c k)" and ok: "conn_ok (c_conn c k) \<Longrightarrow> conn_ok cn"
  shows "client_inv c \<Longrightarrow> client_inv (set_conn c k cn)"
    "client_free c m \<Longrightarrow> client_free (set_conn c k cn) m"
proof -
  have h: "held (set_conn c k cn) x = held c x" for x
    using held_set_conn [OF k, of cn x] p by simp
  show inv: "client_inv (set_conn c k cn)" if "client_inv c"
    using that p h ok k by (auto simp: client_inv_def holder_ok_def)
  show "client_free (set_conn c k cn) m" if "client_free c m"
    using that h p ok k by (auto simp: client_free_def client_inv_def holder_ok_def)
qed

text \<open>A connection gets hold of a result that nothing held, or gives one up.\<close>

lemma inv_own:
  assumes free: "client_free c m" and d: "ar_done (c_heap c m) = Open" and k: "k < c_Conns c"
    and p: "mset (owned cn) = add_mset m (mset (owned (c_conn c k)))" and ok: "conn_ok cn"
  shows "client_inv (set_conn c k cn)"
proof -
  have cl: "count_list (owned cn) x = count_list (owned (c_conn c k)) x + (if x = m then 1 else 0)" for x
    using arg_cong [OF p, of "\<lambda>M. count M x"] by (simp add: count_mset)
  have st: "set (owned cn) = insert m (set (owned (c_conn c k)))"
    using arg_cong [OF p, of set_mset] by simp
  have h: "held (set_conn c k cn) x = held c x + (if x = m then 1 else 0)" for x
    using held_set_conn [OF k, of cn x] cl by auto
  have "holder_ok (set_conn c k cn) x" for x
    using free freeD [OF free] d h [of x] st
    by (cases "x = m") (auto simp: client_free_def client_inv_def holder_ok_def)
  then show ?thesis using free ok by (auto simp: client_free_def client_inv_def)
qed

lemma inv_disown:
  assumes inv: "client_inv c" and k: "k < c_Conns c"
    and p: "mset (owned (c_conn c k)) = add_mset m (mset (owned cn))" and ok: "conn_ok cn"
  shows "client_free (set_conn c k cn) m \<and> ar_done (c_heap c m) = Open"
proof -
  have cl: "count_list (owned (c_conn c k)) x = count_list (owned cn) x + (if x = m then 1 else 0)" for x
    using arg_cong [OF p, of "\<lambda>M. count M x"] by (simp add: count_mset)
  have st: "set (owned (c_conn c k)) = insert m (set (owned cn))"
    using arg_cong [OF p, of set_mset] by simp
  have h: "held c x = held (set_conn c k cn) x + (if x = m then 1 else 0)" for x
    using held_set_conn [OF k, of cn x] cl [of x] by auto
  have "holder_ok c m" using inv by (simp add: client_inv_def)
  then have m: "held c m \<le> 1" "m < c_next c" "ar_done (c_heap c m) = Open"
    using h [of m] st k by (auto simp: holder_ok_def not_le [symmetric])
  have "holder_ok (set_conn c k cn) x" for x
  proof -
    have ok: "holder_ok c x" using inv by (simp add: client_inv_def)
    have "held (set_conn c k cn) x \<le> held c x" using h [of x] by simp
    then show ?thesis using ok st k by (fastforce simp: holder_ok_def)
  qed
  then show ?thesis using inv m h [of m] ok by (auto simp: client_free_def client_inv_def)
qed

text \<open>A result moves within a connection.\<close>

lemma inv_move:
  assumes inv: "client_inv c" and k: "k < c_Conns c"
    and p: "mset (owned cn) = mset (owned (c_conn c k))" and ok: "conn_ok cn"
  shows "client_inv (set_conn c k cn)"
proof -
  have cl: "count_list (owned cn) x = count_list (owned (c_conn c k)) x" for x
    using arg_cong [OF p, of "\<lambda>M. count M x"] by (simp add: count_mset)
  have st: "set (owned cn) = set (owned (c_conn c k))" using p by (metis set_mset_mset)
  have h: "held (set_conn c k cn) x = held c x" for x
    using held_set_conn [OF k, of cn x] cl [of x] by auto
  then show ?thesis using inv ok st k by (auto simp: client_inv_def holder_ok_def)
qed

lemma delete_split:
  assumes "map_of xs i = Some m" "distinct (map fst xs)"
  shows "mset (map snd xs) = add_mset m (mset (map snd (AList.delete i xs)))
    \<and> length xs = Suc (length (AList.delete i xs))"
  using assms
proof (induction xs)
  case (Cons p xs)
  obtain j n where p: "p = (j, n)" by fastforce
  show ?case
  proof (cases "j = i")
    case True
    then have "AList.delete i xs = xs" using Cons.prems(2) p by (auto intro: delete_id)
    then show ?thesis using Cons.prems True p by auto
  next
    case False
    then show ?thesis using Cons p by auto
  qed
qed simp

section \<open>Every operation keeps the invariant\<close>

lemma free_id_fresh: "free_id n pend i = Some i' \<Longrightarrow> map_of pend i' = None"
  by (induction n pend i rule: free_id.induct) (auto split: if_splits)

lemma free_id_none:
  "free_id n pend i = None \<Longrightarrow> j < n \<Longrightarrow> map_of pend (i + word_of_nat j) \<noteq> None"
proof (induction n arbitrary: i j)
  case (Suc n)
  show ?case
  proof (cases j)
    case 0
    then show ?thesis using Suc.prems(1) by (auto split: if_splits)
  next
    case j: (Suc j')
    have "free_id n pend (i + 1) = None" using Suc.prems(1) by (auto split: if_splits)
    from Suc.IH [OF this, of j'] Suc.prems(2) j show ?thesis by (simp add: add.assoc)
  qed
qed simp

lemma free_id_some:
  assumes "length pend < n" "n \<le> 2 ^ 64"
  shows "\<exists>i'. free_id n pend i = Some i' \<and> map_of pend i' = None"
proof (cases "free_id n pend i")
  case None
  let ?f = "\<lambda>j. i + word_of_nat j :: u64"
  have "inj_on ?f {..<n}"
  proof (rule inj_onI)
    fix a b assume ab: "a \<in> {..<n}" "b \<in> {..<n}" "?f a = ?f b"
    then have "unat (word_of_nat a :: u64) = unat (word_of_nat b :: u64)" by simp
    then show "a = b" using ab assms(2) by (simp add: unat_of_nat)
  qed
  moreover have "?f ` {..<n} \<subseteq> fst ` set pend"
    using free_id_none [OF None] by (auto simp: map_of_eq_None_iff)
  ultimately have "n \<le> card (fst ` set pend)"
    using card_mono [of "fst ` set pend" "?f ` {..<n}"] by (simp add: card_image)
  also have "\<dots> \<le> length pend" by (metis card_length length_map list.set_map)
  finally show ?thesis using assms(1) by simp
next
  case (Some i')
  then show ?thesis using free_id_fresh by blast
qed

lemma inv_substitute:
  assumes "client_inv c"
  shows "\<exists>c'. substitute c = Inr c' \<and> client_inv c' \<and> c_conn c' = c_conn c \<and> c_Conns c' = c_Conns c
    \<and> c_count c' = c_count c"
proof (cases "c_requestsChan c")
  case Nil
  then show ?thesis using assms by (simp add: substitute_def)
next
  case (Cons m rest)
  let ?c = "c\<lparr>c_requestsChan := rest\<rparr>"
  have free: "client_free ?c m" and nc: "ar_done (c_heap c m) \<noteq> Closed"
    using inv_pop [OF assms Cons] by auto
  show ?thesis
  proof (cases "ar_done (c_heap c m)")
    case NoChan
    then show ?thesis
      using Cons inv_release [OF free] by (simp add: substitute_def Let_def) (simp add: releaseAsyncResult_def Let_def)
  next
    case Open
    then show ?thesis
      using Cons inv_finish [OF free, of "Some CE_Overflow"]
      by (auto simp: substitute_def Let_def client_free_def)
  qed (use nc in simp)
qed

lemma inv_init:
  assumes inv: "client_inv c" and init: "callAsync_init c req skip pool pick = (m, c')"
  shows "client_free c' m \<and> ar_done (c_heap c' m) = (if skip then NoChan else Open)
    \<and> c_conn c' = c_conn c \<and> c_Conns c' = c_Conns c \<and> c_count c' = c_count c"
proof -
  obtain c1 where acq: "acquireAsyncResult c (if pool \<or> skip then pick else None) = (m, c1)"
    and c': "c' = c1\<lparr>c_heap := (c_heap c1)(m := if skip then (c_heap c1 m)\<lparr>ar_request := req\<rparr>
       else (c_heap c1 m)\<lparr>ar_request := req, ar_done := Open\<rparr>)\<rparr>"
    using init by (auto simp: callAsync_init_def Let_def split: prod.splits)
  have "client_free c1 m" "ar_done (c_heap c1 m) = NoChan" using inv_acquire [OF inv acq] by auto
  moreover have "c_conn c1 = c_conn c" "c_Conns c1 = c_Conns c" "c_count c1 = c_count c"
    using acq by (auto simp: acquireAsyncResult_def split: option.splits if_splits)
  ultimately show ?thesis unfolding c' using inv_heap_upd [of c1 m] by auto
qed

lemma sum_set_conn:
  fixes f :: "'h conn \<Rightarrow> nat"
  shows "k < c_Conns c \<Longrightarrow>
     (\<Sum>j<c_Conns c. f (c_conn (set_conn c k cn) j)) + f (c_conn c k) = (\<Sum>j<c_Conns c. f (c_conn c j)) + f cn"
  using sum_fun_upd [of k "c_Conns c" f "c_conn c" cn] by simp

lemma count_set_conn:
  assumes k: "k < c_Conns c" and inv: "count_inv c"
    and n: "n + word_of_nat (uncounted cn) + word_of_nat (entered (c_conn c k))
      = c_count c + word_of_nat (entered cn) + word_of_nat (uncounted (c_conn c k))"
  shows "count_inv ((set_conn c k cn)\<lparr>c_count := n\<rparr>)"
proof -
  let ?c = "set_conn c k cn"
  define U E where "U = (\<Sum>j<c_Conns c. uncounted (c_conn c j))" and "E = (\<Sum>j<c_Conns c. entered (c_conn c j))"
  define U' E' where "U' = (\<Sum>j<c_Conns c. uncounted (c_conn ?c j))" and "E' = (\<Sum>j<c_Conns c. entered (c_conn ?c j))"
  let ?w = "word_of_nat :: nat \<Rightarrow> u32"
  let ?u = "uncounted (c_conn c k)" and ?e = "entered (c_conn c k)"
  have u: "?w U' + ?w ?u = ?w U + ?w (uncounted cn)"
    unfolding of_nat_add [symmetric] U_def U'_def by (simp only: sum_set_conn [OF k])
  have e: "?w E' + ?w ?e = ?w E + ?w (entered cn)"
    unfolding of_nat_add [symmetric] E_def E'_def by (simp only: sum_set_conn [OF k])
  have "(n + ?w U') + (?w ?u + ?w ?e) = n + (?w U' + ?w ?u) + ?w ?e" by (simp only: ac_simps)
  also have "\<dots> = (n + ?w (uncounted cn) + ?w ?e) + ?w U" unfolding u by (simp only: ac_simps)
  also have "\<dots> = (c_count c + ?w U) + (?w (entered cn) + ?w ?u)" unfolding n by (simp only: ac_simps)
  also have "\<dots> = (?w E + ?w (entered cn)) + ?w ?u" using inv by (simp only: count_inv_def U_def E_def ac_simps)
  also have "\<dots> = ?w E' + (?w ?u + ?w ?e)" unfolding e [symmetric] by (simp only: ac_simps)
  finally have "n + ?w U' = ?w E'" by (simp only: add_right_cancel)
  then show ?thesis by (simp add: count_inv_def U'_def E'_def)
qed

lemma count_same:
  assumes "k < c_Conns c" "count_inv c" "uncounted cn = uncounted (c_conn c k)" "entered cn = entered (c_conn c k)"
  shows "count_inv (set_conn c k cn)"
proof -
  have "count_inv ((set_conn c k cn)\<lparr>c_count := c_count c\<rparr>)"
    by (rule count_set_conn [OF assms(1,2)]) (simp add: assms(3,4))
  then show ?thesis by (simp add: count_inv_def)
qed

lemma inv_set_same:
  assumes "k < c_Conns c" "client_inv c" "count_inv c" "cn_pending cn = cn_pending (c_conn c k)"
    "cn_sending cn = cn_sending (c_conn c k)" "cn_taken cn = cn_taken (c_conn c k)" "cn_failing cn = cn_failing (c_conn c k)"
    "cn_w cn \<noteq> None \<Longrightarrow> cn_w (c_conn c k) = None \<Longrightarrow> cn_sending cn = None"
    "cn_r cn \<noteq> None \<Longrightarrow> cn_r (c_conn c k) = None \<Longrightarrow> cn_taken cn = None"
  shows "client_inv (set_conn c k cn) \<and> count_inv (set_conn c k cn)"
proof -
  have "owned cn = owned (c_conn c k)" "conn_ok (c_conn c k) \<Longrightarrow> conn_ok cn"
    "uncounted cn = uncounted (c_conn c k)" "entered cn = entered (c_conn c k)"
    using assms(4-9) by (auto simp: owned_def conn_ok_def uncounted_def entered_def)
  then show ?thesis using inv_same_owned(1) [OF assms(1)] count_same [OF assms(1,3)] assms(2) by blast
qed

lemma inv_encode:
  assumes k: "k < c_Conns c" and inv: "client_inv c" "count_inv c" and idle: "cn_sending (c_conn c k) = None"
    and enc: "writer_encode env rnd reg impl c k wr = Some c'"
  shows "client_inv c' \<and> count_inv c' \<and> c_Conns c' = c_Conns c \<and> cn_sending (c_conn c' k) = None"
proof -
  obtain cn where c': "c' = set_conn c k cn" and cn: "cn_pending cn = cn_pending (c_conn c k)"
      "cn_sending cn = cn_sending (c_conn c k)" "cn_taken cn = cn_taken (c_conn c k)"
      "cn_failing cn = cn_failing (c_conn c k)" "cn_r cn = cn_r (c_conn c k)"
  proof -
    show thesis using enc that
      by (fastforce simp: writer_encode_def Let_def split: option.splits prod.splits)
  qed
  show ?thesis unfolding c' using inv_set_same [OF k inv cn(1-4)] idle cn by simp
qed

text \<open>The writer takes a message from the queue.\<close>

definition popped :: "'h client \<Rightarrow> nat \<Rightarrow> nat list \<Rightarrow> 'h client" where
  "popped c0 k rest = set_conn (c0\<lparr>c_requestsChan := rest\<rparr>) k ((c_conn c0 k)\<lparr>cn_armed := True\<rparr>)"

lemma popped_sel [simp]:
  "c_Conns (popped c0 k rest) = c_Conns c0" "c_count (popped c0 k rest) = c_count c0"
  "c_heap (popped c0 k rest) = c_heap c0" "c_conn (popped c0 k rest) = (c_conn c0)(k := (c_conn c0 k)\<lparr>cn_armed := True\<rparr>)"
  by (simp_all add: popped_def)

lemma popped_ok:
  assumes inv: "client_inv c0" "count_inv c0" and k: "k < c_Conns c0" and q: "c_requestsChan c0 = m # rest"
  shows "client_free (popped c0 k rest) m" "ar_done (c_heap c0 m) \<noteq> Closed" "count_inv (popped c0 k rest)"
proof -
  let ?c = "c0\<lparr>c_requestsChan := rest\<rparr>" and ?cn = "(c_conn c0 k)\<lparr>cn_armed := True\<rparr>"
  have same: "owned ?cn = owned (c_conn ?c k)" "conn_ok (c_conn ?c k) \<Longrightarrow> conn_ok ?cn"
      "uncounted ?cn = uncounted (c_conn ?c k)" "entered ?cn = entered (c_conn ?c k)"
    by (simp_all add: owned_def conn_ok_def uncounted_def entered_def)
  show "client_free (popped c0 k rest) m" "ar_done (c_heap c0 m) \<noteq> Closed"
    using inv_same_owned(2) [of k ?c ?cn m] inv_pop [OF inv(1) q] k same by (simp_all add: popped_def)
  have "count_inv ?c" using inv(2) by (simp add: count_inv_def)
  then show "count_inv (popped c0 k rest)" using count_same [of k ?c ?cn] k same by (simp add: popped_def)
qed

lemma writer_take_cases:
  assumes "writer_take env rnd reg impl c0 k = Some r"
  obtains (none) "r = Inr (c0, None)"
    | (cancel) m rest where "c_requestsChan c0 = m # rest" "ar_done (c_heap c0 m) \<noteq> NoChan"
        "r = (case finish (popped c0 k rest) m (Some CE_Canceled) of Inl e \<Rightarrow> Inl e | Inr c' \<Rightarrow> Inr (c', None))"
    | (drop) m rest where "c_requestsChan c0 = m # rest" "ar_done (c_heap c0 m) = NoChan"
        "r = Inr (releaseAsyncResult (popped c0 k rest) m, None)"
    | (skip) m rest c' st where "c_requestsChan c0 = m # rest" "ar_done (c_heap c0 m) = NoChan" "r = Inr (c', None)"
        "writer_encode env rnd reg impl (releaseAsyncResult ((popped c0 k rest)\<lparr>c_stat := st\<rparr>) m) k
           (wire_of 0 (ar_request (c_heap c0 m))) = Some c'"
    | (enter) m rest i where "c_requestsChan c0 = m # rest" "ar_done (c_heap c0 m) \<noteq> NoChan"
        "map_of (cn_pending (c_conn c0 k)) i = None"
        "r = Inr (set_conn (popped c0 k rest) k ((c_conn (popped c0 k rest) k)\<lparr>cn_msgID := i,
              cn_pending := (i, m) # cn_pending (c_conn c0 k)\<rparr>),
           Some (length (cn_pending (c_conn c0 k)), wire_of i (ar_request (c_heap c0 m))))"
proof (cases "c_requestsChan c0")
  case Nil
  then show ?thesis using none assms by (auto simp: writer_take_def)
next
  case (Cons m rest)
  let ?a = "c_heap c0 m"
  consider "ar_canceled ?a" "ar_done ?a \<noteq> NoChan" | "ar_canceled ?a" "ar_done ?a = NoChan"
    | "\<not> ar_canceled ?a" "ar_done ?a = NoChan" | "\<not> ar_canceled ?a" "ar_done ?a \<noteq> NoChan" by blast
  then show ?thesis
  proof cases
    case 1
    then show ?thesis using cancel [OF Cons] assms Cons
      by (auto simp: writer_take_def Let_def popped_def split: sum.splits)
  next
    case 2
    then show ?thesis using drop [OF Cons] assms Cons by (auto simp: writer_take_def Let_def popped_def)
  next
    case 3
    then show ?thesis using skip [OF Cons] assms Cons by (auto simp: writer_take_def Let_def popped_def)
  next
    case 4
    then obtain i where i: "free_id (Suc (length (cn_pending (c_conn c0 k)))) (cn_pending (c_conn c0 k))
        (if cn_msgID (c_conn c0 k) + 1 = 0 then 1 else cn_msgID (c_conn c0 k) + 1) = Some i"
      using assms Cons that
      by (cases "cn_msgID (c_conn c0 k) + 1 = 0") (auto simp: writer_take_def Let_def simp del: free_id.simps split: option.splits)
    show ?thesis using enter [OF Cons 4(2) free_id_fresh [OF i]] assms Cons 4 i
      by (cases "cn_msgID (c_conn c0 k) + 1 = 0") (simp_all add: writer_take_def Let_def popped_def del: free_id.simps)
  qed
qed

lemma release_sel [simp]:
  "c_count (releaseAsyncResult c m) = c_count c" "c_conn (releaseAsyncResult c m) = c_conn c"
  "c_Conns (releaseAsyncResult c m) = c_Conns c"
  by (simp_all add: releaseAsyncResult_def Let_def)

lemma count_conn_eq: "c_count c' = c_count c \<Longrightarrow> c_conn c' = c_conn c \<Longrightarrow> c_Conns c' = c_Conns c \<Longrightarrow>
    count_inv c \<Longrightarrow> count_inv c'"
  by (simp add: count_inv_def)

lemma set_conn_twice [simp]: "set_conn (set_conn c k cn) k cn' = set_conn c k cn'"
  by (simp add: set_conn_def)

lemma set_conn_id: "cn = c_conn c k \<Longrightarrow> set_conn c k cn = c"
  by (simp add: set_conn_def)

lemma inv_quiet:
  assumes "client_inv c" "count_inv c" "cn_sending (c_conn c k) = None"
  shows "client_inv (set_conn c k ((c_conn c k)\<lparr>cn_sending := None\<rparr>)) \<and> count_inv (set_conn c k ((c_conn c k)\<lparr>cn_sending := None\<rparr>))"
  using assms set_conn_id [of "(c_conn c k)\<lparr>cn_sending := None\<rparr>" c k] by simp

lemma inv_take:
  assumes inv: "client_inv c0" "count_inv c0" and k: "k < c_Conns c0" and idle: "cn_w (c_conn c0 k) = None" "cn_sending (c_conn c0 k) = None"
    and w: "writer_take env rnd reg impl c0 k = Some (Inr (c', loc))"
  shows "client_inv (set_conn c' k ((c_conn c' k)\<lparr>cn_sending := loc\<rparr>)) \<and> count_inv (set_conn c' k ((c_conn c' k)\<lparr>cn_sending := loc\<rparr>))"
proof -
  note quiet = inv_quiet [where k = k]
  show ?thesis
    using w
  proof (cases rule: writer_take_cases)
    case none
    then show ?thesis using quiet inv idle by simp
  next
    case (cancel m rest)
    have Open: "ar_done (c_heap c0 m) = Open" using popped_ok(2) [OF inv k cancel(1)] cancel(2) by (cases "ar_done (c_heap c0 m)") auto
    obtain c1 where "finish (popped c0 k rest) m (Some CE_Canceled) = Inr c1" "client_free c1 m"
        "c_conn c1 = c_conn (popped c0 k rest)" "c_Conns c1 = c_Conns (popped c0 k rest)" "c_count c1 = c_count (popped c0 k rest)"
      using inv_finish [OF popped_ok(1) [OF inv k cancel(1)]] Open by fastforce
    then show ?thesis
      using cancel(3) quiet [of c1] count_conn_eq [of c1 "popped c0 k rest"] popped_ok(3) [OF inv k cancel(1)] idle
      by (simp add: client_free_def)
  next
    case (drop m rest)
    then show ?thesis
      using quiet [of c'] inv_release [OF popped_ok(1) [OF inv k drop(1)]] idle
        count_conn_eq [of c' "popped c0 k rest"] popped_ok(3) [OF inv k drop(1)] by simp
  next
    case (skip m rest c1 st)
    let ?s = "(popped c0 k rest)\<lparr>c_stat := st\<rparr>"
    have "client_inv (releaseAsyncResult ?s m)" "count_inv (releaseAsyncResult ?s m)"
      using inv_release [of ?s m] popped_ok(1,3) [OF inv k skip(1)] by (simp_all add: count_inv_def)
    then have "client_inv c1 \<and> count_inv c1 \<and> c_Conns c1 = c_Conns (releaseAsyncResult ?s m) \<and> cn_sending (c_conn c1 k) = None"
      using inv_encode [OF _ _ _ _ skip(4)] k idle by simp
    then show ?thesis using skip(3) quiet [of c1] by simp
  next
    case (enter m rest i)
    let ?p = "popped c0 k rest"
    let ?cn = "(c_conn ?p k)\<lparr>cn_msgID := i, cn_pending := (i, m) # cn_pending (c_conn c0 k), cn_sending := loc\<rparr>"
    have Open: "ar_done (c_heap ?p m) = Open"
      using popped_ok(2) [OF inv k enter(1)] enter(2) by (cases "ar_done (c_heap c0 m)") auto
    have c'': "set_conn c' k ((c_conn c' k)\<lparr>cn_sending := loc\<rparr>) = set_conn ?p k ?cn" using enter(4) by simp
    have kp: "k < c_Conns ?p" using k by simp
    have "conn_ok (c_conn c0 k)" using inv(1) k by (simp add: client_inv_def)
    then have "conn_ok ?cn" using enter(3) idle by (auto simp: conn_ok_def map_of_eq_None_iff)
    then have "client_inv (set_conn ?p k ?cn)"
      by (rule inv_own [OF popped_ok(1) [OF inv k enter(1)] Open kp, rotated]) (simp add: owned_def)
    moreover have "count_inv ((set_conn ?p k ?cn)\<lparr>c_count := c_count ?p\<rparr>)"
      using enter(4) idle by (intro count_set_conn [OF kp popped_ok(3) [OF inv k enter(1)]])
        (simp add: uncounted_def entered_def)
    ultimately show ?thesis unfolding c'' by (simp add: count_inv_def)
  qed
qed


lemma inv_send:
  assumes inv: "client_inv c" "count_inv c" and k: "k < c_Conns c" and loc: "cn_sending (c_conn c k) = Some loc"
    and w: "writer_send env rnd reg impl (set_conn c k ((c_conn c k)\<lparr>cn_sending := None\<rparr>)) k loc = Some c'"
  shows "client_inv c' \<and> count_inv c'"
proof -
  let ?cn = "(c_conn c k)\<lparr>cn_sending := None\<rparr>"
  let ?c1 = "(set_conn c k ?cn)\<lparr>c_count := c_count c + 1\<rparr>"
  have "client_inv (set_conn c k ?cn)"
    by (rule inv_same_owned(1) [OF k _ _ inv(1)]) (simp_all add: owned_def conn_ok_def)
  moreover have "count_inv ?c1"
    by (rule count_set_conn [OF k inv(2)]) (simp add: uncounted_def entered_def loc)
  ultimately have c1: "client_inv ?c1" "count_inv ?c1" by simp_all
  have k1: "k < c_Conns ?c1" using k by simp
  obtain n wr where nw: "loc = (n, wr)" by fastforce
  show ?thesis
  proof (cases "n > 10 * c_PendingRequests c")
    case True
    let ?cn2 = "?cn\<lparr>cn_w := Some (Some (ErrMsg ''The server didn't return responses yet''))\<rparr>"
    have "c' = set_conn ?c1 k ?cn2" using w nw True by (simp add: writer_send_def Let_def)
    then show ?thesis using inv_set_same [OF k1 c1, of ?cn2] by simp
  next
    case False
    then have "writer_encode env rnd reg impl ?c1 k wr = Some c'" using w nw by (simp add: writer_send_def Let_def)
    from inv_encode [OF k1 c1 _ this] show ?thesis by simp
  qed
qed

text \<open>The reader takes a call from the table, and completes it.\<close>

lemma reader_take_cases:
  assumes "reader_take env reg impl c k = Some (c', loc)"
  obtains (fails) d er where "c' = reader_fails c k d er" "loc = None"
    | (found) d wr m where "map_of (cn_pending (c_conn c k)) (rp_ID wr) = Some m" "loc = Some (m, wr)"
        "c' = set_conn c k ((c_conn c k)\<lparr>cn_d := d, cn_pending := AList.delete (rp_ID wr) (cn_pending (c_conn c k))\<rparr>)"
  using assms by (auto simp: reader_take_def Let_def split: option.splits prod.splits sum.splits)

lemma inv_read:
  assumes inv: "client_inv c" "count_inv c" and k: "k < c_Conns c" and idle: "cn_r (c_conn c k) = None" "cn_taken (c_conn c k) = None"
    and r: "reader_take env reg impl c k = Some (c', loc)"
  shows "client_inv (set_conn c' k ((c_conn c' k)\<lparr>cn_taken := loc\<rparr>)) \<and> count_inv (set_conn c' k ((c_conn c' k)\<lparr>cn_taken := loc\<rparr>))"
  using r
proof (cases rule: reader_take_cases)
  case (fails d er)
  let ?cn = "(c_conn c k)\<lparr>cn_d := d, cn_r := Some (Some er), cn_taken := None\<rparr>"
  have "set_conn c' k ((c_conn c' k)\<lparr>cn_taken := loc\<rparr>) = set_conn c k ?cn" using fails by (simp add: reader_fails_def)
  then show ?thesis using inv_set_same [OF k inv, of ?cn] idle by simp
next
  case (found d wr m)
  let ?cn = "(c_conn c k)\<lparr>cn_d := d, cn_pending := AList.delete (rp_ID wr) (cn_pending (c_conn c k)), cn_taken := loc\<rparr>"
  have c'': "set_conn c' k ((c_conn c' k)\<lparr>cn_taken := loc\<rparr>) = set_conn c k ?cn" using found(3) by simp
  have ok: "conn_ok (c_conn c k)" using inv(1) k by (simp add: client_inv_def)
  then have del: "mset (map snd (cn_pending (c_conn c k))) = add_mset m (mset (map snd (cn_pending ?cn)))"
      "length (cn_pending (c_conn c k)) = Suc (length (cn_pending ?cn))"
    using delete_split [OF found(1)] by (simp_all add: conn_ok_def)
  have "conn_ok ?cn" using ok idle by (simp add: conn_ok_def distinct_delete)
  then have "client_inv (set_conn c k ?cn)"
    by (rule inv_move [OF inv(1) k, rotated]) (use del(1) found(2) idle in \<open>simp add: owned_def\<close>)
  moreover have "count_inv (set_conn c k ?cn)"
    using del(2) found(2) idle by (intro count_same [OF k inv(2)]) (simp_all add: uncounted_def entered_def)
  ultimately show ?thesis unfolding c'' by blast
qed

lemma inv_complete:
  assumes inv: "client_inv c" "count_inv c" and k: "k < c_Conns c" and loc: "cn_taken (c_conn c k) = Some loc"
  shows "\<exists>c'. reader_finish (set_conn c k ((c_conn c k)\<lparr>cn_taken := None\<rparr>)) loc = Inr c' \<and> client_inv c' \<and> count_inv c'"
proof -
  obtain m wr where l: "loc = (m, wr)" by fastforce
  let ?cn = "(c_conn c k)\<lparr>cn_taken := None\<rparr>" let ?s = "set_conn c k ?cn"
  let ?a = "(c_heap c m)\<lparr>ar_Response := \<lparr>res_Headers = rp_Headers wr, res_Body = rp_Body wr\<rparr>\<rparr>"
  let ?c1 = "?s\<lparr>c_count := c_count c - 1, c_heap := (c_heap c)(m := ?a), c_stat := incRPCCalls (c_stat c)\<rparr>"
  have "conn_ok (c_conn c k)" using inv(1) k by (simp add: client_inv_def)
  then have free: "client_free ?s m" and Open: "ar_done (c_heap c m) = Open"
    using inv_disown [OF inv(1) k, of m ?cn] loc l by (simp_all add: owned_def conn_ok_def)
  have "client_free (?s\<lparr>c_heap := (c_heap ?s)(m := ?a)\<rparr>) m" by (rule inv_heap_upd [OF free])
  then have free1: "client_free ?c1 m"
    by (simp add: client_free_def client_inv_def holder_ok_def held_def pend_count_def)
  have "count_inv (?s\<lparr>c_count := c_count c - 1\<rparr>)"
    by (rule count_set_conn [OF k inv(2)]) (simp add: uncounted_def entered_def loc)
  then have cnt: "count_inv ?c1" by (simp add: count_inv_def)
  have "reader_finish ?s loc = finish ?c1 m (if rp_Error wr \<noteq> [] then Some (CE_Server (rp_Error wr)) else ar_Error ?a)"
    by (simp add: reader_finish_def l Let_def set_conn_def)
  then show ?thesis
    using inv_finish [OF free1] Open cnt by (fastforce simp: client_free_def count_inv_def)
qed

text \<open>The handler's rounds.\<close>

lemma inv_drain_count:
  assumes inv: "client_inv c" "count_inv c" and k: "k < c_Conns c" and f: "cn_failing (c_conn c k) = None"
    and d: "drain_count c k = Some c'"
  shows "client_inv c' \<and> count_inv c'"
proof -
  obtain i m rest where p: "cn_pending (c_conn c k) = (i, m) # rest"
      "c' = (set_conn c k ((c_conn c k)\<lparr>cn_pending := rest, cn_failing := Some m\<rparr>))\<lparr>c_count := c_count c - 1\<rparr>"
    using d by (auto simp: drain_count_def Let_def split: list.splits)
  let ?cn = "(c_conn c k)\<lparr>cn_pending := rest, cn_failing := Some m\<rparr>"
  have "conn_ok (c_conn c k)" using inv(1) k by (simp add: client_inv_def)
  then have "conn_ok ?cn" using p(1) by (simp add: conn_ok_def)
  then have "client_inv (set_conn c k ?cn)"
    by (rule inv_move [OF inv(1) k, rotated]) (use p(1) f in \<open>simp add: owned_def\<close>)
  moreover have "count_inv c'"
    unfolding p(2) by (rule count_set_conn [OF k inv(2)]) (simp add: uncounted_def entered_def p(1))
  ultimately show ?thesis by (simp add: p(2))
qed

lemma inv_drain_close:
  assumes inv: "client_inv c" "count_inv c" and k: "k < c_Conns c"
  shows "\<exists>c'. drain_close c k = Inr c' \<and> client_inv c' \<and> count_inv c'"
proof (cases "cn_failing (c_conn c k)")
  case None
  then show ?thesis using inv by (simp add: drain_close_def Let_def)
next
  case (Some m)
  let ?cn = "(c_conn c k)\<lparr>cn_failing := None\<rparr>" let ?s = "set_conn c k ?cn"
  have "conn_ok (c_conn c k)" using inv(1) k by (simp add: client_inv_def)
  then have free: "client_free ?s m" and Open: "ar_done (c_heap c m) = Open"
    using inv_disown [OF inv(1) k, of m ?cn] Some by (simp_all add: owned_def conn_ok_def)
  have "count_inv ?s" by (rule count_same [OF k inv(2)]) (simp_all add: uncounted_def entered_def)
  then show ?thesis
    using inv_finish [OF free, of "map_option CE_Connection (cn_err (c_conn c k))"] Open Some
    by (fastforce simp: drain_close_def fail_one_def Let_def client_free_def count_inv_def)
qed

text \<open>Failing the pending results, all of them open and none of them twice, never panics.\<close>

definition fail_heap :: "(nat \<Rightarrow> 'h AsyncResult) \<Rightarrow> client_error option \<Rightarrow> nat set \<Rightarrow> nat \<Rightarrow> 'h AsyncResult" where
  "fail_heap h err M m = (if m \<in> M then (h m)\<lparr>ar_Error := err, ar_done := Closed\<rparr> else h m)"

lemma fail_pending_eq:
  assumes "list_all (\<lambda>m. ar_done (c_heap c m) = Open) (map snd ps)" "distinct (map snd ps)"
  shows "fail_pending c err ps = Inr (c\<lparr>c_count := c_count c - word_of_nat (length ps),
    c_heap := fail_heap (c_heap c) err (snd ` set ps)\<rparr>)"
  using assms
proof (induction ps arbitrary: c)
  case Nil
  have "fail_heap (c_heap c) err {} = c_heap c" by (simp add: fail_heap_def fun_eq_iff)
  then show ?case by simp
next
  case (Cons p ps)
  obtain i m where p: "p = (i, m)" by fastforce
  let ?a = "(c_heap c m)\<lparr>ar_Error := err, ar_done := Closed\<rparr>"
  let ?c2 = "c\<lparr>c_count := c_count c - 1, c_heap := (c_heap c)(m := ?a)\<rparr>"
  have m: "ar_done (c_heap c m) = Open" "m \<notin> snd ` set ps" using Cons.prems p by auto
  have eq: "fail_pending c err (p # ps) = fail_pending ?c2 err ps"
    using m(1) p by (simp add: fail_one_def finish_def close_done_def)
  have "list_all (\<lambda>m. ar_done (c_heap ?c2 m) = Open) (map snd ps)"
    using Cons.prems m(2) p by (auto simp: list_all_iff)
  from Cons.IH [OF this] Cons.prems(2)
  have "fail_pending c err (p # ps) = Inr (?c2\<lparr>c_count := c_count ?c2 - word_of_nat (length ps),
      c_heap := fail_heap (c_heap ?c2) err (snd ` set ps)\<rparr>)"
    unfolding eq by (simp del: fun_upd_apply)
  moreover have "fail_heap (c_heap ?c2) err (snd ` set ps) = fail_heap (c_heap c) err (snd ` set (p # ps))"
    using m(2) p by (auto simp: fail_heap_def fun_eq_iff)
  ultimately show ?case by (simp add: algebra_simps)
qed

lemma count_list_distinct: "(\<And>x. count_list xs x \<le> 1) \<Longrightarrow> distinct xs"
proof (induction xs)
  case (Cons a xs)
  have "count_list xs a = 0" using Cons.prems [of a] by simp
  moreover have "count_list xs x \<le> 1" for x using Cons.prems [of x] by (auto split: if_splits)
  ultimately show ?case using Cons.IH by (simp add: count_list_0_iff)
qed simp

lemma pending_open:
  assumes inv: "client_inv c" and k: "k < c_Conns c"
  shows "list_all (\<lambda>m. ar_done (c_heap c m) = Open) (map snd (cn_pending (c_conn c k)))"
    "distinct (map snd (cn_pending (c_conn c k)))"
proof -
  let ?cn = "c_conn c k"
  have ok: "holder_ok c m" for m using inv by (simp add: client_inv_def)
  show "list_all (\<lambda>m. ar_done (c_heap c m) = Open) (map snd (cn_pending ?cn))"
    using ok k by (auto simp: list_all_iff holder_ok_def owned_def)
  have "count_list (owned ?cn) m \<le> 1" for m
  proof -
    have "count_list (owned ?cn) m \<le> pend_count c m" using k unfolding pend_count_def by (intro member_le_sum) auto
    also have "\<dots> \<le> held c m" by (simp add: held_def)
    finally show ?thesis using ok [of m] by (simp add: holder_ok_def)
  qed
  then have "distinct (owned ?cn)" by (rule count_list_distinct)
  then show "distinct (map snd (cn_pending ?cn))" by (simp add: owned_def)
qed

lemma handler_drain_ok:
  assumes inv: "client_inv c" and k: "k < c_Conns c"
  shows "\<exists>c'. handler_drain c k = Inr c'
    \<and> (\<forall>m \<in> snd ` set (cn_pending (c_conn c k)).
         ar_Error (c_heap c' m) = map_option CE_Connection (cn_err (c_conn c k))
       \<and> ar_done (c_heap c' m) = Closed \<and> ar_Response (c_heap c' m) = ar_Response (c_heap c m))
    \<and> cn_pending (c_conn c' k) = []"
  using fail_pending_eq [OF pending_open [OF inv k], of "map_option CE_Connection (cn_err (c_conn c k))"]
  by (auto simp: handler_drain_def Let_def fail_heap_def)

lemma inv_flush:
  assumes "client_inv c" "count_inv c" "k < c_Conns c" "cn_sending (c_conn c k) = None"
  shows "client_inv (clientWriter_flush c k) \<and> count_inv (clientWriter_flush c k)"
  using assms by (auto simp: clientWriter_flush_def Let_def split: prod.splits option.splits
      intro!: inv_set_same [THEN conjunct1] inv_set_same [THEN conjunct2])

lemma inv_select:
  assumes "client_inv c" "count_inv c" "k < c_Conns c" "handler_select c k ev = Some c'"
  shows "client_inv c' \<and> count_inv c'"
  using assms by (auto simp: handler_select_def Let_def split: handler_event.splits if_splits option.splits
      intro!: inv_set_same [THEN conjunct1] inv_set_same [THEN conjunct2])

lemma inv_cancel:
  assumes "client_inv c" "count_inv c"
  shows "client_inv (Cancel c m) \<and> count_inv (Cancel c m)"
  using assms by (auto simp: client_inv_def holder_ok_def held_def pend_count_def count_inv_def Cancel_def)

lemma try_push_sel:
  "try_push c m = Some c' \<Longrightarrow> c_count c' = c_count c \<and> c_conn c' = c_conn c \<and> c_Conns c' = c_Conns c"
  by (auto simp: try_push_def split: if_splits)

lemma client_step_inv:
  "client_step rnd reg impl c c' \<Longrightarrow> client_inv c \<Longrightarrow> count_inv c \<Longrightarrow> client_inv c' \<and> count_inv c'"
proof (induction rule: client_step.induct)
  case (submit c req skip pool pick m c1 c2)
  note i = inv_init [OF submit(3,1)]
  then have "ar_done (c_heap c1 m) \<noteq> Closed" by auto
  then show ?case
    using inv_push [OF _ _ submit(2)] i try_push_sel [OF submit(2)] count_conn_eq [OF _ _ _ submit(4)] by auto
next
  case (skip_full c req pool pick m c1)
  note i = inv_init [OF skip_full(3,1)]
  then show ?case
    using inv_release [of c1 m] count_conn_eq [OF _ _ _ skip_full(4), of "releaseAsyncResult c1 m"] by simp
next
  case (full c req pool pick m c1)
  note i = inv_init [OF full(3,1)]
  then show ?case
    using inv_take_off [of c1 m] count_conn_eq [OF _ _ _ full(4), of "c1\<lparr>c_flight := m # c_flight c1\<rparr>"]
    by simp
next
  case (subst c c')
  then show ?case using inv_substitute [OF subst(3)] count_conn_eq [OF _ _ _ subst(4)] by auto
next
  case (retry m c c')
  from inv_land [OF retry(3,1)] show ?case
    using inv_push [OF _ _ retry(2)] try_push_sel [OF retry(2)] count_conn_eq [OF _ _ _ retry(4)] by auto
next
  case (retry_full m c)
  from inv_land [OF retry_full(3,1)] show ?case
    using inv_release [of "c\<lparr>c_flight := remove1 m (c_flight c)\<rparr>" m] retry_full(4)
      count_conn_eq [of "releaseAsyncResult (c\<lparr>c_flight := remove1 m (c_flight c)\<rparr>) m" c] by simp
next
  case (cancel m c)
  then show ?case using inv_cancel by blast
next
  case (release m c)
  have "holder_ok c m" using release by (simp add: client_inv_def)
  then have "m \<notin> set (c_pool c)" "m \<notin> set (c_requestsChan c)" "m \<notin> set (c_flight c)"
      "\<forall>k < c_Conns c. m \<notin> set (owned (c_conn c k))"
    using release(2) by (auto simp: holder_ok_def)
  moreover from this(4) have "pend_count c m = 0"
    by (auto simp: pend_count_def count_list_0_iff)
  ultimately have "client_free c m"
    using release by (simp add: client_free_def held_def count_list_0_iff)
  then show ?case
    using inv_release [of c m] count_conn_eq [OF _ _ _ release(4), of "releaseAsyncResult c m"] by simp
next
  case (take k c env c' loc)
  then show ?case using inv_take [OF take(5,6,1-4)] by simp
next
  case (send k c loc env c')
  then show ?case using inv_send [OF send(4,5,1-3)] by simp
next
  case (flush k c)
  then show ?case using inv_flush by blast
next
  case (write_stop k c)
  then show ?case by (intro inv_set_same) simp_all
next
  case (read k c env c' loc)
  then show ?case using inv_read [OF read(5,6,1-4)] by simp
next
  case (complete k c loc c')
  then show ?case using inv_complete [OF complete(4,5,1,2)] by auto
next
  case (read_closed k c er)
  then show ?case unfolding reader_fails_def by (intro inv_set_same) simp_all
next
  case (select k c ev c')
  then show ?case using inv_select by blast
next
  case (drain k c c')
  then show ?case using inv_drain_count [OF drain(7,8,1,5,6)] by simp
next
  case (fail k c c')
  then show ?case using inv_drain_close [OF fail(4,5,1)] by auto
next
  case (connect k c e d)
  have "conn_ok (c_conn c k)" using connect(1,8) by (simp add: client_inv_def)
  then show ?case using connect by (intro inv_set_same) (simp_all add: new_conn_def conn_ok_def)
next
  case (stop c)
  then show ?case by (simp add: count_inv_def)
qed

lemma client_reach_inv:
  "client_reach rnd reg impl c \<Longrightarrow> client_inv c \<and> count_inv c"
proof (induction rule: client_reach.induct)
  case (start p n e d)
  then show ?case
    by (simp add: client_inv_def holder_ok_def held_def pend_count_def count_inv_def client_start_def new_conn_def
        owned_def conn_ok_def uncounted_def entered_def)
next
  case (step c c')
  then show ?case using client_step_inv by blast
qed

lemma client_reach_steps:
  "(client_step rnd reg impl)\<^sup>*\<^sup>* c c' \<Longrightarrow> client_reach rnd reg impl c \<Longrightarrow> client_reach rnd reg impl c'"
  by (induction rule: rtranclp_induct) (auto intro: client_reach.step)

lemma free_id_near:
  "free_id n pend i = Some i' \<Longrightarrow> \<exists>j < n. i' = i + word_of_nat j"
proof (induction n pend i rule: free_id.induct)
  case (2 n pend i)
  show ?case
  proof (cases "map_of pend i = None")
    case True
    then show ?thesis using 2(2) by (intro exI [of _ 0]) simp
  next
    case False
    then obtain j where "j < n" "i' = (i + 1) + word_of_nat j" using 2 by auto
    then show ?thesis by (intro exI [of _ "Suc j"]) (simp add: add.assoc)
  qed
qed simp


section \<open>The goroutines' rounds are steps\<close>

text \<open>A message of the writer, a response of the reader and the end of the handler are runs of their parts.\<close>

lemma message_steps:
  assumes k: "k < c_Conns c" and idle: "cn_w (c_conn c k) = None" "cn_sending (c_conn c k) = None"
    and w: "clientWriter_message env rnd reg impl c k = Some (Inr c')" and keep: "\<And>c1 loc. writer_take env rnd reg impl c k = Some (Inr (c1, loc)) \<Longrightarrow>
      k < c_Conns c1 \<and> cn_sending (c_conn c1 k) = None"
  shows "(client_step rnd reg impl)\<^sup>*\<^sup>* c c'"
proof -
  obtain c1 loc where t: "writer_take env rnd reg impl c k = Some (Inr (c1, loc))"
    using w by (auto simp: clientWriter_message_def split: option.splits sum.splits prod.splits)
  note k1 = keep [OF t]
  let ?c1 = "set_conn c1 k ((c_conn c1 k)\<lparr>cn_sending := loc\<rparr>)"
  have bk: "set_conn ?c1 k ((c_conn ?c1 k)\<lparr>cn_sending := None\<rparr>) = c1" using k1 by (simp add: set_conn_id)
  have 1: "client_step rnd reg impl c ?c1" by (rule client_step.take [OF k idle t])
  show ?thesis
  proof (cases loc)
    case None
    then have "c' = ?c1" using w t k1 by (simp add: clientWriter_message_def set_conn_id)
    then show ?thesis using 1 by auto
  next
    case (Some l)
    then have "writer_send env rnd reg impl (set_conn ?c1 k ((c_conn ?c1 k)\<lparr>cn_sending := None\<rparr>)) k l = Some c'"
      using w t unfolding bk by (simp add: clientWriter_message_def)
    then have "client_step rnd reg impl ?c1 c'"
      by (intro client_step.send [where k = k and loc = l and env = env]) (use k1 Some in simp_all)
    then show ?thesis using 1 by auto
  qed
qed

lemma writer_take_keeps:
  assumes w: "writer_take env rnd reg impl c k = Some (Inr (c1, loc))"
  shows "c_Conns c1 = c_Conns c \<and> cn_sending (c_conn c1 k) = cn_sending (c_conn c k)"
  using w
proof (cases rule: writer_take_cases)
  case (skip m rest c' st)
  then show ?thesis by (auto simp: writer_encode_def Let_def split: option.splits prod.splits)
qed (auto simp: finish_def split: sum.splits)

lemma response_steps:
  assumes k: "k < c_Conns c" and idle: "cn_r (c_conn c k) = None" "cn_taken (c_conn c k) = None"
    and r: "clientReader_response env reg impl c k = Some (Inr c')"
  shows "(client_step rnd reg impl)\<^sup>*\<^sup>* c c'"
proof -
  obtain c1 loc where t: "reader_take env reg impl c k = Some (c1, loc)"
    using r by (auto simp: clientReader_response_def split: option.splits)
  have k1: "k < c_Conns c1 \<and> cn_taken (c_conn c1 k) = None"
    using t k idle by (cases rule: reader_take_cases) (simp_all add: reader_fails_def)
  let ?c1 = "set_conn c1 k ((c_conn c1 k)\<lparr>cn_taken := loc\<rparr>)"
  have bk: "set_conn ?c1 k ((c_conn ?c1 k)\<lparr>cn_taken := None\<rparr>) = c1" using k1 by (simp add: set_conn_id)
  have 1: "client_step rnd reg impl c ?c1" by (rule client_step.read [OF k idle t])
  show ?thesis
  proof (cases loc)
    case None
    then have "c' = ?c1" using r t k1 by (simp add: clientReader_response_def set_conn_id)
    then show ?thesis using 1 by auto
  next
    case (Some l)
    then have "reader_finish (set_conn ?c1 k ((c_conn ?c1 k)\<lparr>cn_taken := None\<rparr>)) l = Inr c'"
      using r t unfolding bk by (simp add: clientReader_response_def)
    then have "client_step rnd reg impl ?c1 c'"
      by (intro client_step.complete [where k = k and loc = l]) (use k1 Some in simp_all)
    then show ?thesis using 1 by auto
  qed
qed

lemma fail_pending_set_conn:
  "fail_pending (set_conn c k cn) err ps
     = (case fail_pending c err ps of Inl e \<Rightarrow> Inl e | Inr c' \<Rightarrow> Inr (set_conn c' k cn))"
proof (induction ps arbitrary: c)
  case (Cons p ps)
  obtain i m where p: "p = (i, m)" by fastforce
  have "fail_one ((set_conn c k cn)\<lparr>c_count := n\<rparr>) err m
      = (case fail_one (c\<lparr>c_count := n\<rparr>) err m of Inl e \<Rightarrow> Inl e | Inr c' \<Rightarrow> Inr (set_conn c' k cn))" for n
    by (simp add: fail_one_def finish_def set_conn_def split: sum.splits)
  then show ?case using Cons.IH by (simp add: p split: sum.splits)
qed simp

lemma drain_steps:
  assumes "client_inv c" "count_inv c" "k < c_Conns c" "cn_stop (c_conn c k)" "cn_w (c_conn c k) \<noteq> None"
    "cn_r (c_conn c k) \<noteq> None" "cn_failing (c_conn c k) = None" "handler_drain c k = Inr c'"
  shows "(client_step rnd reg impl)\<^sup>*\<^sup>* c c'"
  using assms
proof (induction "cn_pending (c_conn c k)" arbitrary: c)
  case Nil
  then have "c' = c" by (simp add: handler_drain_def Let_def set_conn_id)
  then show ?case by simp
next
  case (Cons p rest)
  let ?cn = "c_conn c k"
  obtain i m where p: "cn_pending ?cn = (i, m) # rest" using Cons.hyps(2) by (metis surj_pair)
  define c1 where "c1 = (set_conn c k (?cn\<lparr>cn_pending := rest, cn_failing := Some m\<rparr>))\<lparr>c_count := c_count c - 1\<rparr>"
  have d: "drain_count c k = Some c1" by (simp add: drain_count_def p c1_def)
  have s1: "client_step rnd reg impl c c1" using Cons.prems by (intro client_step.drain [OF _ _ _ _ _ d])
  have inv1: "client_inv c1" "count_inv c1" using client_step_inv [OF s1] Cons.prems by simp_all
  have k1: "k < c_Conns c1" using Cons.prems(3) by (simp add: c1_def)
  obtain c2 where c2: "drain_close c1 k = Inr c2" using inv_drain_close [OF inv1 k1] by blast
  have s2: "client_step rnd reg impl c1 c2"
    using k1 c2 by (intro client_step.fail) (simp_all add: c1_def)
  have inv2: "client_inv c2" "count_inv c2" using client_step_inv [OF s2] inv1 by simp_all
  have Open: "ar_done (c_heap c m) = Open" using pending_open(1) [OF Cons.prems(1,3)] p by simp
  let ?err = "map_option CE_Connection (cn_err ?cn)"
  let ?h = "(c_heap c)(m := (c_heap c m)\<lparr>ar_Error := ?err, ar_done := Closed\<rparr>)"
  have c2': "c2 = set_conn (c\<lparr>c_count := c_count c - 1, c_heap := ?h\<rparr>) k (?cn\<lparr>cn_pending := rest, cn_failing := None\<rparr>)"
    using c2 Open
    by (auto simp: drain_close_def c1_def fail_one_def finish_def close_done_def set_conn_def intro!: client.equality)
  have nf: "?cn\<lparr>cn_failing := None, cn_pending := []\<rparr> = ?cn\<lparr>cn_pending := []\<rparr>"
    using Cons.prems(7) by (cases ?cn) simp
  have "handler_drain c2 k = handler_drain c k"
    using Open
    by (simp add: handler_drain_def Let_def c2' p fail_pending_set_conn fail_one_def finish_def close_done_def split: sum.splits)
      (simp add: set_conn_def nf)
  then have "(client_step rnd reg impl)\<^sup>*\<^sup>* c2 c'"
    using Cons.prems by (intro Cons.hyps(1) inv2) (simp_all add: c2')
  then show ?case using s1 s2 by (meson converse_rtranclp_into_rtranclp)
qed

lemmas writer_defs = clientWriter_message_def writer_take_def writer_send_def
lemmas reader_defs = clientReader_response_def reader_take_def reader_finish_def

section \<open>Batches\<close>

text \<open>
  \<open>callAsyncRetry\<close>: \<open>retriesCount + 1\<close> attempts with a sleep between two of them, during which
  the other goroutines turn the client into \<open>others c\<close>.
\<close>

fun retry_loop :: "nat \<Rightarrow> ('h client \<Rightarrow> 'h client) \<Rightarrow> 'h client \<Rightarrow> 'h request \<Rightarrow> bool \<Rightarrow> nat option \<Rightarrow>
    go_error + 'h client \<times> (client_error + nat)" where
  "retry_loop 0 others c request skip pick = Inr (c, Inl CE_Overflow)"
| "retry_loop (Suc n) others c request skip pick =
     (case callAsync c request skip False pick of
        Inl e \<Rightarrow> Inl e
      | Inr (c', Inr m) \<Rightarrow> Inr (c', Inr m)
      | Inr (c', Inl e) \<Rightarrow>
          if e \<noteq> CE_Overflow \<or> n = 0 then Inr (c', Inl e)
          else retry_loop n others (others c') request skip pick)"

definition callAsyncRetry :: "('h client \<Rightarrow> 'h client) \<Rightarrow> 'h client \<Rightarrow> 'h request \<Rightarrow> bool \<Rightarrow> nat \<Rightarrow>
    nat option \<Rightarrow> go_error + 'h client \<times> (client_error + nat)" where
  "callAsyncRetry others c request skip retriesCount pick =
     retry_loop (retriesCount + 1) others c request skip pick"

record 'h BatchResult =
  br_Response :: "'h response"
  br_Error :: "client_error option"
  br_request :: "'h request"
  br_done :: done_chan

definition batch_add :: "'h BatchResult list \<Rightarrow> 'h request \<Rightarrow> bool \<Rightarrow> 'h BatchResult list" where
  "batch_add ops request skipResponse =
     ops @ [\<lparr>br_Response = \<lparr>res_Headers = None, res_Body = empty_body\<rparr>, br_Error = None,
       br_request = request, br_done = (if skipResponse then NoChan else Open)\<rparr>]"

text \<open>The first loop of \<open>Batch.CallTimeout\<close>: submit every operation, or return the first error.\<close>

fun batch_submit :: "('h client \<Rightarrow> 'h client) \<Rightarrow> 'h client \<Rightarrow> 'h BatchResult list \<Rightarrow>
    go_error + 'h client \<times> (client_error + nat list)" where
  "batch_submit others c [] = Inr (c, Inr [])"
| "batch_submit others c (op # ops) =
     (case callAsyncRetry others c (br_request op) (br_done op = NoChan) 5 None of
        Inl e \<Rightarrow> Inl e
      | Inr (c1, Inl e) \<Rightarrow> Inr (c1, Inl e)
      | Inr (c1, Inr m) \<Rightarrow>
          (case batch_submit others c1 ops of
             Inl e \<Rightarrow> Inl e
           | Inr (c2, Inl e) \<Rightarrow> Inr (c2, Inl e)
           | Inr (c2, Inr ms) \<Rightarrow> Inr (c2, Inr (m # ms))))"

text \<open>
  The second loop: wait for the results in order. \<open>timeouts\<close> says of each select whether the timer
  won; \<open>c\<close> is the client when the result is read.
\<close>

definition br_close :: "'h BatchResult \<Rightarrow> go_error + 'h BatchResult" where
  "br_close op =
     (case br_done op of
        NoChan \<Rightarrow> Inl (Panic ''close of nil channel'')
      | Closed \<Rightarrow> Inl (Panic ''close of closed channel'')
      | Open \<Rightarrow> Inr (op\<lparr>br_done := Closed\<rparr>))"

fun batch_give_up :: "'h client \<Rightarrow> ('h BatchResult \<times> nat) list \<Rightarrow> go_error + 'h client \<times> 'h BatchResult list" where
  "batch_give_up c [] = Inr (c, [])"
| "batch_give_up c ((op, m) # rest) =
     (let c1 = Cancel c m; op1 = op\<lparr>br_Error := Some CE_Timeout\<rparr> in
      case (if br_done op1 \<noteq> NoChan then br_close op1 else Inr op1) of
        Inl e \<Rightarrow> Inl e
      | Inr op2 \<Rightarrow>
          (case batch_give_up c1 rest of
             Inl e \<Rightarrow> Inl e
           | Inr (c2, ops) \<Rightarrow> Inr (c2, op2 # ops)))"

fun batch_wait :: "'h client \<Rightarrow> ('h BatchResult \<times> nat) list \<Rightarrow> bool list \<Rightarrow>
    go_error + 'h client \<times> 'h BatchResult list \<times> client_error option" where
  "batch_wait c [] ts = Inr (c, [], None)"
| "batch_wait c ((op, m) # rest) ts =
     (if br_done op = NoChan then
        (case batch_wait c rest ts of
           Inl e \<Rightarrow> Inl e
         | Inr (c', ops, err) \<Rightarrow> Inr (c', op # ops, err))
      else if ts \<noteq> [] \<and> hd ts then
        (case batch_give_up c ((op, m) # rest) of
           Inl e \<Rightarrow> Inl e
         | Inr (c', ops) \<Rightarrow> Inr (c', ops, Some CE_Timeout))
      else
        (case br_close (op\<lparr>br_Response := ar_Response (c_heap c m), br_Error := ar_Error (c_heap c m)\<rparr>) of
           Inl e \<Rightarrow> Inl e
         | Inr op1 \<Rightarrow>
             (case batch_wait c rest (tl ts) of
                Inl e \<Rightarrow> Inl e
              | Inr (c', ops, err) \<Rightarrow> Inr (c', op1 # ops, err))))"

text \<open>\<open>Batch.CallTimeout\<close>, with \<open>waiting\<close> what happens to the client while it waits.\<close>

definition batch_CallTimeout :: "('h client \<Rightarrow> 'h client) \<Rightarrow> ('h client \<Rightarrow> 'h client) \<Rightarrow> 'h client \<Rightarrow>
    'h BatchResult list \<Rightarrow> bool list \<Rightarrow> go_error + 'h client \<times> 'h BatchResult list \<times> client_error option" where
  "batch_CallTimeout others waiting c ops ts =
     (case batch_submit others c ops of
        Inl e \<Rightarrow> Inl e
      | Inr (c1, Inl e) \<Rightarrow> Inr (c1, ops, Some e)
      | Inr (c1, Inr ms) \<Rightarrow> batch_wait (waiting c1) (zip ops ms) ts)"

definition op_closed :: "'h BatchResult \<Rightarrow> bool" where
  "op_closed op \<longleftrightarrow> br_done op \<noteq> Open"

definition op_fresh :: "'h BatchResult \<Rightarrow> bool" where
  "op_fresh op \<longleftrightarrow> br_done op \<noteq> Closed"

lemma batch_give_up_ok:
  "\<forall>(op, m) \<in> set xs. op_fresh op \<Longrightarrow>
     \<exists>c' ops. batch_give_up c xs = Inr (c', ops) \<and> list_all op_closed ops \<and> length ops = length xs"
proof (induction xs arbitrary: c)
  case (Cons x xs)
  obtain op m where x: "x = (op, m)" by fastforce
  obtain c' ops where "batch_give_up (Cancel c m) xs = Inr (c', ops)" "list_all op_closed ops"
      "length ops = length xs" using Cons by fastforce
  moreover have "op_fresh op" using Cons.prems x by simp
  ultimately show ?case
    unfolding x by (cases "br_done op") (auto simp: Let_def br_close_def op_fresh_def op_closed_def [abs_def])
qed simp

lemma batch_wait_ok:
  "\<forall>(op, m) \<in> set xs. op_fresh op \<Longrightarrow>
     \<exists>c' ops err. batch_wait c xs ts = Inr (c', ops, err) \<and> list_all op_closed ops \<and> length ops = length xs"
proof (induction xs arbitrary: ts)
  case (Cons x xs)
  obtain op m where x: "x = (op, m)" by fastforce
  have fresh: "\<forall>(op, m) \<in> set xs. op_fresh op" "op_fresh op" using Cons.prems x by auto
  obtain c1 ops1 err1 where 1: "batch_wait c xs ts = Inr (c1, ops1, err1)" "list_all op_closed ops1"
      "length ops1 = length xs" using Cons.IH [OF fresh(1), of ts] by blast
  obtain c2 ops2 err2 where 2: "batch_wait c xs (tl ts) = Inr (c2, ops2, err2)" "list_all op_closed ops2"
      "length ops2 = length xs" using Cons.IH [OF fresh(1), of "tl ts"] by blast
  obtain c3 ops3 where 3: "batch_give_up c ((op, m) # xs) = Inr (c3, ops3)" "list_all op_closed ops3"
      "length ops3 = length ((op, m) # xs)"
    using batch_give_up_ok [of "(op, m) # xs" c] Cons.prems x by blast
  show ?case
    unfolding x using 1 2 3 fresh(2)
    by (cases "br_done op") (auto simp: br_close_def op_fresh_def op_closed_def [abs_def] simp del: batch_give_up.simps)
qed simp

section \<open>Properties\<close>

definition get_call :: "ReadHeaders request" where
  "get_call = \<lparr>req_Service = 1, req_Headers = Some \<lparr>rh_CMD = 4, rh_Offset = 0, rh_Size = 0, rh_ID = 1\<rparr>,
     req_Body = empty_body\<rparr>"

text \<open>A client with one connection, on which a server's answer to message 1 is on its way.\<close>

definition no_answer :: "ReadHeaders wireResponse" where
  "no_answer = \<lparr>rp_ID = 1, rp_Headers = None, rp_Body = empty_body, rp_Error = [110, 111]\<rparr>"

definition demo_conn :: "ReadHeaders conn" where
  "demo_conn = new_conn (newMessageEncoder 0 open_sock zero_stats)
     (newMessageDecoder [put_responseLine (response_line std_registry read_impl no_answer) @ [110, 111]]
        False zero_stats False)"

definition demo_client :: "ReadHeaders client" where
  "demo_client = client_start 1 1 (\<lambda>_. demo_conn)"

definition demo_called :: "ReadHeaders client" where
  "demo_called = demo_client\<lparr>c_heap := (c_heap demo_client)(0 := new_AsyncResult\<lparr>ar_request := get_call,
     ar_done := Open\<rparr>), c_next := 1, c_requestsChan := [0]\<rparr>"

abbreviation demo_writer :: "ReadHeaders client \<Rightarrow> (go_error + ReadHeaders client) option" where
  "demo_writer c \<equiv> clientWriter_message slow_kernel (\<lambda>n. n) std_registry read_impl c 0"

lemma demo_called_reach: "client_reach (\<lambda>n. n) std_registry read_impl demo_called"
proof -
  have "client_reach (\<lambda>n. n) std_registry read_impl demo_client"
    unfolding demo_client_def demo_conn_def by (rule client_reach.start)
  moreover have "client_step (\<lambda>n. n) std_registry read_impl demo_client demo_called"
  proof (rule client_step.submit [where req = get_call and skip = False and pool = False and pick = None])
    show "callAsync_init demo_client get_call False False None = (0, demo_called\<lparr>c_requestsChan := []\<rparr>)"
      by (simp add: callAsync_init_def acquireAsyncResult_def demo_called_def demo_client_def
          client_start_def Let_def)
    show "try_push (demo_called\<lparr>c_requestsChan := []\<rparr>) 0 = Some demo_called"
      by (simp add: try_push_def demo_called_def demo_client_def client_start_def)
  qed
  ultimately show ?thesis by (rule client_reach.step)
qed

lemma demo_sent:
  obtains c where "demo_writer demo_called = Some (Inr c)" "client_reach (\<lambda>n. n) std_registry read_impl c"
    "cn_pending (c_conn c 0) = [(1, 0)]" "cn_d (c_conn c 0) = cn_d demo_conn" "c_Conns c = 1"
    "ar_Error (c_heap c 0) = None" "cn_stop (c_conn c 0) = False"
    "cn_sending (c_conn c 0) = None" "cn_taken (c_conn c 0) = None"
proof -
  have "case demo_writer demo_called of Some (Inr c) \<Rightarrow>
        cn_pending (c_conn c 0) = [(1, 0)] \<and> cn_d (c_conn c 0) = cn_d demo_conn \<and> c_Conns c = 1
        \<and> ar_Error (c_heap c 0) = None \<and> cn_stop (c_conn c 0) = False
        \<and> cn_sending (c_conn c 0) = None \<and> cn_taken (c_conn c 0) = None
      | _ \<Rightarrow> False" by code_simp
  then obtain c where c: "demo_writer demo_called = Some (Inr c)"
    "cn_pending (c_conn c 0) = [(1, 0)]" "cn_d (c_conn c 0) = cn_d demo_conn" "c_Conns c = 1"
    "ar_Error (c_heap c 0) = None" "cn_stop (c_conn c 0) = False"
    "cn_sending (c_conn c 0) = None" "cn_taken (c_conn c 0) = None"
    by (auto split: option.splits sum.splits)
  have d: "0 < c_Conns demo_called" "cn_w (c_conn demo_called 0) = None" "cn_sending (c_conn demo_called 0) = None"
    by (simp_all add: demo_called_def demo_client_def client_start_def demo_conn_def new_conn_def)
  have "(client_step (\<lambda>n. n) std_registry read_impl)\<^sup>*\<^sup>* demo_called c"
    by (rule message_steps [OF d c(1)]) (use writer_take_keeps d in fastforce)
  then show ?thesis using that c client_reach_steps [OF _ demo_called_reach] by blast
qed



text \<open>
  C7. \<open>pendingRequestsCount\<close> is exact up to the goroutines that are between the table and the counter: at
  all times the counter and the calls that a writer has entered and not yet counted make up the entries of all
  tables of pending calls and those that a reader has deleted and not yet discounted, modulo \<open>2 ^ 32\<close>. When no
  goroutine is there, the counter is the number of pending calls.
\<close>

lemma count_table:
  assumes "count_inv c"
  shows "c_count c + word_of_nat (card {k. k < c_Conns c \<and> cn_sending (c_conn c k) \<noteq> None})
       = word_of_nat ((\<Sum>k<c_Conns c. length (cn_pending (c_conn c k)))
           + card {k. k < c_Conns c \<and> cn_taken (c_conn c k) \<noteq> None})"
proof -
  have card: "(\<Sum>k<n. if P k then 0 else 1) = card {k. k < n \<and> \<not> P k}" for n and P :: "nat \<Rightarrow> bool"
    by (simp add: sum.If_cases Int_def lessThan_def)
  show ?thesis using assms by (simp add: count_inv_def uncounted_def entered_def sum.distrib card)
qed

theorem pending_count_exact:
  assumes "client_reach rnd reg impl c"
  shows "c_count c + word_of_nat (card {k. k < c_Conns c \<and> cn_sending (c_conn c k) \<noteq> None})
       = word_of_nat ((\<Sum>k<c_Conns c. length (cn_pending (c_conn c k)))
           + card {k. k < c_Conns c \<and> cn_taken (c_conn c k) \<noteq> None})
    \<and> ((\<forall>k < c_Conns c. cn_sending (c_conn c k) = None \<and> cn_taken (c_conn c k) = None) \<longrightarrow>
        c_count c = word_of_nat (\<Sum>k<c_Conns c. length (cn_pending (c_conn c k))))"
proof -
  note tab = count_table [OF client_reach_inv [OF assms, THEN conjunct2]]
  have "c_count c = word_of_nat (\<Sum>k<c_Conns c. length (cn_pending (c_conn c k)))"
    if q: "\<forall>k < c_Conns c. cn_sending (c_conn c k) = None \<and> cn_taken (c_conn c k) = None"
  proof -
    have e: "{k. k < c_Conns c \<and> cn_sending (c_conn c k) \<noteq> None} = {}"
        "{k. k < c_Conns c \<and> cn_taken (c_conn c k) \<noteq> None} = {}" using q by auto
    show ?thesis using tab unfolding e by simp
  qed
  then show ?thesis using tab by blast
qed

theorem pending_count_exact_witness:
  "\<exists>c1 c. (\<exists>loc. writer_take slow_kernel (\<lambda>n. n) std_registry read_impl demo_called 0 = Some (Inr (c1, Some loc)))
     \<and> c_count c1 = 0 \<and> demo_writer demo_called = Some (Inr c) \<and> c_count c = 1"
proof (rule demo_sent)
  fix c assume c: "demo_writer demo_called = Some (Inr c)" "client_reach (\<lambda>n. n) std_registry read_impl c"
    "cn_pending (c_conn c 0) = [(1, 0)]" "c_Conns c = 1" "cn_sending (c_conn c 0) = None" "cn_taken (c_conn c 0) = None"
  have "\<forall>k < c_Conns c. cn_sending (c_conn c k) = None \<and> cn_taken (c_conn c k) = None" using c(4-6) by simp
  then have "c_count c = 1" using pending_count_exact [OF c(2)] c(3,4) by simp
  moreover have "case writer_take slow_kernel (\<lambda>n. n) std_registry read_impl demo_called 0 of
      Some (Inr (c1, Some loc)) \<Rightarrow> c_count c1 = 0 | _ \<Rightarrow> False" by code_simp
  ultimately show ?thesis using c(1) by (auto split: option.splits sum.splits prod.splits)
qed

text \<open>
  C6. A response completes exactly the call that is pending under its message id: that call gets
  the response's headers and body, and its error if there is one, its channel is closed, and its
  entry disappears; every other call, every other entry and every other connection is unchanged.
\<close>

theorem response_reaches_its_call:
  assumes reach: "client_reach rnd reg impl c" and k: "k < c_Conns c"
    and dec: "DecodeResponse env reg impl (cn_d (c_conn c k)) new_response = Some (Inr wr, d)"
    and m: "map_of (cn_pending (c_conn c k)) (rp_ID wr) = Some m"
  shows "\<exists>c'. clientReader_response env reg impl c k = Some (Inr c')
    \<and> ar_done (c_heap c' m) = Closed
    \<and> ar_Response (c_heap c' m) = \<lparr>res_Headers = rp_Headers wr, res_Body = rp_Body wr\<rparr>
    \<and> ar_Error (c_heap c' m) =
        (if rp_Error wr \<noteq> [] then Some (CE_Server (rp_Error wr)) else ar_Error (c_heap c m))
    \<and> (\<forall>m'. m' \<noteq> m \<longrightarrow> c_heap c' m' = c_heap c m')
    \<and> (\<forall>i. map_of (cn_pending (c_conn c' k)) i =
          (if i = rp_ID wr then None else map_of (cn_pending (c_conn c k)) i))
    \<and> (\<forall>k'. k' \<noteq> k \<longrightarrow> c_conn c' k' = c_conn c k')"
proof -
  have inv: "client_inv c" using client_reach_inv [OF reach] by simp
  have "ar_done (c_heap c m) = Open"
    using pending_open(1) [OF inv k] map_of_SomeD [OF m] by (force simp: list_all_iff)
  then show ?thesis
    using dec m by (auto simp: reader_defs Let_def finish_def close_done_def AList.delete_conv')
qed

theorem response_reaches_its_call_witness:
  "\<exists>c c'. demo_writer demo_called = Some (Inr c)
     \<and> clientReader_response slow_kernel std_registry read_impl c 0 = Some (Inr c')
     \<and> ar_done (c_heap c' 0) = Closed \<and> ar_Error (c_heap c' 0) = Some (CE_Server [110, 111])"
proof (rule demo_sent)
  fix c assume c: "demo_writer demo_called = Some (Inr c)" "client_reach (\<lambda>n. n) std_registry read_impl c"
    "cn_pending (c_conn c 0) = [(1, 0)]" "cn_d (c_conn c 0) = cn_d demo_conn" "c_Conns c = 1"
    "ar_Error (c_heap c 0) = None"
  have "case DecodeResponse slow_kernel std_registry read_impl (cn_d demo_conn) new_response of
      Some (Inr wr, d) \<Rightarrow> rp_ID wr = 1 \<and> rp_Error wr = [110, 111] | _ \<Rightarrow> False" by code_simp
  then obtain wr d where wr: "DecodeResponse slow_kernel std_registry read_impl (cn_d demo_conn) new_response
      = Some (Inr wr, d)" "rp_ID wr = 1" "rp_Error wr = [110, 111]"
    by (auto split: option.splits sum.splits prod.splits)
  have "map_of (cn_pending (c_conn c 0)) (rp_ID wr) = Some 0" using c(3) wr(2) by simp
  from response_reaches_its_call [OF c(2) _ wr(1) [folded c(4)] this] c(1,5) wr(3) show ?thesis by auto
qed

text \<open>
  The writer gives a call a message id under which nothing is pending on the connection, and
  not 0 (which would tell the server not to answer) unless the ids have wrapped around; it enters
  the call under that id, counts it, and encodes its request with that id.
\<close>

theorem writer_assigns_fresh_id:
  assumes q: "c_requestsChan c = m # rest" and live: "\<not> ar_canceled (c_heap c m)" "ar_done (c_heap c m) = Open"
    and few: "length (cn_pending (c_conn c k)) \<le> 10 * c_PendingRequests c"
      "length (cn_pending (c_conn c k)) + 1 < 2 ^ 64"
  shows "\<exists>i. map_of (cn_pending (c_conn c k)) i = None
    \<and> (unat (cn_msgID (c_conn c k)) + length (cn_pending (c_conn c k)) + 1 < 2 ^ 64 \<longrightarrow> i \<noteq> 0)
    \<and> (\<forall>err e' b.
         EncodeRequest env rnd reg impl (cn_e (c_conn c k)) (wire_of i (ar_request (c_heap c m)))
           = Some (err, e', b) \<longrightarrow>
         (\<exists>c'. clientWriter_message env rnd reg impl c k = Some (Inr c')
            \<and> cn_pending (c_conn c' k) = (i, m) # cn_pending (c_conn c k)
            \<and> c_count c' = c_count c + 1 \<and> c_requestsChan c' = rest
            \<and> cn_msgID (c_conn c' k) = i \<and> cn_e (c_conn c' k) = e'
            \<and> (err \<noteq> None \<longrightarrow> cn_w (c_conn c' k) \<noteq> None)))"
proof -
  let ?cn = "c_conn c k" and ?n = "length (cn_pending (c_conn c k))"
  let ?i0 = "if cn_msgID ?cn + 1 = 0 then 1 else cn_msgID ?cn + 1"
  obtain i where i: "free_id (Suc ?n) (cn_pending ?cn) ?i0 = Some i" "map_of (cn_pending ?cn) i = None"
    using free_id_some [of "cn_pending ?cn" "Suc ?n" ?i0] few(2) by auto
  have nz: "i \<noteq> 0" if small: "unat (cn_msgID ?cn) + ?n + 1 < 2 ^ 64"
  proof -
    obtain j where j: "j < Suc ?n" "i = ?i0 + word_of_nat j" using free_id_near [OF i(1)] by blast
    have w: "cn_msgID ?cn + 1 + word_of_nat l = word_of_nat (unat (cn_msgID ?cn) + 1 + l)" for l
      by simp
    have u: "unat (cn_msgID ?cn + 1 + word_of_nat l) = unat (cn_msgID ?cn) + 1 + l" if "l \<le> ?n" for l
      unfolding w using small that by (simp only: unat_of_nat take_bit_nat_eq_self) simp
    have "cn_msgID ?cn + 1 \<noteq> 0" using u [of 0] by auto
    then have "unat i = unat (cn_msgID ?cn) + 1 + j" using j u [of j] by simp
    then show ?thesis by auto
  qed
  show ?thesis
  proof (rule exI [of _ i], intro conjI allI impI)
    fix err e' b
    assume enc: "EncodeRequest env rnd reg impl (cn_e ?cn) (wire_of i (ar_request (c_heap c m))) = Some (err, e', b)"
    then show "\<exists>c'. clientWriter_message env rnd reg impl c k = Some (Inr c')
            \<and> cn_pending (c_conn c' k) = (i, m) # cn_pending (c_conn c k)
            \<and> c_count c' = c_count c + 1 \<and> c_requestsChan c' = rest
            \<and> cn_msgID (c_conn c' k) = i \<and> cn_e (c_conn c' k) = e'
            \<and> (err \<noteq> None \<longrightarrow> cn_w (c_conn c' k) \<noteq> None)"
      using q live few(1) i
      by (cases err; cases "cn_msgID ?cn + 1 = 0")
        (simp_all add: writer_defs Let_def writer_encode_def set_conn_def
          del: free_id.simps)
  qed (use i(2) nz in auto)
qed

theorem writer_assigns_fresh_id_witness:
  "\<exists>i. i \<noteq> 0 \<and> map_of (cn_pending (c_conn demo_called 0)) i = None"
proof -
  have h: "c_requestsChan demo_called = 0 # []" "\<not> ar_canceled (c_heap demo_called 0)"
    "ar_done (c_heap demo_called 0) = Open" "cn_pending (c_conn demo_called 0) = []"
    "cn_msgID (c_conn demo_called 0) = 0"
    by (simp_all add: demo_called_def demo_client_def client_start_def demo_conn_def new_conn_def
        new_AsyncResult_def)
  show ?thesis
    using writer_assigns_fresh_id [OF h(1-3), of 0 slow_kernel "\<lambda>n. n" std_registry read_impl] h(4,5) by auto
qed

text \<open>
  C25. Stopping a client reports success to the calls it abandons: when a connection ends because
  of \<open>Client.Stop\<close>, every call still pending on it is completed with no error and whatever
  response its object held before, so \<open>Call\<close> returns an empty response and a nil error.
\<close>

theorem stop_reports_success:
  assumes reach: "client_reach rnd reg impl c" and k: "k < c_Conns c"
    and sel: "handler_select c k ClientStop = Some c1"
  shows "\<exists>c2. handler_drain c1 k = Inr c2
    \<and> (\<forall>m \<in> snd ` set (cn_pending (c_conn c k)).
         ar_done (c_heap c2 m) = Closed \<and> ar_Error (c_heap c2 m) = None
       \<and> ar_Response (c_heap c2 m) = ar_Response (c_heap c m))"
proof -
  have inv: "client_inv c" "count_inv c" using client_reach_inv [OF reach] by auto
  have inv1: "client_inv c1" "count_inv c1" using inv_select [OF inv k sel] by auto
  have c1: "c1 = set_conn c k ((c_conn c k)\<lparr>cn_stop := True, cn_err := None\<rparr>)"
    using sel by (auto simp: handler_select_def Let_def split: if_splits)
  have "k < c_Conns c1" using k c1 by simp
  from handler_drain_ok [OF inv1(1) this] show ?thesis by (auto simp: c1)
qed

theorem stop_reports_success_witness:
  "\<exists>c c1 c2. demo_writer demo_called = Some (Inr c)
     \<and> handler_select (c\<lparr>c_stopped := True\<rparr>) 0 ClientStop = Some c1 \<and> handler_drain c1 0 = Inr c2
     \<and> ar_done (c_heap c2 0) = Closed \<and> ar_Error (c_heap c2 0) = None"
proof (rule demo_sent)
  fix c assume c: "demo_writer demo_called = Some (Inr c)" "client_reach (\<lambda>n. n) std_registry read_impl c"
    "cn_pending (c_conn c 0) = [(1, 0)]" "c_Conns c = 1" "cn_stop (c_conn c 0) = False"
  let ?c = "c\<lparr>c_stopped := True\<rparr>"
  have reach: "client_reach (\<lambda>n. n) std_registry read_impl ?c"
    using client_reach.step [OF c(2) client_step.stop] .
  obtain c1 where c1: "handler_select ?c 0 ClientStop = Some c1"
    using c(5) by (simp add: handler_select_def Let_def)
  from stop_reports_success [OF reach _ c1] c(1,3,4) c1 show ?thesis by auto
qed

text \<open>
  C26. A cancelled result poisons the pool: releasing a result does not reset its \<open>canceled\<close> flag,
  so the next call that gets it from the pool is answered with \<open>ErrCanceled\<close> by the writer and
  never sent, although nobody has cancelled it.
\<close>

theorem pooled_cancel_poisons_next_call:
  assumes canc: "ar_canceled (c_heap c m)" and q: "c_requestsChan c = []" "0 < c_PendingRequests c"
  shows "\<exists>c2 c3. callAsync (releaseAsyncResult c m) req False True (Some 0) = Inr (c2, Inr m)
    \<and> clientWriter_message env rnd reg impl c2 k = Some (Inr c3)
    \<and> ar_done (c_heap c3 m) = Closed \<and> ar_Error (c_heap c3 m) = Some CE_Canceled
    \<and> cn_e (c_conn c3 k) = cn_e (c_conn c k) \<and> cn_pending (c_conn c3 k) = cn_pending (c_conn c k)"
proof -
  let ?r = "releaseAsyncResult c m"
  let ?a = "(c_heap ?r m)\<lparr>ar_request := req, ar_done := Open\<rparr>"
  let ?c2 = "c\<lparr>c_heap := (c_heap ?r)(m := ?a), c_requestsChan := [m]\<rparr>"
  have can: "ar_canceled (c_heap ?r m)" using canc by (simp add: releaseAsyncResult_def Let_def)
  have call: "callAsync ?r req False True (Some 0) = Inr (?c2, Inr m)"
    using q by (simp add: callAsync_def callAsync_init_def acquireAsyncResult_def try_push_def Let_def)
      (simp add: releaseAsyncResult_def Let_def)
  have "clientWriter_message env rnd reg impl ?c2 k = Some (finish (set_conn (?c2\<lparr>c_requestsChan := []\<rparr>) k
      ((c_conn ?c2 k)\<lparr>cn_armed := True\<rparr>)) m (Some CE_Canceled))"
    using can by (simp add: writer_defs Let_def split: sum.splits)
  then show ?thesis
    using call by (auto simp: finish_def close_done_def)
qed

definition skip_op :: "ReadHeaders BatchResult" where
  "skip_op = \<lparr>br_Response = \<lparr>res_Headers = None, res_Body = empty_body\<rparr>, br_Error = None,
     br_request = get_call, br_done = NoChan\<rparr>"

theorem pooled_cancel_poisons_next_call_witness:
  "\<exists>c m ops c2 c3.
     batch_give_up (demo_client\<lparr>c_next := 1\<rparr>) [(skip_op, m)] = Inr (c, ops)
   \<and> callAsync (releaseAsyncResult c m) get_call False True (Some 0) = Inr (c2, Inr m)
   \<and> demo_writer c2 = Some (Inr c3) \<and> ar_Error (c_heap c3 m) = Some CE_Canceled"
proof -
  let ?c = "Cancel (demo_client\<lparr>c_next := 1\<rparr>) 0"
  have "batch_give_up (demo_client\<lparr>c_next := 1\<rparr>) [(skip_op, 0)]
      = Inr (?c, [skip_op\<lparr>br_Error := Some CE_Timeout\<rparr>])"
    by (simp add: Let_def skip_op_def)
  moreover have "ar_canceled (c_heap ?c 0)" "c_requestsChan ?c = []" "0 < c_PendingRequests ?c"
    by (simp_all add: Cancel_def demo_client_def client_start_def)
  from pooled_cancel_poisons_next_call [OF this, of get_call slow_kernel "\<lambda>n. n" std_registry read_impl 0]
  obtain c2 c3 where "callAsync (releaseAsyncResult ?c 0) get_call False True (Some 0) = Inr (c2, Inr 0)"
    "demo_writer c2 = Some (Inr c3)" "ar_Error (c_heap c3 0) = Some CE_Canceled" by auto
  ultimately show ?thesis by blast
qed

text \<open>
  C8. What submitting a call does when no other goroutine acts in between: with room in the queue the request
  goes to its end. On a full queue a call that waits for its response takes the place of the oldest entry, which
  is completed with the overflow error if somebody waits for it and goes back to the pool if nobody does; a call
  that skips its response fails at once with the overflow error and leaves the queue and every result that is
  in use as they were.
\<close>

theorem callAsync_by_queue:
  assumes inv: "client_inv c" and p: "0 < c_PendingRequests c"
    and len: "length (c_requestsChan c) \<le> c_PendingRequests c"
  shows "if skip \<and> length (c_requestsChan c) = c_PendingRequests c
    then \<exists>c' m. callAsync c req skip pool pick = Inr (c', Inl CE_Overflow) \<and> c_requestsChan c' = c_requestsChan c
      \<and> (m \<in> set (c_pool c) \<or> c_next c \<le> m) \<and> (\<forall>x. x \<noteq> m \<longrightarrow> c_heap c' x = c_heap c x)
    else \<exists>c' m. callAsync c req skip pool pick = Inr (c', Inr m)
      \<and> ar_request (c_heap c' m) = req \<and> ar_done (c_heap c' m) = (if skip then NoChan else Open)
      \<and> c_requestsChan c' =
          (if length (c_requestsChan c) < c_PendingRequests c then c_requestsChan c
           else tl (c_requestsChan c)) @ [m]
      \<and> (\<forall>mm rest. c_requestsChan c = mm # rest \<and> length (c_requestsChan c) = c_PendingRequests c \<longrightarrow>
          (if ar_done (c_heap c mm) = NoChan then mm \<in> set (c_pool c')
           else ar_done (c_heap c' mm) = Closed \<and> ar_Error (c_heap c' mm) = Some CE_Overflow))"
proof -
  obtain m c1 where init: "callAsync_init c req skip pool pick = (m, c1)" by fastforce
  note i = inv_init [OF inv init]
  have free: "client_free c1 m" and fresh: "ar_done (c_heap c1 m) = (if skip then NoChan else Open)" using i by auto
  have sel: "c_requestsChan c1 = c_requestsChan c" "c_PendingRequests c1 = c_PendingRequests c"
      "ar_request (c_heap c1 m) = req" "\<And>x. x \<noteq> m \<Longrightarrow> c_heap c1 x = c_heap c x"
    using init by (auto simp: callAsync_init_def acquireAsyncResult_def Let_def
        split: option.splits if_splits)
  show ?thesis
  proof (cases "length (c_requestsChan c) < c_PendingRequests c")
    case True
    then show ?thesis using init sel fresh by (simp add: callAsync_def try_push_def)
  next
    case False
    then obtain mm rest where q: "c_requestsChan c = mm # rest" "length (c_requestsChan c) = c_PendingRequests c"
      using p len by (cases "c_requestsChan c") auto
    have ne: "mm \<noteq> m" using freeD(2) [OF free] q(1) sel(1) by auto
    show ?thesis
    proof (cases skip)
      case skip: True
      have "callAsync c req skip pool pick = Inr (releaseAsyncResult c1 m, Inl CE_Overflow)"
        using skip False init sel by (simp add: callAsync_def try_push_def)
      moreover have "m \<in> set (c_pool c) \<or> c_next c \<le> m"
        using init by (auto simp: callAsync_init_def acquireAsyncResult_def Let_def split: option.splits if_splits)
      ultimately show ?thesis using skip q(2) sel by (auto simp: releaseAsyncResult_def Let_def)
    next
      case wait: False
      have inv1: "client_inv c1" using free by (simp add: client_free_def)
      obtain c2 where c2: "substitute c1 = Inr c2" using inv_substitute [OF inv1] by blast
      have s: "c_requestsChan c2 = rest" "c_PendingRequests c2 = c_PendingRequests c"
          "c_heap c2 m = c_heap c1 m"
          "if ar_done (c_heap c mm) = NoChan then mm \<in> set (c_pool c2)
           else ar_done (c_heap c2 mm) = Closed \<and> ar_Error (c_heap c2 mm) = Some CE_Overflow"
        using c2 q sel ne
        by (auto simp: substitute_def Let_def finish_def releaseAsyncResult_def close_done_def
            split: if_splits done_chan.splits)
      show ?thesis
        using wait False init sel(1-3) c2 s q fresh by (simp add: callAsync_def try_push_def)
    qed
  qed
qed

theorem callAsync_by_queue_witness:
  "(\<exists>c' m. callAsync demo_called get_call False True None = Inr (c', Inr m)
     \<and> c_requestsChan c' = [m] \<and> ar_Error (c_heap c' 0) = Some CE_Overflow)
   \<and> (\<exists>c'. callAsync demo_called get_call True True None = Inr (c', Inl CE_Overflow) \<and> c_requestsChan c' = [0])"
proof -
  have inv: "client_inv demo_called" using client_reach_inv [OF demo_called_reach] by simp
  have h: "c_requestsChan demo_called = [0]" "c_PendingRequests demo_called = 1"
      "ar_done (c_heap demo_called 0) = Open"
    by (simp_all add: demo_called_def demo_client_def client_start_def)
  show ?thesis
    using callAsync_by_queue [OF inv, of False get_call True None] callAsync_by_queue [OF inv, of True get_call True None] h
    by auto
qed

lemma batch_submit_length: "batch_submit others c ops = Inr (c1, Inr ms) \<Longrightarrow> length ms = length ops"
proof (induction ops arbitrary: c ms)
  case (Cons op ops)
  obtain c2 m where 1: "callAsyncRetry others c (br_request op) (br_done op = NoChan) 5 None = Inr (c2, Inr m)"
    using Cons.prems by (auto split: sum.splits)
  obtain ms' where "batch_submit others c2 ops = Inr (c1, Inr ms')" "ms = m # ms'"
    using Cons.prems 1 by (auto split: sum.splits)
  with Cons.IH show ?case by simp
qed simp

lemma callAsync_skip_full:
  assumes "c_PendingRequests c \<le> length (c_requestsChan c)"
  shows "\<exists>c'. callAsync c req True pool pick = Inr (c', Inl CE_Overflow)
    \<and> c_requestsChan c' = c_requestsChan c \<and> c_PendingRequests c' = c_PendingRequests c"
  using assms
  by (auto simp: callAsync_def callAsync_init_def acquireAsyncResult_def try_push_def
      releaseAsyncResult_def Let_def split: option.splits)

lemma retry_skip_full:
  "c_PendingRequests c \<le> length (c_requestsChan c) \<Longrightarrow>
     \<exists>c'. retry_loop n (\<lambda>c. c) c req True pick = Inr (c', Inl CE_Overflow)"
proof (induction n arbitrary: c)
  case (Suc n)
  obtain c' where c': "callAsync c req True False pick = Inr (c', Inl CE_Overflow)"
      "c_requestsChan c' = c_requestsChan c" "c_PendingRequests c' = c_PendingRequests c"
    using callAsync_skip_full [OF Suc.prems] by blast
  then have "\<exists>c''. retry_loop n (\<lambda>c. c) c' req True pick = Inr (c'', Inl CE_Overflow)"
    using Suc.prems by (intro Suc.IH) simp
  then show ?case using c'(1) by auto
qed simp

text \<open>
  \<open>Batch.CallTimeout\<close> closes the channel of every operation that has one, exactly once,
  whether the responses come or the timer fires, provided that all operations could be submitted.
  If one could not, it returns the overflow error and no channel is closed at all, although its
  documentation guarantees that all are unblocked.
\<close>

theorem batch_call_closes_channels:
  assumes fresh: "list_all op_fresh ops" and sub: "batch_submit others c ops = Inr (c1, r)"
  shows "case r of
      Inr ms \<Rightarrow> \<exists>c' ops' err. batch_CallTimeout others waiting c ops ts = Inr (c', ops', err)
        \<and> list_all op_closed ops' \<and> length ops' = length ops
    | Inl e \<Rightarrow> batch_CallTimeout others waiting c ops ts = Inr (c1, ops, Some e)"
proof (cases r)
  case (Inl e)
  then show ?thesis using sub by (simp add: batch_CallTimeout_def)
next
  case (Inr ms)
  have "\<forall>(op, m) \<in> set (zip ops ms). op_fresh op"
    using fresh by (auto simp: list_all_iff dest: set_zip_leftD)
  from batch_wait_ok [OF this, of "waiting c1" ts] show ?thesis
    using sub Inr batch_submit_length [of others c ops c1 ms] by (auto simp: batch_CallTimeout_def)
qed

theorem batch_call_closes_channels_witness:
  "batch_CallTimeout (\<lambda>c. c) (\<lambda>c. c) demo_called [skip_op, skip_op\<lparr>br_done := Open\<rparr>] []
     = Inr (fst (projr (batch_submit (\<lambda>c. c) demo_called [skip_op, skip_op\<lparr>br_done := Open\<rparr>])),
            [skip_op, skip_op\<lparr>br_done := Open\<rparr>], Some CE_Overflow)"
proof -
  let ?ops = "[skip_op, skip_op\<lparr>br_done := Open\<rparr>]"
  have "c_PendingRequests demo_called \<le> length (c_requestsChan demo_called)"
    by (simp add: demo_called_def demo_client_def client_start_def)
  from retry_skip_full [OF this, of 6 get_call None] obtain c1 where
    s: "batch_submit (\<lambda>c. c) demo_called ?ops = Inr (c1, Inl CE_Overflow)"
    by (auto simp: callAsyncRetry_def skip_op_def)
  have "list_all op_fresh ?ops" by (simp add: op_fresh_def skip_op_def)
  from batch_call_closes_channels [OF this s, of "\<lambda>c. c" "[]"] s show ?thesis by simp
qed

end
