(* ===== verification/Rpc_Server.thy ===== *)
theory Rpc_Server
  imports Read_Headers "HOL-Library.Multiset"
begin

text \<open>
  The RPC server of \<open>pkg/iorpc/server.go\<close>: per connection a reader, a writer with the queue of
  responses between the handlers and it, and one goroutine per request, of which at most
  \<open>Concurrency\<close> run at a time over all connections. The actions of the goroutines are functions
  on the state, interleaved by \<open>server_step\<close>.

  \<open>serverMessage\<close> objects come from a pool, but every field is set before it is read, so they are
  plain values here. \<open>sc_received\<close>, \<open>sc_written\<close>, \<open>sc_encoded\<close> and \<open>sc_dropped\<close> are history: the
  requests the reader has decoded, the outcomes the writer took from its queue, the messages it
  passed to the encoder for them, and the outcomes given up because the connection was being closed.
\<close>

section \<open>Calling the handler\<close>

text \<open>A handler returns a response and an error, each possibly nil, or panics; \<open>HPanic x\<close>
  carries the panic's value and the stack trace as the message prints them.\<close>

datatype 'h handler_result = HReturn "'h response option" "byte list option" | HPanic "byte list"

definition callHandlerWithRecover :: "'h handler_result \<Rightarrow> 'h response option \<times> byte list" where
  "callHandlerWithRecover r =
     (case r of
        HPanic x \<Rightarrow> (None, bytes_of ''Panic occured: '' @ x)
      | HReturn response (Some err) \<Rightarrow> (None, err)
      | HReturn response None \<Rightarrow> (response, []))"

section \<open>State\<close>

record 'h serverMessage =
  sm_ID :: u64
  sm_Request :: "'h request"
  sm_Response :: "'h response option"
  sm_Error :: "byte list"

record 'h sconn =
  sc_addr :: string
  sc_d :: messageDecoder
  sc_e :: messageEncoder
  sc_wr :: "'h wireResponse"
  sc_waiting :: "'h serverMessage option"
  sc_running :: "'h serverMessage list"
  sc_ready :: "'h serverMessage list"
  sc_chan :: "'h serverMessage list"
  sc_stop :: bool
  sc_rdone :: bool
  sc_wdone :: bool
  sc_received :: "(u64 \<times> 'h request) list"
  sc_written :: "(u64 \<times> 'h response option \<times> byte list) list"
  sc_encoded :: "'h wireResponse list"
  sc_dropped :: "(u64 \<times> 'h response option \<times> byte list) list"

record 'h server =
  sv_Concurrency :: nat
  sv_PendingResponses :: nat
  sv_workers :: nat
  sv_conns :: nat
  sv_conn :: "nat \<Rightarrow> 'h sconn"
  sv_stopping :: bool
  sv_stat :: conn_stats

type_synonym 'h handler = "string \<Rightarrow> 'h request \<Rightarrow> 'h handler_result"

definition set_sconn :: "'h server \<Rightarrow> nat \<Rightarrow> 'h sconn \<Rightarrow> 'h server" where
  "set_sconn s k cn = s\<lparr>sv_conn := (sv_conn s)(k := cn)\<rparr>"

text \<open>The response a request must get.\<close>

definition answer :: "'h handler \<Rightarrow> string \<Rightarrow> u64 \<times> 'h request \<Rightarrow> u64 \<times> 'h response option \<times> byte list" where
  "answer h addr p = (fst p, callHandlerWithRecover (h addr (snd p)))"

definition outcome :: "'h serverMessage \<Rightarrow> u64 \<times> 'h response option \<times> byte list" where
  "outcome m = (sm_ID m, sm_Response m, sm_Error m)"

text \<open>The message that must be encoded for an outcome: nothing of an earlier response is in it.\<close>

definition response_of :: "u64 \<times> 'h response option \<times> byte list \<Rightarrow> 'h wireResponse" where
  "response_of p =
     (case p of (i, resp, err) \<Rightarrow>
        (let wr = new_response\<lparr>rp_ID := i, rp_Error := err\<rparr> in
         case resp of None \<Rightarrow> wr | Some r \<Rightarrow> wr\<lparr>rp_Body := res_Body r, rp_Headers := res_Headers r\<rparr>))"

definition asked :: "'h serverMessage \<Rightarrow> u64 \<times> 'h request" where
  "asked m = (sm_ID m, sm_Request m)"

section \<open>The goroutines\<close>

text \<open>
  \<open>isClientDisconnect\<close> compares the error itself, so a wrapped end of file is not one (it only
  decides whether the error is logged).
\<close>

definition isClientDisconnect :: "go_error \<Rightarrow> bool" where
  "isClientDisconnect err \<longleftrightarrow> err = UnexpectedEOF \<or> err = EOF"

text \<open>
  \<open>serverReader\<close>: decode a request (its message variable is reset after each), then wait for a
  worker slot. A panic of the decoder is recovered and ends the reader like an error.
\<close>

definition serverReader_decode :: "splice_env \<Rightarrow> 'ty registry \<Rightarrow> ('ty, 'h) headers_impl \<Rightarrow>
    'h server \<Rightarrow> nat \<Rightarrow> 'h server option" where
  "serverReader_decode env reg impl s k =
     (let cn = sv_conn s k in
      case DecodeRequest env reg impl (sc_d cn) new_request of
        None \<Rightarrow> None
      | Some (Inl er, d) \<Rightarrow> Some (set_sconn s k (cn\<lparr>sc_d := d, sc_rdone := True\<rparr>))
      | Some (Inr wr, d) \<Rightarrow>
          (let req = \<lparr>req_Service = rq_Service wr, req_Headers = rq_Headers wr, req_Body = rq_Body wr\<rparr> in
           Some (set_sconn s k (cn\<lparr>sc_d := d,
             sc_waiting := Some \<lparr>sm_ID = rq_ID wr, sm_Request = req, sm_Response = None, sm_Error = []\<rparr>,
             sc_received := sc_received cn @ [(rq_ID wr, req)]\<rparr>))))"

definition serverReader_spawn :: "'h server \<Rightarrow> nat \<Rightarrow> 'h server option" where
  "serverReader_spawn s k =
     (let cn = sv_conn s k in
      case sc_waiting cn of
        None \<Rightarrow> None
      | Some m \<Rightarrow>
          if sv_workers s < sv_Concurrency s
          then Some ((set_sconn s k (cn\<lparr>sc_waiting := None, sc_running := m # sc_running cn\<rparr>))
                 \<lparr>sv_workers := sv_workers s + 1\<rparr>)
          else None)"

definition serverReader_stop :: "'h handler \<Rightarrow> 'h server \<Rightarrow> nat \<Rightarrow> 'h server option" where
  "serverReader_stop h s k =
     (let cn = sv_conn s k in
      case sc_waiting cn of
        None \<Rightarrow> None
      | Some m \<Rightarrow>
          if sc_stop cn
          then Some (set_sconn s k (cn\<lparr>sc_waiting := None, sc_rdone := True,
                 sc_dropped := (if sm_ID m = 0 then [] else [answer h (sc_addr cn) (asked m)]) @ sc_dropped cn\<rparr>))
          else None)"

text \<open>
  \<open>serveRequest\<close>: a request with id 0 wants no response. Otherwise the response is sent to the
  writer, which may have to wait for room in the queue or for the connection to stop. \<open>ms\<close> is the
  time the handler took.
\<close>

definition serveRequest_run :: "'h handler \<Rightarrow> u64 \<Rightarrow> 'h server \<Rightarrow> nat \<Rightarrow> 'h serverMessage \<Rightarrow> 'h server" where
  "serveRequest_run h ms s k m =
     (let cn = sv_conn s k; (resp, err) = callHandlerWithRecover (h (sc_addr cn) (sm_Request m)) in
      if sm_ID m = 0
      then (set_sconn s k (cn\<lparr>sc_running := remove1 m (sc_running cn)\<rparr>))
             \<lparr>sv_workers := sv_workers s - 1, sv_stat := incRPCTime ms (incRPCCalls (sv_stat s))\<rparr>
      else (set_sconn s k (cn\<lparr>sc_running := remove1 m (sc_running cn),
             sc_ready := m\<lparr>sm_Response := resp, sm_Error := err\<rparr> # sc_ready cn\<rparr>))
             \<lparr>sv_stat := incRPCTime ms (sv_stat s)\<rparr>)"

definition serveRequest_send :: "'h server \<Rightarrow> nat \<Rightarrow> 'h serverMessage \<Rightarrow> 'h server option" where
  "serveRequest_send s k m =
     (let cn = sv_conn s k in
      if length (sc_chan cn) < sv_PendingResponses s
      then Some ((set_sconn s k (cn\<lparr>sc_ready := remove1 m (sc_ready cn), sc_chan := sc_chan cn @ [m]\<rparr>))
             \<lparr>sv_workers := sv_workers s - 1\<rparr>)
      else if sc_stop cn
      then Some ((set_sconn s k (cn\<lparr>sc_ready := remove1 m (sc_ready cn), sc_dropped := outcome m # sc_dropped cn\<rparr>))
             \<lparr>sv_workers := sv_workers s - 1\<rparr>)
      else None)"

text \<open>
  One message of \<open>serverWriter\<close>. It has no flush timer: what \<open>EncodeResponse\<close> leaves in the
  encoder's buffer stays there.
\<close>

definition serverWriter_message :: "splice_env \<Rightarrow> (nat \<Rightarrow> nat) \<Rightarrow> 'ty registry \<Rightarrow> ('ty, 'h) headers_impl \<Rightarrow>
    'h server \<Rightarrow> nat \<Rightarrow> 'h server option" where
  "serverWriter_message env rnd reg impl s k =
     (let cn = sv_conn s k in
      case sc_chan cn of
        [] \<Rightarrow> None
      | m # rest \<Rightarrow>
          (let wr0 = (sc_wr cn)\<lparr>rp_ID := sm_ID m, rp_Error := sm_Error m\<rparr>;
               wr = (case sm_Response m of
                       None \<Rightarrow> wr0
                     | Some r \<Rightarrow> wr0\<lparr>rp_Body := res_Body r, rp_Headers := res_Headers r\<rparr>) in
           case EncodeResponse env rnd reg impl (sc_e cn) wr of
             None \<Rightarrow> None
           | Some (Some er, e', b) \<Rightarrow>
               Some (set_sconn s k (cn\<lparr>sc_chan := rest, sc_e := e', sc_wr := wr, sc_wdone := True,
                 sc_written := outcome m # sc_written cn, sc_encoded := wr # sc_encoded cn\<rparr>))
           | Some (None, e', b) \<Rightarrow>
               Some ((set_sconn s k (cn\<lparr>sc_chan := rest, sc_e := e',
                   sc_wr := wr\<lparr>rp_Body := body_Reset (rp_Body wr), rp_Headers := None\<rparr>,
                   sc_written := outcome m # sc_written cn, sc_encoded := wr # sc_encoded cn\<rparr>))
                 \<lparr>sv_stat := incRPCCalls (sv_stat s)\<rparr>)))"

text \<open>
  \<open>serverHandler\<close>: one turn of the accept loop; an error of \<open>Accept\<close> is counted and the loop
  goes on after a second.
\<close>

definition serverHandler_accept :: "'h server \<Rightarrow> go_error option \<Rightarrow> 'h server \<times> bool" where
  "serverHandler_accept s err =
     (let s1 = s\<lparr>sv_stat := incAcceptCalls (sv_stat s)\<rparr> in
      case err of
        None \<Rightarrow> (s1, True)
      | Some e \<Rightarrow> (s1\<lparr>sv_stat := incAcceptErrors (sv_stat s1)\<rparr>, False))"

text \<open>
  \<open>serverHandleConnection\<close>: the \<open>OnConnect\<close> callback may refuse the connection; then a
  handshake byte must arrive before ten seconds have passed or the server stops. The result is
  the compression flag the client sent, or that the connection was closed.
\<close>

datatype handshake = HsByte byte | HsError go_error | HsServerStop | HsTimeout

definition serverHandshake :: "go_error option \<Rightarrow> handshake \<Rightarrow> bool option" where
  "serverHandshake onConnectErr hs =
     (case onConnectErr of
        Some e \<Rightarrow> None
      | None \<Rightarrow>
          (case hs of
             HsByte b \<Rightarrow> Some (b \<noteq> 0)
           | HsError e \<Rightarrow> None
           | HsServerStop \<Rightarrow> None
           | HsTimeout \<Rightarrow> None))"

definition new_sconn :: "string \<Rightarrow> messageDecoder \<Rightarrow> messageEncoder \<Rightarrow> 'h sconn" where
  "new_sconn addr d e = \<lparr>sc_addr = addr, sc_d = d, sc_e = e, sc_wr = new_response, sc_waiting = None,
     sc_running = [], sc_ready = [], sc_chan = [], sc_stop = False, sc_rdone = False, sc_wdone = False,
     sc_received = [], sc_written = [], sc_encoded = [], sc_dropped = []\<rparr>"

definition serverHandleConnection :: "'h server \<Rightarrow> string \<Rightarrow> messageDecoder \<Rightarrow> messageEncoder \<Rightarrow>
    go_error option \<Rightarrow> handshake \<Rightarrow> 'h server" where
  "serverHandleConnection s addr d e onConnectErr hs =
     (case serverHandshake onConnectErr hs of
        None \<Rightarrow> s
      | Some enabledCompression \<Rightarrow>
          (set_sconn s (sv_conns s) (new_sconn addr d e))\<lparr>sv_conns := sv_conns s + 1\<rparr>)"

text \<open>The end of it: the first of reader, writer and server to stop closes \<open>stopChan\<close>.\<close>

definition serverHandleConnection_stop :: "'h server \<Rightarrow> nat \<Rightarrow> 'h server option" where
  "serverHandleConnection_stop s k =
     (let cn = sv_conn s k in
      if sc_rdone cn \<or> sc_wdone cn \<or> sv_stopping s
      then Some (set_sconn s k (cn\<lparr>sc_stop := True\<rparr>)) else None)"

inductive server_step :: "(nat \<Rightarrow> nat) \<Rightarrow> 'ty registry \<Rightarrow> ('ty, 'h) headers_impl \<Rightarrow> 'h handler \<Rightarrow>
    'h server \<Rightarrow> 'h server \<Rightarrow> bool" for rnd reg impl h where
  decode: "k < sv_conns s \<Longrightarrow> \<not> sc_rdone (sv_conn s k) \<Longrightarrow> sc_waiting (sv_conn s k) = None \<Longrightarrow>
     serverReader_decode env reg impl s k = Some s' \<Longrightarrow> server_step rnd reg impl h s s'"
| spawn: "k < sv_conns s \<Longrightarrow> serverReader_spawn s k = Some s' \<Longrightarrow> server_step rnd reg impl h s s'"
| read_stop: "k < sv_conns s \<Longrightarrow> serverReader_stop h s k = Some s' \<Longrightarrow> server_step rnd reg impl h s s'"
| run: "k < sv_conns s \<Longrightarrow> m \<in> set (sc_running (sv_conn s k)) \<Longrightarrow>
     server_step rnd reg impl h s (serveRequest_run h ms s k m)"
| respond: "k < sv_conns s \<Longrightarrow> m \<in> set (sc_ready (sv_conn s k)) \<Longrightarrow> serveRequest_send s k m = Some s' \<Longrightarrow>
     server_step rnd reg impl h s s'"
| send: "k < sv_conns s \<Longrightarrow> \<not> sc_wdone (sv_conn s k) \<Longrightarrow>
     serverWriter_message env rnd reg impl s k = Some s' \<Longrightarrow> server_step rnd reg impl h s s'"
| write_stop: "k < sv_conns s \<Longrightarrow> sc_stop (sv_conn s k) \<Longrightarrow>
     server_step rnd reg impl h s (set_sconn s k ((sv_conn s k)\<lparr>sc_wdone := True\<rparr>))"
| close_conn: "k < sv_conns s \<Longrightarrow> serverHandleConnection_stop s k = Some s' \<Longrightarrow> server_step rnd reg impl h s s'"
| accept: "\<not> sv_stopping s \<Longrightarrow> serverHandler_accept s err = (s', ok) \<Longrightarrow> server_step rnd reg impl h s
     (if ok then serverHandleConnection s' addr d e onConnectErr hs else s')"
| stop: "server_step rnd reg impl h s (s\<lparr>sv_stopping := True\<rparr>)"

definition server_start :: "nat \<Rightarrow> nat \<Rightarrow> (nat \<Rightarrow> 'h sconn) \<Rightarrow> 'h server" where
  "server_start concurrency pendingResponses cs =
     \<lparr>sv_Concurrency = concurrency, sv_PendingResponses = pendingResponses, sv_workers = 0, sv_conns = 0,
      sv_conn = cs, sv_stopping = False, sv_stat = zero_stats\<rparr>"

inductive server_reach :: "(nat \<Rightarrow> nat) \<Rightarrow> 'ty registry \<Rightarrow> ('ty, 'h) headers_impl \<Rightarrow> 'h handler \<Rightarrow>
    'h server \<Rightarrow> bool" for rnd reg impl h where
  start: "server_reach rnd reg impl h (server_start c p cs)"
| step: "server_reach rnd reg impl h s \<Longrightarrow> server_step rnd reg impl h s s' \<Longrightarrow> server_reach rnd reg impl h s'"

section \<open>Invariants\<close>

text \<open>
  Every request that wants a response is, with the response it must get, in exactly one place:
  waiting for a slot, running, ready, queued, written or dropped; between two responses the
  writer's message variable holds nothing of the last one, and so what was passed to the encoder
  is what the outcomes demand.
\<close>

definition wanted :: "(u64 \<times> 'h request) list \<Rightarrow> (u64 \<times> 'h request) multiset" where
  "wanted ps = mset (filter (\<lambda>p. fst p \<noteq> 0) ps)"

definition in_hand :: "'h sconn \<Rightarrow> 'h serverMessage list" where
  "in_hand cn = (case sc_waiting cn of None \<Rightarrow> [] | Some m \<Rightarrow> [m]) @ sc_running cn"

definition sconn_inv :: "'h handler \<Rightarrow> 'h sconn \<Rightarrow> bool" where
  "sconn_inv h cn \<longleftrightarrow>
     image_mset (answer h (sc_addr cn)) (wanted (sc_received cn)) =
       mset (sc_written cn) + mset (map outcome (sc_chan cn)) + mset (map outcome (sc_ready cn))
       + mset (sc_dropped cn) + image_mset (answer h (sc_addr cn)) (wanted (map asked (in_hand cn)))
     \<and> (\<not> sc_wdone cn \<longrightarrow> rp_Headers (sc_wr cn) = None \<and> rp_Body (sc_wr cn) = empty_body)
     \<and> sc_encoded cn = map response_of (sc_written cn)"

definition busy :: "'h sconn \<Rightarrow> nat" where
  "busy cn = length (sc_running cn) + length (sc_ready cn)"

definition server_inv :: "'h handler \<Rightarrow> 'h server \<Rightarrow> bool" where
  "server_inv h s \<longleftrightarrow> sv_workers s = (\<Sum>k\<in>{..<sv_conns s}. busy (sv_conn s k))
     \<and> sv_workers s \<le> sv_Concurrency s \<and> (\<forall>k < sv_conns s. sconn_inv h (sv_conn s k))"

lemma wanted_simps [simp]:
  "wanted [] = {#}" "wanted (p # ps) = (if fst p \<noteq> 0 then {#p#} else {#}) + wanted ps"
  "wanted (ps @ qs) = wanted ps + wanted qs"
  by (simp_all add: wanted_def)

lemma wanted_remove1:
  assumes "x \<in> set xs"
  shows "wanted (map f xs) = (if fst (f x) \<noteq> 0 then {#f x#} else {#}) + wanted (map f (remove1 x xs))"
proof -
  obtain ys zs where "xs = ys @ x # zs" "x \<notin> set ys" using split_list_first [OF assms] by blast
  then show ?thesis by (simp add: remove1_append)
qed

lemma mset_map_remove1:
  assumes "x \<in> set xs"
  shows "mset (map f xs) = add_mset (f x) (mset (map f (remove1 x xs)))"
proof -
  obtain ys zs where "xs = ys @ x # zs" "x \<notin> set ys" using split_list_first [OF assms] by blast
  then show ?thesis by (simp add: remove1_append)
qed

lemma body_Reset_empty [simp]: "body_Reset b = empty_body"
  by (simp add: body_Reset_def empty_body_def)

lemma set_sconn_sel [simp]:
  "sv_conn (set_sconn s k cn) = (sv_conn s)(k := cn)" "sv_conns (set_sconn s k cn) = sv_conns s"
  "sv_workers (set_sconn s k cn) = sv_workers s" "sv_Concurrency (set_sconn s k cn) = sv_Concurrency s"
  "sv_PendingResponses (set_sconn s k cn) = sv_PendingResponses s"
  "sv_stopping (set_sconn s k cn) = sv_stopping s" "sv_stat (set_sconn s k cn) = sv_stat s"
  by (simp_all add: set_sconn_def)

text \<open>A step on one connection that keeps its invariant and accounts for its worker slots.\<close>

lemma server_inv_upd:
  assumes inv: "server_inv h s" and k: "k < sv_conns s" and cn: "sconn_inv h cn"
    and s': "sv_conn s' = (sv_conn s)(k := cn)" "sv_conns s' = sv_conns s"
      "sv_Concurrency s' = sv_Concurrency s"
    and w: "sv_workers s' + busy (sv_conn s k) = sv_workers s + busy cn" "sv_workers s' \<le> sv_Concurrency s"
  shows "server_inv h s'"
proof -
  have "(\<Sum>j\<in>{..<sv_conns s}. busy (((sv_conn s)(k := cn)) j)) + busy (sv_conn s k)
      = (\<Sum>j\<in>{..<sv_conns s}. busy (sv_conn s j)) + busy cn"
    by (rule sum_fun_upd [OF k])
  then show ?thesis
    using inv cn w by (auto simp: server_inv_def s')
qed

lemma server_inv_stat [simp]: "server_inv h (s\<lparr>sv_stat := st\<rparr>) = server_inv h s"
  by (simp add: server_inv_def)

lemma server_inv_set:
  "server_inv h s \<Longrightarrow> k < sv_conns s \<Longrightarrow> sconn_inv h cn \<Longrightarrow> busy cn = busy (sv_conn s k) \<Longrightarrow>
     server_inv h (set_sconn s k cn)"
  by (rule server_inv_upd) (auto simp: server_inv_def)

lemma server_inv_set_workers:
  "server_inv h s \<Longrightarrow> k < sv_conns s \<Longrightarrow> sconn_inv h cn \<Longrightarrow>
     w + busy (sv_conn s k) = sv_workers s + busy cn \<Longrightarrow> w \<le> sv_Concurrency s \<Longrightarrow>
     server_inv h ((set_sconn s k cn)\<lparr>sv_workers := w\<rparr>)"
  by (rule server_inv_upd) auto

lemmas server_inv_sets = server_inv_set server_inv_set_workers

lemma busy_le:
  assumes "server_inv h s" "k < sv_conns s"
  shows "busy (sv_conn s k) \<le> sv_workers s"
  using assms member_le_sum [of k "{..<sv_conns s}" "\<lambda>k. busy (sv_conn s k)"]
  by (simp add: server_inv_def)

text \<open>Each action of a connection keeps the accounting of its requests.\<close>

lemmas sconn_simps = sconn_inv_def in_hand_def asked_def outcome_def busy_def

lemma remove1_busy:
  "m \<in> set xs \<Longrightarrow> Suc (length (remove1 m xs)) = length xs"
  by (simp add: length_remove1) (metis Suc_pred length_pos_if_in_set)

lemma decode_inv:
  assumes inv: "server_inv h s" and k: "k < sv_conns s" and w: "sc_waiting (sv_conn s k) = None"
    and s': "serverReader_decode env reg impl s k = Some s'"
  shows "server_inv h s'"
proof -
  have cn: "sconn_inv h (sv_conn s k)" and le: "sv_workers s \<le> sv_Concurrency s"
    using inv k by (auto simp: server_inv_def)
  show ?thesis
    using s' cn le w
    by (auto simp: serverReader_decode_def Let_def sconn_simps
        split: option.splits sum.splits prod.splits intro!: server_inv_sets [OF inv k])
qed

lemma spawn_inv:
  assumes inv: "server_inv h s" and k: "k < sv_conns s" and s': "serverReader_spawn s k = Some s'"
  shows "server_inv h s'"
proof -
  have cn: "sconn_inv h (sv_conn s k)"
    using inv k by (auto simp: server_inv_def)
  show ?thesis
    using s' cn
    by (auto simp: serverReader_spawn_def Let_def sconn_simps
        split: option.splits if_splits intro!: server_inv_sets [OF inv k])
qed

lemma read_stop_inv:
  assumes inv: "server_inv h s" and k: "k < sv_conns s" and s': "serverReader_stop h s k = Some s'"
  shows "server_inv h s'"
proof -
  have cn: "sconn_inv h (sv_conn s k)" and le: "sv_workers s \<le> sv_Concurrency s"
    using inv k by (auto simp: server_inv_def)
  show ?thesis
    using s' cn le
    by (auto simp: serverReader_stop_def Let_def sconn_simps
        split: option.splits if_splits intro!: server_inv_sets [OF inv k])
qed

lemma run_inv:
  assumes inv: "server_inv h s" and k: "k < sv_conns s" and m: "m \<in> set (sc_running (sv_conn s k))"
  shows "server_inv h (serveRequest_run h ms s k m)"
proof -
  have cn: "sconn_inv h (sv_conn s k)" and le: "sv_workers s \<le> sv_Concurrency s"
    using inv k by (auto simp: server_inv_def)
  have b: "busy (sv_conn s k) \<le> sv_workers s" by (rule busy_le [OF inv k])
  have r: "Suc (length (remove1 m (sc_running (sv_conn s k)))) = length (sc_running (sv_conn s k))"
    by (rule remove1_busy [OF m])
  have wr: "wanted (map asked (sc_running (sv_conn s k))) = (if sm_ID m \<noteq> 0 then {#asked m#} else {#})
      + wanted (map asked (remove1 m (sc_running (sv_conn s k))))"
    using wanted_remove1 [OF m, of asked] by (simp add: asked_def)
  show ?thesis
    using cn le b r wr
    by (auto simp: serveRequest_run_def Let_def sconn_inv_def in_hand_def outcome_def busy_def
        asked_def [of m] answer_def [of _ _ "(sm_ID m, sm_Request m)"]
        split: option.splits prod.splits intro!: server_inv_sets [OF inv k])
qed

lemma respond_inv:
  assumes inv: "server_inv h s" and k: "k < sv_conns s" and m: "m \<in> set (sc_ready (sv_conn s k))"
    and s': "serveRequest_send s k m = Some s'"
  shows "server_inv h s'"
proof -
  have cn: "sconn_inv h (sv_conn s k)" and le: "sv_workers s \<le> sv_Concurrency s"
    using inv k by (auto simp: server_inv_def)
  have b: "busy (sv_conn s k) \<le> sv_workers s" by (rule busy_le [OF inv k])
  have r: "Suc (length (remove1 m (sc_ready (sv_conn s k)))) = length (sc_ready (sv_conn s k))"
    by (rule remove1_busy [OF m])
  note wr = mset_map_remove1 [OF m, of outcome]
  show ?thesis
    using s' cn le b r wr
    by (auto simp: serveRequest_send_def Let_def sconn_inv_def in_hand_def busy_def
        split: if_splits intro!: server_inv_sets [OF inv k])
qed

text \<open>The message variable, clean, with the fields of an outcome set.\<close>

lemma filled_response:
  "rp_Headers wr = None \<Longrightarrow> rp_Body wr = empty_body \<Longrightarrow>
    (case sm_Response m of None \<Rightarrow> wr\<lparr>rp_ID := sm_ID m, rp_Error := sm_Error m\<rparr>
     | Some r \<Rightarrow> wr\<lparr>rp_ID := sm_ID m, rp_Error := sm_Error m, rp_Body := res_Body r, rp_Headers := res_Headers r\<rparr>)
    = response_of (outcome m)"
  by (cases "sm_Response m") (simp_all add: response_of_def outcome_def new_response_def)

lemma send_inv:
  assumes inv: "server_inv h s" and k: "k < sv_conns s" and w: "\<not> sc_wdone (sv_conn s k)"
    and s': "serverWriter_message env rnd reg impl s k = Some s'"
  shows "server_inv h s'"
proof -
  have cn: "sconn_inv h (sv_conn s k)" and le: "sv_workers s \<le> sv_Concurrency s"
    using inv k by (auto simp: server_inv_def)
  have clean: "rp_Headers (sc_wr (sv_conn s k)) = None" "rp_Body (sc_wr (sv_conn s k)) = empty_body"
    using cn w by (simp_all add: sconn_inv_def)
  obtain m rest where ch: "sc_chan (sv_conn s k) = m # rest"
    using s' by (auto simp: serverWriter_message_def Let_def split: list.splits)
  obtain er e' b where enc: "EncodeResponse env rnd reg impl (sc_e (sv_conn s k)) (response_of (outcome m)) = Some (er, e', b)"
    using s' unfolding serverWriter_message_def Let_def ch list.case filled_response [OF clean]
    by (cases "EncodeResponse env rnd reg impl (sc_e (sv_conn s k)) (response_of (outcome m))") auto
  show ?thesis
    using s' cn le
    unfolding serverWriter_message_def Let_def ch list.case filled_response [OF clean] enc
    by (cases er) (auto simp: sconn_inv_def in_hand_def busy_def ch intro!: server_inv_sets [OF inv k])
qed

lemma new_sconn_inv: "sconn_inv h (new_sconn addr d e)" "busy (new_sconn addr d e) = 0"
  by (simp_all add: sconn_simps new_sconn_def new_response_def)

lemma handle_connection_inv:
  "server_inv h s \<Longrightarrow> server_inv h (serverHandleConnection s addr d e oe hs)"
  by (auto simp: serverHandleConnection_def server_inv_def new_sconn_inv less_Suc_eq split: option.splits)

lemma server_step_inv:
  assumes "server_step rnd reg impl h s s'" "server_inv h s"
  shows "server_inv h s'"
  using assms
proof (cases rule: server_step.cases)
  case (write_stop k)
  then have "sconn_inv h (sv_conn s k)" using assms(2) by (simp add: server_inv_def)
  then show ?thesis
    unfolding write_stop(1) by (intro server_inv_set [OF assms(2) write_stop(2)]) (simp_all add: sconn_simps)
next
  case (close_conn k)
  then have "sconn_inv h (sv_conn s k)" using assms(2) by (simp add: server_inv_def)
  then show ?thesis
    using close_conn(2)
    by (auto simp: serverHandleConnection_stop_def Let_def sconn_simps split: if_splits
        intro!: server_inv_set [OF assms(2) close_conn(1)])
next
  case (accept err s1 ok addr d e oe hs)
  have "server_inv h s1"
    using accept(3) assms(2) by (auto simp: serverHandler_accept_def server_inv_def Let_def split: option.splits)
  then show ?thesis
    unfolding accept(1) by (simp add: handle_connection_inv)
next
  case stop
  then show ?thesis using assms(2) by (simp add: server_inv_def)
qed (auto intro: assms(2) decode_inv spawn_inv read_stop_inv run_inv respond_inv send_inv)

lemma server_reach_inv: "server_reach rnd reg impl h s \<Longrightarrow> server_inv h s"
proof (induction rule: server_reach.induct)
  case (start c p cs)
  show ?case by (simp add: server_inv_def server_start_def)
qed (rule server_step_inv)

section \<open>Progress\<close>

text \<open>
  What is left to do on a connection, weighted by how far it is from the encoder, and the steps
  that reduce it without reading a new request or changing who is connected.
\<close>

definition quiet :: "'h sconn \<Rightarrow> bool" where
  "quiet cn \<longleftrightarrow> sc_waiting cn = None \<and> sc_running cn = [] \<and> sc_ready cn = [] \<and> (sc_wdone cn \<or> sc_chan cn = [])"

definition conn_work :: "'h sconn \<Rightarrow> nat" where
  "conn_work cn = (if sc_waiting cn = None then 0 else 8) + 6 * length (sc_running cn) + 4 * length (sc_ready cn)
     + (if sc_wdone cn then 0 else 2 * length (sc_chan cn)) + (if sc_wdone cn \<and> \<not> sc_stop cn then 1 else 0)"

definition total_work :: "'h server \<Rightarrow> nat" where
  "total_work s = (\<Sum>k\<in>{..<sv_conns s}. conn_work (sv_conn s k))"

definition advances :: "'h server \<Rightarrow> 'h server \<Rightarrow> bool" where
  "advances s s' \<longleftrightarrow> sv_Concurrency s' = sv_Concurrency s \<and> sv_PendingResponses s' = sv_PendingResponses s
     \<and> sv_conns s' = sv_conns s \<and> total_work s' < total_work s
     \<and> (\<forall>k. sc_received (sv_conn s' k) = sc_received (sv_conn s k) \<and> sc_addr (sv_conn s' k) = sc_addr (sv_conn s k))"

lemma advancesI:
  assumes "k < sv_conns s" "conn_work cn < conn_work (sv_conn s k)"
    and "sc_received cn = sc_received (sv_conn s k)" "sc_addr cn = sc_addr (sv_conn s k)"
  shows "advances s (set_sconn s k cn)"
    and "advances s ((set_sconn s k cn)\<lparr>sv_workers := w\<rparr>)"
    and "advances s ((set_sconn s k cn)\<lparr>sv_stat := st\<rparr>)"
    and "advances s ((set_sconn s k cn)\<lparr>sv_workers := w, sv_stat := st\<rparr>)"
  using sum_fun_upd [OF assms(1), of conn_work "sv_conn s" cn] assms
  by (auto simp: advances_def total_work_def)

lemma run_advances:
  assumes "k < sv_conns s" and m: "m \<in> set (sc_running (sv_conn s k))"
  shows "advances s (serveRequest_run h ms s k m)"
  using assms(1) remove1_busy [OF m]
  by (auto simp: serveRequest_run_def Let_def conn_work_def split: prod.splits intro!: advancesI)

lemma send_advances:
  assumes "k < sv_conns s" "serveRequest_send s k m = Some s'" and m: "m \<in> set (sc_ready (sv_conn s k))"
  shows "advances s s'"
  using assms(1,2) remove1_busy [OF m]
  by (auto simp: serveRequest_send_def Let_def conn_work_def split: if_splits intro!: advancesI)

lemma writer_advances:
  "k < sv_conns s \<Longrightarrow> \<not> sc_wdone (sv_conn s k) \<Longrightarrow>
     serverWriter_message env rnd reg impl s k = Some s' \<Longrightarrow> advances s s'"
  by (auto simp: serverWriter_message_def Let_def conn_work_def
      split: list.splits option.splits prod.splits intro!: advancesI)

lemma spawn_advances:
  "k < sv_conns s \<Longrightarrow> serverReader_spawn s k = Some s' \<Longrightarrow> advances s s'"
  by (auto simp: serverReader_spawn_def Let_def conn_work_def split: option.splits if_splits intro!: advancesI)

lemma stop_advances:
  "k < sv_conns s \<Longrightarrow> sc_wdone (sv_conn s k) \<Longrightarrow> \<not> sc_stop (sv_conn s k) \<Longrightarrow>
     serverHandleConnection_stop s k = Some s' \<Longrightarrow> advances s s'"
  by (auto simp: serverHandleConnection_stop_def Let_def conn_work_def split: if_splits intro!: advancesI)

lemma writer_returns:
  assumes "\<And>e wr. EncodeResponse env rnd reg impl e wr \<noteq> None" "sc_chan (sv_conn s k) \<noteq> []"
  obtains s' where "serverWriter_message env rnd reg impl s k = Some s'"
proof (cases "sc_chan (sv_conn s k)")
  case (Cons m rest)
  let ?wr0 = "(sc_wr (sv_conn s k))\<lparr>rp_ID := sm_ID m, rp_Error := sm_Error m\<rparr>"
  let ?wr = "case sm_Response m of None \<Rightarrow> ?wr0
    | Some r \<Rightarrow> ?wr0\<lparr>rp_Body := res_Body r, rp_Headers := res_Headers r\<rparr>"
  obtain er e' b where enc: "EncodeResponse env rnd reg impl (sc_e (sv_conn s k)) ?wr = Some (er, e', b)"
    using assms(1) [of "sc_e (sv_conn s k)" ?wr] by (cases "EncodeResponse env rnd reg impl (sc_e (sv_conn s k)) ?wr") auto
  have "serverWriter_message env rnd reg impl s k \<noteq> None"
    unfolding serverWriter_message_def Let_def Cons list.case enc by (cases er) simp_all
  then show ?thesis using that by blast
qed (use assms in simp)

lemma respond_or_wait:
  assumes k: "k < sv_conns s" and m: "sc_ready (sv_conn s k) = m # ms" and p: "0 < sv_PendingResponses s"
    and ret: "\<And>e wr. EncodeResponse env rnd reg impl e wr \<noteq> None"
  shows "\<exists>s'. server_step rnd reg impl h s s' \<and> advances s s'"
proof (cases "\<exists>s'. serveRequest_send s k m = Some s'")
  case True
  then obtain s' where s': "serveRequest_send s k m = Some s'" by blast
  have "m \<in> set (sc_ready (sv_conn s k))" using m by simp
  then show ?thesis
    using server_step.respond [OF k _ s'] send_advances [OF k s'] by blast
next
  case False
  then have full: "sc_chan (sv_conn s k) \<noteq> []" "\<not> sc_stop (sv_conn s k)"
    using p by (auto simp: serveRequest_send_def Let_def split: if_splits)
  show ?thesis
  proof (cases "sc_wdone (sv_conn s k)")
    case True
    then obtain s' where "serverHandleConnection_stop s k = Some s'"
      by (simp add: serverHandleConnection_stop_def Let_def)
    then show ?thesis
      using k True full by (blast intro: server_step.close_conn stop_advances)
  next
    case False
    obtain s' where "serverWriter_message env rnd reg impl s k = Some s'"
      using writer_returns [OF ret full(1)] .
    then show ?thesis
      using k False by (blast intro: server_step.send writer_advances)
  qed
qed

lemma server_progress:
  assumes inv: "server_inv h s" and pos: "0 < sv_Concurrency s" "0 < sv_PendingResponses s"
    and ret: "\<And>e wr. EncodeResponse env rnd reg impl e wr \<noteq> None"
    and busyc: "\<not> (\<forall>k < sv_conns s. quiet (sv_conn s k))"
  shows "\<exists>s'. server_step rnd reg impl h s s' \<and> advances s s'"
proof -
  consider (run) k m ms where "k < sv_conns s" "sc_running (sv_conn s k) = m # ms"
    | (ready) k m ms where "k < sv_conns s" "sc_ready (sv_conn s k) = m # ms"
    | (chan) k where "k < sv_conns s" "\<not> sc_wdone (sv_conn s k)" "sc_chan (sv_conn s k) \<noteq> []"
    | (wait) k m where "k < sv_conns s" "sc_waiting (sv_conn s k) = Some m"
        "\<forall>j < sv_conns s. sc_running (sv_conn s j) = [] \<and> sc_ready (sv_conn s j) = []"
    using busyc unfolding quiet_def by (metis neq_Nil_conv not_None_eq)
  then show ?thesis
  proof cases
    case run
    then have "m \<in> set (sc_running (sv_conn s k))" by simp
    then show ?thesis using run(1) by (blast intro: server_step.run run_advances)
  next
    case ready
    then show ?thesis using respond_or_wait [OF _ _ pos(2) ret] by blast
  next
    case chan
    obtain s' where "serverWriter_message env rnd reg impl s k = Some s'"
      using writer_returns [OF ret chan(3)] .
    then show ?thesis using chan by (blast intro: server_step.send writer_advances)
  next
    case wait
    have "sv_workers s = 0" using inv wait(3) by (simp add: server_inv_def busy_def)
    then obtain s' where "serverReader_spawn s k = Some s'"
      using wait(2) pos(1) by (simp add: serverReader_spawn_def Let_def)
    then show ?thesis using wait(1) by (blast intro: server_step.spawn spawn_advances)
  qed
qed

lemma server_drains_aux:
  assumes ret: "\<And>e wr. EncodeResponse env rnd reg impl e wr \<noteq> None"
  shows "server_inv h s \<Longrightarrow> 0 < sv_Concurrency s \<Longrightarrow> 0 < sv_PendingResponses s \<Longrightarrow>
     \<exists>s'. (server_step rnd reg impl h)\<^sup>*\<^sup>* s s' \<and> (\<forall>k < sv_conns s. quiet (sv_conn s' k))
       \<and> sv_conns s' = sv_conns s
       \<and> (\<forall>k. sc_received (sv_conn s' k) = sc_received (sv_conn s k) \<and> sc_addr (sv_conn s' k) = sc_addr (sv_conn s k))"
proof (induction "total_work s" arbitrary: s rule: less_induct)
  case less
  show ?case
  proof (cases "\<forall>k < sv_conns s. quiet (sv_conn s k)")
    case True
    then show ?thesis by blast
  next
    case False
    obtain s1 where s1: "server_step rnd reg impl h s s1" "advances s s1"
      using server_progress [OF less(2-4) ret False] by blast
    have "server_inv h s1" by (rule server_step_inv [OF s1(1) less(2)])
    then show ?thesis
      using less(1) [of s1] less(3,4) s1 unfolding advances_def
      by (metis converse_rtranclp_into_rtranclp)
  qed
qed

lemma server_steps_inv: "(server_step rnd reg impl h)\<^sup>*\<^sup>* s s' \<Longrightarrow> server_inv h s \<Longrightarrow> server_inv h s'"
  by (induction rule: rtranclp_induct) (auto intro: server_step_inv)

section \<open>What the server guarantees\<close>

lemma hb_patch_length:
  "idx + length line \<le> length (hb_data b) \<Longrightarrow> length (hb_data (hb_patch b arr idx line)) = length (hb_data b)"
  by (simp add: hb_patch_def)

lemma EncodeResponse_bodyless:
  assumes "rp_Headers resp = None" "b_Size (rp_Body resp) = 0"
    and small: "length (hb_data (e_buf e)) + startLineSize + length (rp_Error resp) < headerBufferSize"
  shows "\<exists>e' b'. EncodeResponse env rnd reg impl e resp = Some (None, e', b') \<and> e_w e' = e_w e
     \<and> length (hb_data (e_buf e')) = length (hb_data (e_buf e)) + startLineSize + length (rp_Error resp)"
proof -
  obtain b where b: "encodeResponseHeaders rnd reg impl e resp = (None, e\<lparr>e_buf := b\<rparr>)"
      "length (hb_data b) = length (hb_data (e_buf e)) + startLineSize + length (rp_Error resp)"
    using assms(1)
    by (auto simp: encodeResponseHeaders_def put_headers_def Let_def startLineSize_def hb_patch_length
        put_responseLine_def)
  then show ?thesis
    using small assms(2)
    by (auto simp: EncodeResponse_def flush_before_def flush_full_def encode_body_def)
qed

lemma EncodeResponse_no_splice:
  assumes "se_dst_raw env \<noteq> None"
  shows "EncodeResponse env rnd reg impl e wr \<noteq> None"
proof -
  have "spliceTo env w b = Some (False, None, w, b)" for w b using assms by (auto simp: spliceTo_def)
  then have "encode_body env e b \<noteq> None" for e b
    by (simp add: encode_body_def split: option.splits prod.splits)
  then show ?thesis
    by (auto simp: EncodeResponse_def split: option.splits prod.splits)
qed

text \<open>
  C16. However the goroutines of all connections interleave, at most \<open>Concurrency\<close> requests are
  being handled or wait to hand in their response at a time.
\<close>

theorem server_concurrency_bound:
  assumes "server_reach rnd reg impl h s"
  shows "(\<Sum>k\<in>{..<sv_conns s}. length (sc_running (sv_conn s k)) + length (sc_ready (sv_conn s k)))
     \<le> sv_Concurrency s"
  using server_reach_inv [OF assms] by (simp add: server_inv_def busy_def)

text \<open>
  C9. No request is answered twice, none with a message id of 0 is answered, and every message
  passed to \<open>EncodeResponse\<close> carries the id of a request that was received on the same connection
  and exactly the headers, body and error that the handler returned for it, with nothing left from
  an earlier response: the messages encoded are a sub-multiset of those due.
\<close>

theorem server_answers_from_handler:
  assumes "server_reach rnd reg impl h s" "k < sv_conns s"
  shows "mset (sc_encoded (sv_conn s k)) \<subseteq>#
     image_mset (response_of \<circ> answer h (sc_addr (sv_conn s k))) (wanted (sc_received (sv_conn s k)))"
proof -
  have inv: "sconn_inv h (sv_conn s k)" using server_reach_inv [OF assms(1)] assms(2) by (simp add: server_inv_def)
  then have "mset (sc_written (sv_conn s k)) \<subseteq>#
      image_mset (answer h (sc_addr (sv_conn s k))) (wanted (sc_received (sv_conn s k)))"
    by (simp add: sconn_inv_def)
  from image_mset_subseteq_mono [OF this, of response_of] show ?thesis
    using inv by (simp add: sconn_inv_def multiset.map_comp)
qed

text \<open>
  C10. The server cannot get stuck: if encoding a response always returns, then from every reachable
  state there is a way for the goroutines to go on without reading another request until no
  request waits, runs or is ready on any connection, and on every connection whose writer is still
  alive each request that wants an answer has been answered or, because the connection was being
  closed, its answer dropped. What was encoded are the messages of the answers written.
\<close>

theorem server_drains:
  assumes "server_reach rnd reg impl h s" "0 < sv_Concurrency s" "0 < sv_PendingResponses s"
    and "\<And>e wr. EncodeResponse env rnd reg impl e wr \<noteq> None"
  shows "\<exists>s'. (server_step rnd reg impl h)\<^sup>*\<^sup>* s s' \<and> sv_conns s' = sv_conns s \<and>
     (\<forall>k < sv_conns s. quiet (sv_conn s' k) \<and> sc_received (sv_conn s' k) = sc_received (sv_conn s k) \<and>
        (sc_wdone (sv_conn s' k) \<or>
         image_mset (answer h (sc_addr (sv_conn s' k))) (wanted (sc_received (sv_conn s' k)))
           = mset (sc_written (sv_conn s' k)) + mset (sc_dropped (sv_conn s' k)))
        \<and> sc_encoded (sv_conn s' k) = map response_of (sc_written (sv_conn s' k)))"
proof -
  have inv: "server_inv h s" by (rule server_reach_inv [OF assms(1)])
  obtain s' where s': "(server_step rnd reg impl h)\<^sup>*\<^sup>* s s'" "\<forall>k < sv_conns s. quiet (sv_conn s' k)"
      "sv_conns s' = sv_conns s"
      "\<forall>k. sc_received (sv_conn s' k) = sc_received (sv_conn s k) \<and> sc_addr (sv_conn s' k) = sc_addr (sv_conn s k)"
    using server_drains_aux [OF assms(4) inv assms(2,3)] by blast
  have "server_inv h s'" by (rule server_steps_inv [OF s'(1) inv])
  then have "\<forall>k < sv_conns s. sconn_inv h (sv_conn s' k)" using s'(3) by (simp add: server_inv_def)
  then show ?thesis
    using s' by (intro exI [of _ s']) (auto simp: quiet_def sconn_inv_def in_hand_def)
qed

text \<open>One response without headers and body, through a writer whose message variable is clean.\<close>

lemma writer_bodyless:
  assumes clean: "rp_Headers (sc_wr (sv_conn s k)) = None" "rp_Body (sc_wr (sv_conn s k)) = empty_body"
    and chan: "sc_chan (sv_conn s k) = m # rest"
    and resp: "case sm_Response m of None \<Rightarrow> True | Some r \<Rightarrow> res_Headers r = None \<and> b_Size (res_Body r) = 0"
    and small: "length (hb_data (e_buf (sc_e (sv_conn s k)))) + startLineSize + length (sm_Error m) < headerBufferSize"
  shows "\<exists>e' wr. serverWriter_message env rnd reg impl s k =
       Some ((set_sconn s k ((sv_conn s k)\<lparr>sc_chan := rest, sc_e := e',
           sc_wr := wr, sc_written := outcome m # sc_written (sv_conn s k),
           sc_encoded := response_of (outcome m) # sc_encoded (sv_conn s k)\<rparr>))\<lparr>sv_stat := incRPCCalls (sv_stat s)\<rparr>)
     \<and> e_w e' = e_w (sc_e (sv_conn s k))
     \<and> length (hb_data (e_buf e'))
         = length (hb_data (e_buf (sc_e (sv_conn s k)))) + startLineSize + length (sm_Error m)"
proof -
  let ?wr0 = "(sc_wr (sv_conn s k))\<lparr>rp_ID := sm_ID m, rp_Error := sm_Error m\<rparr>"
  let ?wr = "case sm_Response m of None \<Rightarrow> ?wr0
    | Some r \<Rightarrow> ?wr0\<lparr>rp_Body := res_Body r, rp_Headers := res_Headers r\<rparr>"
  have wr: "rp_Headers ?wr = None" "b_Size (rp_Body ?wr) = 0" "rp_Error ?wr = sm_Error m"
    using resp clean by (auto simp: empty_body_def split: option.splits)
  have small': "length (hb_data (e_buf (sc_e (sv_conn s k)))) + startLineSize + length (rp_Error ?wr) < headerBufferSize"
    unfolding wr(3) by (rule small)
  obtain e' b' where enc: "EncodeResponse env rnd reg impl (sc_e (sv_conn s k)) ?wr = Some (None, e', b')"
    and e': "e_w e' = e_w (sc_e (sv_conn s k))"
      "length (hb_data (e_buf e')) = length (hb_data (e_buf (sc_e (sv_conn s k)))) + startLineSize + length (sm_Error m)"
    using EncodeResponse_bodyless [OF wr(1,2) small', of env rnd reg impl] unfolding wr(3) by blast
  show ?thesis
    unfolding serverWriter_message_def Let_def chan list.case enc using e' filled_response [OF clean, of m] by auto
qed

text \<open>
  C27. A response without headers and body (what the services Noop and ReadMemory return, and every
  error) that leaves the header buffer below its 4096 bytes is counted as sent but does not reach
  the socket: \<open>serverWriter\<close> never flushes, whatever \<open>FlushDelay\<close> says, so the client waits until
  later responses on the connection fill the buffer or carry a body.
\<close>

theorem bodyless_response_stays_buffered:
  assumes "server_reach rnd reg impl h s" "k < sv_conns s" "\<not> sc_wdone (sv_conn s k)"
    and "sc_chan (sv_conn s k) = m # rest"
    and "case sm_Response m of None \<Rightarrow> True | Some r \<Rightarrow> res_Headers r = None \<and> b_Size (res_Body r) = 0"
    and "length (hb_data (e_buf (sc_e (sv_conn s k)))) + startLineSize + length (sm_Error m) < headerBufferSize"
  shows "\<exists>s'. serverWriter_message env rnd reg impl s k = Some s'
     \<and> sc_written (sv_conn s' k) = outcome m # sc_written (sv_conn s k)
     \<and> sv_stat s' = incRPCCalls (sv_stat s)
     \<and> w_out (e_w (sc_e (sv_conn s' k))) = w_out (e_w (sc_e (sv_conn s k)))
     \<and> length (hb_data (e_buf (sc_e (sv_conn s' k))))
         = length (hb_data (e_buf (sc_e (sv_conn s k)))) + startLineSize + length (sm_Error m)"
proof -
  have "rp_Headers (sc_wr (sv_conn s k)) = None" "rp_Body (sc_wr (sv_conn s k)) = empty_body"
    using server_reach_inv [OF assms(1)] assms(2,3) by (auto simp: server_inv_def sconn_inv_def)
  from writer_bodyless [OF this assms(4-6), of env rnd reg impl] show ?thesis by auto
qed

section \<open>A run of the server\<close>

text \<open>
  One connection on which a Noop request with id 7 arrives, one worker slot and room for one
  response: the states after accepting, decoding, spawning, handling and queueing.
\<close>

definition noop_handler :: "ReadHeaders handler" where
  "noop_handler addr req = HReturn (Some \<lparr>res_Headers = None, res_Body = empty_body\<rparr>) None"

definition noop_decoder :: messageDecoder where
  "noop_decoder = newMessageDecoder [put_requestLine \<lparr>ql_Service = 1, ql_HeaderType = 0,
     ql_HeaderSize = 0, ql_ID = 7, ql_BodySize = 0\<rparr>] True zero_stats False"

definition run_accepted :: "ReadHeaders server" where
  "run_accepted = serverHandleConnection
     (fst (serverHandler_accept (server_start 1 1 (\<lambda>_. new_sconn [] noop_decoder (newMessageEncoder 0 open_sock zero_stats))) None))
     [] noop_decoder (newMessageEncoder 0 open_sock zero_stats) None (HsByte 0)"

definition run_decoded :: "ReadHeaders server" where
  "run_decoded = the (serverReader_decode slow_kernel std_registry read_impl run_accepted 0)"

definition run_spawned :: "ReadHeaders server" where
  "run_spawned = the (serverReader_spawn run_decoded 0)"

definition noop_message :: "ReadHeaders serverMessage" where
  "noop_message = \<lparr>sm_ID = 7, sm_Request = \<lparr>req_Service = 1, req_Headers = None,
     req_Body = \<lparr>b_Offset = 0, b_Size = 0, b_Reader = Some noopBody, b_NotClose = False\<rparr>\<rparr>,
     sm_Response = None, sm_Error = []\<rparr>"

definition noop_answered :: "ReadHeaders serverMessage" where
  "noop_answered = noop_message\<lparr>sm_Response := Some \<lparr>res_Headers = None, res_Body = empty_body\<rparr>\<rparr>"

definition run_queued :: "ReadHeaders server" where
  "run_queued = the (serveRequest_send (serveRequest_run noop_handler 0 run_spawned 0 noop_message) 0 noop_answered)"

lemma run_accepted_reach: "server_reach rnd reg impl noop_handler run_accepted"
proof -
  let ?s = "server_start 1 1 (\<lambda>_. new_sconn [] noop_decoder (newMessageEncoder 0 open_sock zero_stats)) :: ReadHeaders server"
  have "server_step rnd reg impl noop_handler ?s run_accepted"
    using server_step.accept [of ?s None "fst (serverHandler_accept ?s None)" True rnd reg impl noop_handler "[]"
        noop_decoder "newMessageEncoder 0 open_sock zero_stats" None "HsByte 0"]
    by (simp add: run_accepted_def serverHandler_accept_def server_start_def)
  then show ?thesis by (blast intro: server_reach.intros)
qed

lemma noop_decodes:
  "map_option fst (DecodeRequest slow_kernel std_registry read_impl noop_decoder new_request) =
     Some (Inr \<lparr>rq_Service = 1, rq_ID = 7, rq_Headers = None, rq_Body = req_Body (sm_Request noop_message)\<rparr>)"
  by code_simp

lemma run_accepted:
  "sv_conn run_accepted 0 = new_sconn [] noop_decoder (newMessageEncoder 0 open_sock zero_stats)"
  "sv_conns run_accepted = 1" "sv_workers run_accepted = 0" "sv_Concurrency run_accepted = 1"
  "sv_PendingResponses run_accepted = 1"
  by (simp_all add: run_accepted_def serverHandleConnection_def serverHandshake_def serverHandler_accept_def
      server_start_def)

lemma decode_noop:
  "\<exists>d. serverReader_decode slow_kernel std_registry read_impl run_accepted 0 =
     Some (set_sconn run_accepted 0 ((sv_conn run_accepted 0)\<lparr>sc_d := d, sc_waiting := Some noop_message,
        sc_received := [(7, sm_Request noop_message)]\<rparr>))"
  using noop_decodes
  by (auto simp: serverReader_decode_def Let_def run_accepted new_sconn_def noop_message_def)

lemma run_decoded_eq:
  "serverReader_decode slow_kernel std_registry read_impl run_accepted 0 = Some run_decoded"
  using decode_noop by (auto simp: run_decoded_def)

lemma run_decoded:
  "sv_conns run_decoded = 1" "sv_workers run_decoded = 0" "sv_Concurrency run_decoded = 1"
  "sv_PendingResponses run_decoded = 1" "sc_waiting (sv_conn run_decoded 0) = Some noop_message"
  "sc_running (sv_conn run_decoded 0) = []" "sc_ready (sv_conn run_decoded 0) = []"
  "sc_chan (sv_conn run_decoded 0) = []" "sc_written (sv_conn run_decoded 0) = []" "sc_encoded (sv_conn run_decoded 0) = []"
  "\<not> sc_wdone (sv_conn run_decoded 0)" "sc_received (sv_conn run_decoded 0) = [(7, sm_Request noop_message)]"
  "sc_addr (sv_conn run_decoded 0) = []"
  "hb_data (e_buf (sc_e (sv_conn run_decoded 0))) = []" "w_out (e_w (sc_e (sv_conn run_decoded 0))) = []"
  using decode_noop
  by (auto simp: run_decoded_def run_accepted new_sconn_def newMessageEncoder_def open_sock_def)

lemma run_spawned_eq: "serverReader_spawn run_decoded 0 = Some run_spawned"
  by (simp add: run_spawned_def serverReader_spawn_def Let_def run_decoded)

lemma run_spawned:
  "sc_running (sv_conn run_spawned 0) = [noop_message]" "sc_ready (sv_conn run_spawned 0) = []"
  "sv_conns run_spawned = 1" "sv_Concurrency run_spawned = 1" "sv_PendingResponses run_spawned = 1"
  by (simp_all add: run_spawned_def serverReader_spawn_def Let_def run_decoded)

lemma noop_message_ID: "sm_ID noop_message = 7"
  by (simp add: noop_message_def)

lemmas run_steps = run_spawned_def serverReader_spawn_def serveRequest_run_def callHandlerWithRecover_def
  noop_handler_def noop_message_ID noop_answered_def Let_def run_decoded

lemma run_ready:
  "sc_ready (sv_conn (serveRequest_run noop_handler 0 run_spawned 0 noop_message) 0) = [noop_answered]"
  "sv_conns (serveRequest_run noop_handler 0 run_spawned 0 noop_message) = 1"
  by (simp_all add: run_steps) (simp_all add: noop_message_def)

lemma run_queued_eq:
  "serveRequest_send (serveRequest_run noop_handler 0 run_spawned 0 noop_message) 0 noop_answered = Some run_queued"
  by (simp add: run_queued_def serveRequest_send_def run_steps)

lemma run_queued:
  "sc_chan (sv_conn run_queued 0) = [noop_answered]" "sv_conns run_queued = 1"
  "\<not> sc_wdone (sv_conn run_queued 0)" "sc_received (sv_conn run_queued 0) = [(7, sm_Request noop_message)]"
  "sc_written (sv_conn run_queued 0) = []" "sc_encoded (sv_conn run_queued 0) = []" "sc_addr (sv_conn run_queued 0) = []"
  "hb_data (e_buf (sc_e (sv_conn run_queued 0))) = []" "w_out (e_w (sc_e (sv_conn run_queued 0))) = []"
  by (simp_all add: run_queued_def serveRequest_send_def run_steps)

lemma noop_outcome: "outcome noop_answered = (7, Some \<lparr>res_Headers = None, res_Body = empty_body\<rparr>, [])"
  by (simp add: outcome_def noop_answered_def noop_message_def)

lemma run_spawned_reach: "server_reach rnd std_registry read_impl noop_handler run_spawned"
proof -
  have "server_reach rnd std_registry read_impl noop_handler run_decoded"
    by (rule server_reach.step [OF run_accepted_reach server_step.decode [OF _ _ _ run_decoded_eq]])
      (simp_all add: run_accepted new_sconn_def)
  then show ?thesis
    by (rule server_reach.step) (rule server_step.spawn [OF _ run_spawned_eq], simp add: run_decoded)
qed

lemma run_queued_reach: "server_reach rnd std_registry read_impl noop_handler run_queued"
proof -
  let ?r = "serveRequest_run noop_handler 0 run_spawned 0 noop_message"
  have "server_reach rnd std_registry read_impl noop_handler ?r"
    by (rule server_reach.step [OF run_spawned_reach server_step.run]) (simp_all add: run_spawned)
  then show ?thesis
    by (rule server_reach.step) (rule server_step.respond [OF _ _ run_queued_eq], simp_all add: run_ready)
qed

text \<open>The writer takes the response; its buffer keeps it.\<close>

lemma run_sent:
  obtains s' where "serverWriter_message slow_kernel (\<lambda>n. n) std_registry read_impl run_queued 0 = Some s'"
    "sc_encoded (sv_conn s' 0) = [new_response\<lparr>rp_ID := 7\<rparr>]"
    "sc_received (sv_conn s' 0) = [(7, sm_Request noop_message)]" "sc_addr (sv_conn s' 0) = []" "sv_conns s' = 1"
proof -
  have "rp_Headers (sc_wr (sv_conn run_queued 0)) = None" "rp_Body (sc_wr (sv_conn run_queued 0)) = empty_body"
    using server_reach_inv [OF run_queued_reach] by (auto simp: server_inv_def sconn_inv_def run_queued)
  moreover have "case sm_Response noop_answered of None \<Rightarrow> True | Some r \<Rightarrow> res_Headers r = None \<and> b_Size (res_Body r) = 0"
    by (simp add: noop_answered_def empty_body_def)
  ultimately obtain e' wr where "serverWriter_message slow_kernel (\<lambda>n. n) std_registry read_impl run_queued 0 =
      Some ((set_sconn run_queued 0 ((sv_conn run_queued 0)\<lparr>sc_chan := [], sc_e := e', sc_wr := wr,
        sc_written := outcome noop_answered # sc_written (sv_conn run_queued 0),
        sc_encoded := response_of (outcome noop_answered) # sc_encoded (sv_conn run_queued 0)\<rparr>))
        \<lparr>sv_stat := incRPCCalls (sv_stat run_queued)\<rparr>)"
    using writer_bodyless [OF _ _ run_queued(1), of slow_kernel "\<lambda>n. n" std_registry read_impl]
    by (auto simp: run_queued noop_answered_def noop_message_def startLineSize_def headerBufferSize_def)
  then show ?thesis
    by (rule that) (simp_all add: run_queued noop_outcome response_of_def new_response_def empty_body_def)
qed

theorem server_concurrency_bound_witness:
  "(\<Sum>k\<in>{..<sv_conns run_spawned}. length (sc_running (sv_conn run_spawned k)) + length (sc_ready (sv_conn run_spawned k)))
       \<le> sv_Concurrency run_spawned
   \<and> length (sc_running (sv_conn run_spawned 0)) = sv_Concurrency run_spawned"
  using server_concurrency_bound [OF run_spawned_reach [of "\<lambda>n. n"]] by (simp add: run_spawned)

theorem server_answers_from_handler_witness:
  "\<exists>s' :: ReadHeaders server. sc_encoded (sv_conn s' 0) = [new_response\<lparr>rp_ID := 7\<rparr>]
   \<and> mset (sc_encoded (sv_conn s' 0))
     \<subseteq># image_mset (response_of \<circ> answer noop_handler []) (wanted [(7, sm_Request noop_message)])"
proof -
  obtain s' where s': "serverWriter_message slow_kernel (\<lambda>n. n) std_registry read_impl run_queued 0 = Some s'"
    "sc_encoded (sv_conn s' 0) = [new_response\<lparr>rp_ID := 7\<rparr>]"
    "sc_received (sv_conn s' 0) = [(7, sm_Request noop_message)]" "sc_addr (sv_conn s' 0) = []" "sv_conns s' = 1"
    using run_sent .
  have "server_reach (\<lambda>n. n) std_registry read_impl noop_handler s'"
    by (rule server_reach.step [OF run_queued_reach server_step.send [OF _ _ s'(1)]]) (simp_all add: run_queued)
  from server_answers_from_handler [OF this, of 0]
  have "mset (sc_encoded (sv_conn s' 0)) \<subseteq># image_mset (response_of \<circ> answer noop_handler []) (wanted [(7, sm_Request noop_message)])"
    unfolding s'(3,4,5) by simp
  with s'(2) show ?thesis by blast
qed

theorem server_drains_witness:
  "\<exists>s'. (server_step (\<lambda>n. n) std_registry read_impl noop_handler)\<^sup>*\<^sup>* run_spawned s'
     \<and> quiet (sv_conn s' 0) \<and> \<not> quiet (sv_conn run_spawned 0)"
proof -
  let ?env = "slow_kernel\<lparr>se_dst_raw := Some EOF\<rparr>"
  have ret: "\<And>e wr. EncodeResponse ?env (\<lambda>n. n) std_registry read_impl e wr \<noteq> None"
    by (rule EncodeResponse_no_splice) simp
  have "\<not> quiet (sv_conn run_spawned 0)" by (simp add: quiet_def run_spawned)
  with server_drains [OF run_spawned_reach _ _ ret] show ?thesis by (auto simp: run_spawned)
qed

theorem bodyless_response_stays_buffered_witness:
  "\<exists>s'. serverWriter_message slow_kernel (\<lambda>n. n) std_registry read_impl run_queued 0 = Some s'
     \<and> sc_written (sv_conn s' 0) = [(7, Some \<lparr>res_Headers = None, res_Body = empty_body\<rparr>, [])]
     \<and> w_out (e_w (sc_e (sv_conn s' 0))) = []"
proof -
  have r: "case sm_Response noop_answered of None \<Rightarrow> True | Some r \<Rightarrow> res_Headers r = None \<and> b_Size (res_Body r) = 0"
    by (simp add: noop_answered_def empty_body_def)
  have small: "length (hb_data (e_buf (sc_e (sv_conn run_queued 0)))) + startLineSize + length (sm_Error noop_answered)
      < headerBufferSize"
    by (simp add: run_queued noop_answered_def noop_message_def startLineSize_def headerBufferSize_def)
  show ?thesis
    using bodyless_response_stays_buffered [OF run_queued_reach [of "\<lambda>n. n"] _ run_queued(3,1) r small, of slow_kernel]
    by (auto simp: run_queued noop_outcome)
qed

end
