(* ===== verification/Rpc_Setup.thy ===== *)
theory Rpc_Setup
  imports Rpc_Client Rpc_Server
begin

text \<open>
  Around the running client and server of \<open>pkg/iorpc\<close>: the settings and \<open>Start\<close> and \<open>Stop\<close> of both
  (\<open>client.go\<close>, \<open>server.go\<close>), the constructors and listeners of \<open>transport.go\<close>, the pooled timers and
  the flush channel of \<open>common.go\<close>, the client's dial loop and handshake, and the blocking \<open>CallTimeout\<close>.
  Durations are in nanoseconds.
\<close>

section \<open>Defaults\<close>

definition DefaultConcurrency :: int where
  "DefaultConcurrency = 8 * 1024"

definition DefaultRequestTimeout :: int where
  "DefaultRequestTimeout = 20 * 10 ^ 9"

definition DefaultPendingMessages :: int where
  "DefaultPendingMessages = 32 * 1024"

definition DefaultFlushDelay :: int where
  "DefaultFlushDelay = - 1"

definition DefaultBufferSize :: int where
  "DefaultBufferSize = 64 * 1024"

lemmas defaults = DefaultConcurrency_def DefaultRequestTimeout_def DefaultPendingMessages_def
  DefaultFlushDelay_def DefaultBufferSize_def

text \<open>\<open>if x <= 0 { x = d }\<close>\<close>

definition at_least_1 :: "int \<Rightarrow> int \<Rightarrow> int" where
  "at_least_1 d x = (if x \<le> 0 then d else x)"

section \<open>The client\<close>

datatype dial_func = DefaultDial | UnixDial | CustomDial nat

record client_conf =
  cc_Addr :: string
  cc_Conns :: int
  cc_PendingRequests :: int
  cc_FlushDelay :: int
  cc_RequestTimeout :: int
  cc_DisableCompression :: bool
  cc_SendBufferSize :: int
  cc_RecvBufferSize :: int
  cc_Dial :: "dial_func option"
  cc_LogError :: bool
  cc_CloseBody :: bool
  cc_requestsChan :: "int option"
  cc_stopChan :: bool
  cc_handlers :: nat

definition blank_client :: client_conf where
  "blank_client = \<lparr>cc_Addr = [], cc_Conns = 0, cc_PendingRequests = 0, cc_FlushDelay = 0, cc_RequestTimeout = 0,
     cc_DisableCompression = False, cc_SendBufferSize = 0, cc_RecvBufferSize = 0, cc_Dial = None,
     cc_LogError = False, cc_CloseBody = False, cc_requestsChan = None, cc_stopChan = False, cc_handlers = 0\<rparr>"

definition NewTCPClient :: "string \<Rightarrow> client_conf" where
  "NewTCPClient addr = blank_client\<lparr>cc_Addr := addr, cc_Dial := Some DefaultDial\<rparr>"

definition NewUnixClient :: "string \<Rightarrow> client_conf" where
  "NewUnixClient addr = blank_client\<lparr>cc_Addr := addr, cc_Dial := Some UnixDial, cc_DisableCompression := True, cc_FlushDelay := - 1\<rparr>"

text \<open>
  \<open>Start\<close> keeps a queue's capacity in \<open>cc_requestsChan\<close> and the number of \<open>clientHandler\<close> goroutines.
  The queue is a new one at every start.
\<close>

definition Client_Start :: "client_conf \<Rightarrow> go_error + client_conf" where
  "Client_Start c0 =
     (let c = c0\<lparr>cc_LogError := True\<rparr> in
      if cc_stopChan c then Inl (Panic ''gorpc.Client: the given client is already started'')
      else let c1 = c\<lparr>cc_PendingRequests := at_least_1 DefaultPendingMessages (cc_PendingRequests c),
                      cc_FlushDelay := (if cc_FlushDelay c = 0 then DefaultFlushDelay else cc_FlushDelay c),
                      cc_RequestTimeout := at_least_1 DefaultRequestTimeout (cc_RequestTimeout c),
                      cc_SendBufferSize := at_least_1 DefaultBufferSize (cc_SendBufferSize c),
                      cc_RecvBufferSize := at_least_1 DefaultBufferSize (cc_RecvBufferSize c)\<rparr>;
               c2 = c1\<lparr>cc_requestsChan := Some (cc_PendingRequests c1), cc_stopChan := True,
                       cc_Conns := at_least_1 1 (cc_Conns c1),
                       cc_Dial := (case cc_Dial c1 of None \<Rightarrow> Some DefaultDial | Some d \<Rightarrow> Some d)\<rparr> in
           Inr (c2\<lparr>cc_handlers := cc_handlers c2 + nat (cc_Conns c2)\<rparr>))"

text \<open>\<open>Stop\<close> returns when every handler has.\<close>

definition Client_Stop :: "client_conf \<Rightarrow> go_error + client_conf" where
  "Client_Stop c =
     (if \<not> cc_stopChan c then Inl (Panic ''gorpc.Client: the client must be started before stopping it'')
      else Inr (c\<lparr>cc_handlers := 0, cc_stopChan := False\<rparr>))"

definition PendingRequestsCount :: "'h client \<Rightarrow> nat" where
  "PendingRequestsCount c = unat (c_count c) + length (c_requestsChan c)"

text \<open>
  One turn of \<open>clientHandler\<close>: dial, unless the client stops first; after a failure wait a second,
  unless the client stops; otherwise handle the connection until it ends (\<open>HandleConn\<close>).
\<close>

datatype handler_turn = HandlerReturns | DialAgain | HandleConn

definition clientHandler_turn :: "conn_stats \<Rightarrow> bool \<Rightarrow> go_error option \<Rightarrow> bool \<Rightarrow> conn_stats \<times> handler_turn" where
  "clientHandler_turn st stop_first dialErr stop_asleep =
     (if stop_first then (st, HandlerReturns)
      else let st1 = incDialCalls st in
           case dialErr of
             Some e \<Rightarrow> (incDialErrors st1, if stop_asleep then HandlerReturns else DialAgain)
           | None \<Rightarrow> (st1, HandleConn))"

text \<open>
  The start of \<open>clientHandleConnection\<close>: the callback may refuse or wrap the connection, then one byte
  is written. \<open>None\<close>: the connection was closed.
\<close>

definition client_handshake :: "client_conf \<Rightarrow> go_error option \<Rightarrow> writer \<Rightarrow> writer option" where
  "client_handshake c onConnectErr w =
     (case onConnectErr of
        Some e \<Rightarrow> None
      | None \<Rightarrow>
          (case w_write w [if \<not> cc_DisableCompression c then 1 else 0] of
             (w', n, Some e) \<Rightarrow> None
           | (w', n, None) \<Rightarrow> Some w'))"

text \<open>\<open>CallTimeout\<close> after its call was accepted: the result's channel is closed, or the timer fires.\<close>

datatype call_event = CallDone | CallTimer

definition CallTimeout_select :: "'h client \<Rightarrow> nat \<Rightarrow> call_event \<Rightarrow>
    ('h client \<times> 'h response option \<times> client_error option) option" where
  "CallTimeout_select c m ev =
     (case ev of
        CallDone \<Rightarrow>
          if ar_done (c_heap c m) = Closed
          then Some (releaseAsyncResult c m, Some (ar_Response (c_heap c m)), ar_Error (c_heap c m))
          else None
      | CallTimer \<Rightarrow> Some (Cancel c m, None, Some CE_Timeout))"

section \<open>Listeners\<close>

text \<open>
  The two listeners: the TCP one, which also sets keep-alive on what it accepts, and the one around
  \<open>net.Listen\<close>. \<open>ln_L\<close> is the socket, if \<open>Init\<close> made one, and whether it is still open.
\<close>

datatype listener_kind = defaultListener | netListener

record listener =
  ln_kind :: listener_kind
  ln_L :: "bool option"

type_synonym net_listen = "listener_kind \<Rightarrow> string \<Rightarrow> go_error option"

definition ln_Init :: "net_listen \<Rightarrow> string \<Rightarrow> listener \<Rightarrow> go_error option \<times> listener" where
  "ln_Init net addr ln =
     (case net (ln_kind ln) addr of
        Some e \<Rightarrow> (Some e, ln\<lparr>ln_L := None\<rparr>)
      | None \<Rightarrow> (None, ln\<lparr>ln_L := Some True\<rparr>))"

definition ListenAddr :: "listener \<Rightarrow> bool" where
  "ListenAddr ln = (ln_L ln \<noteq> None)"

text \<open>\<open>setupKeepalive\<close> with the answers of the two socket options.\<close>

definition setupKeepalive :: "go_error option \<Rightarrow> go_error option \<Rightarrow> go_error option" where
  "setupKeepalive onErr periodErr = (case onErr of Some e \<Rightarrow> Some e | None \<Rightarrow> periodErr)"

text \<open>\<open>Accept\<close> of a socket: an error, or a connection with the answers of its socket options. The
  address is that of the peer.\<close>

datatype accepted = AcceptErr go_error | AcceptConn string "go_error option" "go_error option"

definition ln_Accept :: "accepted \<Rightarrow> listener \<Rightarrow> go_error + string" where
  "ln_Accept a ln =
     (case ln_L ln of
        None \<Rightarrow> Inl (Panic ''nil pointer dereference'')
      | Some False \<Rightarrow> Inl (ErrMsg ''use of closed network connection'')
      | Some True \<Rightarrow>
          (case a of
             AcceptErr e \<Rightarrow> Inl e
           | AcceptConn addr k1 k2 \<Rightarrow>
               (case ln_kind ln of
                  netListener \<Rightarrow> Inr addr
                | defaultListener \<Rightarrow> (case setupKeepalive k1 k2 of Some e \<Rightarrow> Inl e | None \<Rightarrow> Inr addr))))"

definition ln_Close :: "listener \<Rightarrow> go_error option \<times> listener" where
  "ln_Close ln =
     (case ln_L ln of
        None \<Rightarrow> (Some (Panic ''nil pointer dereference''), ln)
      | Some False \<Rightarrow> (Some (ErrMsg ''use of closed network connection''), ln)
      | Some True \<Rightarrow> (None, ln\<lparr>ln_L := Some False\<rparr>))"

section \<open>The server\<close>

record server_conf =
  sf_Addr :: string
  sf_Handler :: bool
  sf_Concurrency :: int
  sf_FlushDelay :: int
  sf_PendingResponses :: int
  sf_SendBufferSize :: int
  sf_RecvBufferSize :: int
  sf_Listener :: "listener option"
  sf_LogError :: bool
  sf_CloseBody :: bool
  sf_stopChan :: bool
  sf_workersCh :: "int option"
  sf_running :: nat

definition blank_server :: server_conf where
  "blank_server = \<lparr>sf_Addr = [], sf_Handler = False, sf_Concurrency = 0, sf_FlushDelay = 0, sf_PendingResponses = 0,
     sf_SendBufferSize = 0, sf_RecvBufferSize = 0, sf_Listener = None, sf_LogError = False, sf_CloseBody = False,
     sf_stopChan = False, sf_workersCh = None, sf_running = 0\<rparr>"

definition NewTCPServer :: "string \<Rightarrow> server_conf" where
  "NewTCPServer addr = blank_server\<lparr>sf_Addr := addr, sf_Handler := True,
     sf_Listener := Some \<lparr>ln_kind = defaultListener, ln_L = None\<rparr>\<rparr>"

definition NewUnixServer :: "string \<Rightarrow> server_conf" where
  "NewUnixServer addr = blank_server\<lparr>sf_Addr := addr, sf_Handler := True,
     sf_Listener := Some \<lparr>ln_kind = netListener, ln_L = None\<rparr>, sf_FlushDelay := - 1\<rparr>"

text \<open>\<open>Start\<close> changes the server even when it fails, so the result has the error and the server.\<close>

definition server_defaults :: "server_conf \<Rightarrow> server_conf" where
  "server_defaults s =
     s\<lparr>sf_stopChan := True,
       sf_Concurrency := at_least_1 DefaultConcurrency (sf_Concurrency s),
       sf_FlushDelay := (if sf_FlushDelay s = 0 then DefaultFlushDelay else sf_FlushDelay s),
       sf_PendingResponses := at_least_1 DefaultPendingMessages (sf_PendingResponses s),
       sf_SendBufferSize := at_least_1 DefaultBufferSize (sf_SendBufferSize s),
       sf_RecvBufferSize := at_least_1 DefaultBufferSize (sf_RecvBufferSize s)\<rparr>"

definition Server_Start :: "net_listen \<Rightarrow> server_conf \<Rightarrow> go_error option \<times> server_conf" where
  "Server_Start net s0 =
     (let s = s0\<lparr>sf_LogError := True\<rparr> in
      if \<not> sf_Handler s then (Some (Panic ''gorpc.Server: Server.Handler cannot be nil''), s)
      else if sf_stopChan s then (Some (Panic ''gorpc.Server: server is already running''), s)
      else
        (let s1 = server_defaults s;
             ln = (case sf_Listener s1 of None \<Rightarrow> \<lparr>ln_kind = defaultListener, ln_L = None\<rparr> | Some ln \<Rightarrow> ln);
             (err, ln') = (if ListenAddr ln then (None, ln) else ln_Init net (sf_Addr s1) ln);
             s2 = s1\<lparr>sf_Listener := Some ln'\<rparr> in
         case err of
           Some e \<Rightarrow> (Some (Wrap ''gorpc.Server: cannot listen'' e), s2)
         | None \<Rightarrow> (None, s2\<lparr>sf_workersCh := Some (sf_Concurrency s2), sf_running := sf_running s2 + 1\<rparr>)))"

text \<open>
  \<open>Stop\<close> with the end of the accept loop it waits for: the loop closes the listener, unless it was
  asleep after a failed \<open>Accept\<close>.
\<close>

definition Server_Stop :: "bool \<Rightarrow> server_conf \<Rightarrow> go_error option \<times> server_conf" where
  "Server_Stop asleep s =
     (if \<not> sf_stopChan s then (Some (Panic ''gorpc.Server: server must be started before stopping it''), s)
      else (None, s\<lparr>sf_Listener := (if asleep then sf_Listener s
                                    else map_option (\<lambda>ln. snd (ln_Close ln)) (sf_Listener s)),
                    sf_running := 0, sf_stopChan := False\<rparr>))"

section \<open>Timers\<close>

text \<open>
  A timer is running or not, and its channel holds a tick or not. \<open>Stop\<close> and \<open>Reset\<close> report whether
  it was running; neither empties the channel.
\<close>

record timer =
  t_active :: bool
  t_tick :: bool

definition t_Stop :: "timer \<Rightarrow> bool \<times> timer" where
  "t_Stop t = (t_active t, t\<lparr>t_active := False\<rparr>)"

definition t_Reset :: "timer \<Rightarrow> bool \<times> timer" where
  "t_Reset t = (t_active t, t\<lparr>t_active := True\<rparr>)"

definition t_fire :: "timer \<Rightarrow> timer" where
  "t_fire t = (if t_active t then \<lparr>t_active = False, t_tick = True\<rparr> else t)"

definition acquireTimer :: "timer option \<Rightarrow> go_error + timer" where
  "acquireTimer tv =
     (case tv of
        None \<Rightarrow> Inr \<lparr>t_active = True, t_tick = False\<rparr>
      | Some t \<Rightarrow>
          (case t_Reset t of
             (True, t') \<Rightarrow> Inl (Panic ''BUG: Active timer trapped into acquireTimer()'')
           | (False, t') \<Rightarrow> Inr t'))"

definition releaseTimer :: "timer \<Rightarrow> timer" where
  "releaseTimer t = (case t_Stop t of (True, t') \<Rightarrow> t' | (False, t') \<Rightarrow> t'\<lparr>t_tick := False\<rparr>)"

text \<open>The flush channel: always ready, or the connection's timer set anew.\<close>

datatype flush_chan = ClosedFlushChan | TimerChan

definition getFlushChan :: "timer \<Rightarrow> int \<Rightarrow> flush_chan \<times> timer" where
  "getFlushChan t flushDelay =
     (if flushDelay \<le> 0 then (ClosedFlushChan, t)
      else (case t_Stop t of
              (stopped, t1) \<Rightarrow>
                let t2 = (if \<not> stopped then t1\<lparr>t_tick := False\<rparr> else t1) in (TimerChan, snd (t_Reset t2))))"

text \<open>
  What a process does with pooled timers: \<open>tp_used\<close> are the timers between an acquire and a release,
  which fire and whose ticks are received.
\<close>

record timer_pool =
  tp_pool :: "timer list"
  tp_used :: "timer list"

datatype timer_op = TAcquire "nat option" | TFire nat | TReceive nat | TRelease nat

definition timer_op_step :: "timer_op \<Rightarrow> timer_pool \<Rightarrow> go_error + timer_pool" where
  "timer_op_step op p =
     (case op of
        TAcquire pick \<Rightarrow>
          (case pick of
             Some i \<Rightarrow>
               if i < length (tp_pool p)
               then (case acquireTimer (Some (tp_pool p ! i)) of
                       Inl e \<Rightarrow> Inl e
                     | Inr t \<Rightarrow> Inr \<lparr>tp_pool = take i (tp_pool p) @ drop (Suc i) (tp_pool p), tp_used = t # tp_used p\<rparr>)
               else Inr p
           | None \<Rightarrow>
               (case acquireTimer None of Inl e \<Rightarrow> Inl e | Inr t \<Rightarrow> Inr (p\<lparr>tp_used := t # tp_used p\<rparr>)))
      | TFire i \<Rightarrow> Inr (if i < length (tp_used p) then p\<lparr>tp_used := (tp_used p)[i := t_fire (tp_used p ! i)]\<rparr> else p)
      | TReceive i \<Rightarrow>
          Inr (if i < length (tp_used p) then p\<lparr>tp_used := (tp_used p)[i := (tp_used p ! i)\<lparr>t_tick := False\<rparr>]\<rparr> else p)
      | TRelease i \<Rightarrow>
          Inr (if i < length (tp_used p)
               then \<lparr>tp_pool = releaseTimer (tp_used p ! i) # tp_pool p,
                     tp_used = take i (tp_used p) @ drop (Suc i) (tp_used p)\<rparr>
               else p))"

fun timer_ops :: "timer_op list \<Rightarrow> timer_pool \<Rightarrow> go_error + timer_pool" where
  "timer_ops [] p = Inr p"
| "timer_ops (op # ops) p = (case timer_op_step op p of Inl e \<Rightarrow> Inl e | Inr p' \<Rightarrow> timer_ops ops p')"

section \<open>Properties of the settings\<close>

definition client_ready :: "client_conf \<Rightarrow> bool" where
  "client_ready c \<longleftrightarrow> 0 < cc_Conns c \<and> 0 < cc_PendingRequests c \<and> cc_FlushDelay c \<noteq> 0 \<and> 0 < cc_RequestTimeout c
     \<and> 0 < cc_SendBufferSize c \<and> 0 < cc_RecvBufferSize c \<and> cc_Dial c \<noteq> None \<and> cc_LogError c
     \<and> cc_requestsChan c = Some (cc_PendingRequests c) \<and> cc_stopChan c"

definition server_ready :: "server_conf \<Rightarrow> bool" where
  "server_ready s \<longleftrightarrow> sf_Handler s \<and> 0 < sf_Concurrency s \<and> sf_FlushDelay s \<noteq> 0 \<and> 0 < sf_PendingResponses s
     \<and> 0 < sf_SendBufferSize s \<and> 0 < sf_RecvBufferSize s \<and> sf_LogError s
     \<and> (\<exists>ln. sf_Listener s = Some ln \<and> ListenAddr ln)
     \<and> sf_workersCh s = Some (sf_Concurrency s) \<and> sf_stopChan s"

lemma at_least_1_pos: "0 < d \<Longrightarrow> 0 < at_least_1 d x" and at_least_1_id: "0 < x \<Longrightarrow> at_least_1 d x = x"
  by (auto simp: at_least_1_def)

lemma Client_Start_ready:
  "Client_Start c = Inr c' \<Longrightarrow> client_ready c' \<and> cc_handlers c' = cc_handlers c + nat (cc_Conns c')"
  by (auto simp: Client_Start_def client_ready_def Let_def defaults at_least_1_pos split: if_splits option.splits)

lemma Client_Start_again:
  "client_ready c \<Longrightarrow> cc_handlers c = nat (cc_Conns c) \<Longrightarrow>
     \<exists>c'. Client_Stop c = Inr c' \<and> Client_Start c' = Inr c"
  by (auto simp: Client_Start_def Client_Stop_def client_ready_def Let_def at_least_1_id)

lemma Server_Start_ready: "Server_Start net s = (None, s') \<Longrightarrow> server_ready s'"
  by (auto simp: Server_Start_def server_defaults_def server_ready_def Let_def defaults at_least_1_pos
      ListenAddr_def ln_Init_def split: if_splits option.splits)

lemma Server_Start_bound:
  "sf_Handler s \<Longrightarrow> \<not> sf_stopChan s \<Longrightarrow> sf_Listener s = Some ln \<Longrightarrow> ListenAddr ln \<Longrightarrow>
     \<exists>s3. Server_Start net s = (None, s3) \<and> sf_Listener s3 = Some ln"
  by (simp add: Server_Start_def server_defaults_def Let_def)

lemma Server_Start_again:
  assumes r: "server_ready s" and one: "sf_running s = 1"
  shows "\<exists>s2. Server_Stop asleep s = (None, s2) \<and> Server_Start net s2 = (None, s\<lparr>sf_Listener := sf_Listener s2\<rparr>)"
proof -
  obtain ln where ln: "sf_Listener s = Some ln" "ListenAddr ln" using r by (auto simp: server_ready_def)
  obtain s2 where s2: "Server_Stop asleep s = (None, s2)" using r by (simp add: Server_Stop_def server_ready_def)
  have "ListenAddr (snd (ln_Close ln))"
    using ln(2) by (auto simp: ln_Close_def ListenAddr_def split: option.splits bool.splits)
  then obtain ln2 where ln2: "sf_Listener s2 = Some ln2" "ListenAddr ln2"
    using s2 ln r by (cases asleep) (auto simp: Server_Stop_def server_ready_def)
  have eq: "s2 = s\<lparr>sf_Listener := Some ln2, sf_running := 0, sf_stopChan := False\<rparr>"
    using s2 r ln2(1) by (auto simp: Server_Stop_def server_ready_def)
  have "Server_Start net s2 = (None, s\<lparr>sf_Listener := Some ln2\<rparr>)"
    using r one ln2(2) unfolding eq
    by (cases s) (simp add: Server_Start_def server_defaults_def server_ready_def at_least_1_id)
  then show ?thesis using s2 ln2(1) by auto
qed

text \<open>The settings that are in their range.\<close>

definition client_keeps :: "client_conf \<Rightarrow> client_conf \<Rightarrow> bool" where
  "client_keeps c c' \<longleftrightarrow> (0 < cc_PendingRequests c \<longrightarrow> cc_PendingRequests c' = cc_PendingRequests c)
     \<and> (0 < cc_Conns c \<longrightarrow> cc_Conns c' = cc_Conns c) \<and> (0 < cc_RequestTimeout c \<longrightarrow> cc_RequestTimeout c' = cc_RequestTimeout c)
     \<and> (cc_FlushDelay c \<noteq> 0 \<longrightarrow> cc_FlushDelay c' = cc_FlushDelay c)
     \<and> (0 < cc_SendBufferSize c \<longrightarrow> cc_SendBufferSize c' = cc_SendBufferSize c)
     \<and> (0 < cc_RecvBufferSize c \<longrightarrow> cc_RecvBufferSize c' = cc_RecvBufferSize c)
     \<and> (cc_Dial c \<noteq> None \<longrightarrow> cc_Dial c' = cc_Dial c)
     \<and> cc_Addr c' = cc_Addr c \<and> cc_DisableCompression c' = cc_DisableCompression c \<and> cc_CloseBody c' = cc_CloseBody c"

definition server_keeps :: "server_conf \<Rightarrow> server_conf \<Rightarrow> bool" where
  "server_keeps s s' \<longleftrightarrow> (0 < sf_Concurrency s \<longrightarrow> sf_Concurrency s' = sf_Concurrency s)
     \<and> (0 < sf_PendingResponses s \<longrightarrow> sf_PendingResponses s' = sf_PendingResponses s)
     \<and> (sf_FlushDelay s \<noteq> 0 \<longrightarrow> sf_FlushDelay s' = sf_FlushDelay s)
     \<and> (0 < sf_SendBufferSize s \<longrightarrow> sf_SendBufferSize s' = sf_SendBufferSize s)
     \<and> (0 < sf_RecvBufferSize s \<longrightarrow> sf_RecvBufferSize s' = sf_RecvBufferSize s)
     \<and> (\<forall>ln. sf_Listener s = Some ln \<and> ListenAddr ln \<longrightarrow> sf_Listener s' = Some ln)
     \<and> sf_Addr s' = sf_Addr s \<and> sf_CloseBody s' = sf_CloseBody s"

lemma Client_Start_keeps: "Client_Start c = Inr c' \<Longrightarrow> client_keeps c c'"
  by (auto simp: Client_Start_def client_keeps_def Let_def at_least_1_id split: if_splits option.splits)

lemma Server_Start_keeps: "Server_Start net s = (None, s') \<Longrightarrow> server_keeps s s'"
  by (auto simp: Server_Start_def server_defaults_def server_keeps_def Let_def at_least_1_id
      split: if_splits option.splits prod.splits)

lemma Server_Start_running: "Server_Start net s = (None, s') \<Longrightarrow> sf_running s' = sf_running s + 1"
  by (auto simp: Server_Start_def server_defaults_def Let_def split: if_splits option.splits prod.splits)

text \<open>
  C40. After a successful \<open>Start\<close> every setting of client and server is usable, whatever it was before:
  counts, sizes and timeouts are positive, the flush delay is not 0, dial function, logger and a bound
  listener are there, and queue and worker channel have the configured capacity. Each setting that was
  usable is kept: of the client connections, pending requests, timeout, flush delay, both buffer sizes and dial
  function, of the server concurrency, pending responses, flush delay, both buffer sizes and a bound listener.
  A client that is stopped and started again has the same settings; so has a server, except for its listener,
  which stays the one that \<open>Stop\<close> has left.
\<close>

theorem started_settings_valid:
  "(Client_Start c = Inr c' \<longrightarrow> client_ready c' \<and> client_keeps c c' \<and>
      (cc_handlers c = 0 \<longrightarrow> (\<exists>c2. Client_Stop c' = Inr c2 \<and> Client_Start c2 = Inr c'))) \<and>
   (Server_Start net s = (None, s') \<longrightarrow> server_ready s' \<and> server_keeps s s' \<and>
      (sf_running s = 0 \<longrightarrow> (\<exists>s2. Server_Stop asleep s' = (None, s2) \<and>
         Server_Start net' s2 = (None, s'\<lparr>sf_Listener := sf_Listener s2\<rparr>))))"
proof (intro conjI impI)
  assume c: "Client_Start c = Inr c'"
  show "client_ready c'" using Client_Start_ready [OF c] by simp
  show "client_keeps c c'" by (rule Client_Start_keeps [OF c])
  show "\<exists>c2. Client_Stop c' = Inr c2 \<and> Client_Start c2 = Inr c'" if "cc_handlers c = 0"
    using Client_Start_again Client_Start_ready [OF c] that by simp
next
  assume s: "Server_Start net s = (None, s')"
  show "server_ready s'" by (rule Server_Start_ready [OF s])
  show "server_keeps s s'" by (rule Server_Start_keeps [OF s])
  show "\<exists>s2. Server_Stop asleep s' = (None, s2) \<and> Server_Start net' s2 = (None, s'\<lparr>sf_Listener := sf_Listener s2\<rparr>)"
    if "sf_running s = 0"
    using Server_Start_again [OF Server_Start_ready [OF s], of asleep net'] Server_Start_running [OF s] that by simp
qed

theorem started_settings_valid_witness:
  "\<exists>c' s' s2. Client_Start (NewTCPClient ''a:1'') = Inr c' \<and> client_ready c' \<and>
     Server_Start (\<lambda>k a. None) (NewUnixServer ''s'') = (None, s') \<and> server_ready s' \<and> sf_FlushDelay s' = - 1 \<and>
     Server_Stop False s' = (None, s2) \<and> Server_Start (\<lambda>k a. None) s2 = (None, s'\<lparr>sf_Listener := sf_Listener s2\<rparr>)"
proof -
  obtain c' where c: "Client_Start (NewTCPClient ''a:1'') = Inr c'"
    by (simp add: Client_Start_def NewTCPClient_def blank_client_def Let_def)
  obtain s' where s: "Server_Start (\<lambda>k a. None) (NewUnixServer ''s'') = (None, s')"
    by (simp add: Server_Start_def NewUnixServer_def blank_server_def server_defaults_def ListenAddr_def ln_Init_def Let_def)
  have z: "sf_running (NewUnixServer ''s'') = 0" "sf_FlushDelay (NewUnixServer ''s'') = - 1"
    by (simp_all add: NewUnixServer_def blank_server_def)
  note st = started_settings_valid [of "NewTCPClient ''a:1''" c' "\<lambda>k a. None" "NewUnixServer ''s''" s' False "\<lambda>k a. None"]
  have "sf_FlushDelay s' = - 1" using st s z(2) unfolding server_keeps_def by simp
  then show ?thesis using c s z(1) st by blast
qed

text \<open>
  A server cannot be started twice, although \<open>Stop\<close> says that a stopped server can be started again:
  a server that was stopped starts without an error, but keeps its closed listener, so that no connection
  is ever accepted; and after a \<open>Start\<close> that failed to listen every further \<open>Start\<close> panics.
\<close>

theorem server_cannot_restart:
  "(Server_Start net s = (None, s1) \<and> Server_Stop False s1 = (None, s2) \<longrightarrow>
      (\<exists>s3 ln. Server_Start net' s2 = (None, s3) \<and> sf_Listener s3 = Some ln \<and> (\<forall>a. \<exists>e. ln_Accept a ln = Inl e))) \<and>
   (Server_Start net s = (Some e, s1) \<and> sf_Handler s \<longrightarrow> (\<exists>m s3. Server_Start net' s1 = (Some (Panic m), s3)))"
proof (intro conjI impI; elim conjE)
  assume start: "Server_Start net s = (None, s1)" and stop: "Server_Stop False s1 = (None, s2)"
  obtain ln where ln: "sf_Listener s1 = Some ln" "ListenAddr ln" "sf_Handler s1"
    using Server_Start_ready [OF start] by (auto simp: server_ready_def)
  then have closed: "ln_L (snd (ln_Close ln)) = Some False"
    by (auto simp: ln_Close_def ListenAddr_def split: option.splits bool.splits)
  have s2: "sf_Listener s2 = Some (snd (ln_Close ln))" "\<not> sf_stopChan s2" "sf_Handler s2"
    using stop ln by (auto simp: Server_Stop_def split: if_splits)
  have "ListenAddr (snd (ln_Close ln))" using closed by (simp add: ListenAddr_def)
  then obtain s3 where "Server_Start net' s2 = (None, s3)" "sf_Listener s3 = Some (snd (ln_Close ln))"
    using Server_Start_bound [OF s2(3,2,1)] by blast
  then show "\<exists>s3 ln. Server_Start net' s2 = (None, s3) \<and> sf_Listener s3 = Some ln \<and> (\<forall>a. \<exists>e. ln_Accept a ln = Inl e)"
    using closed by (auto simp: ln_Accept_def)
next
  assume "Server_Start net s = (Some e, s1)" "sf_Handler s"
  then have "sf_stopChan s1" "sf_Handler s1"
    by (auto simp: Server_Start_def server_defaults_def Let_def split: if_splits option.splits prod.splits)
  then show "\<exists>m s3. Server_Start net' s1 = (Some (Panic m), s3)" by (simp add: Server_Start_def)
qed

theorem server_cannot_restart_witness:
  "\<exists>s1 s2 s3 ln. Server_Start (\<lambda>k a. None) (NewTCPServer ''a:1'') = (None, s1) \<and> Server_Stop False s1 = (None, s2) \<and>
     Server_Start (\<lambda>k a. None) s2 = (None, s3) \<and> sf_Listener s3 = Some ln \<and>
     (\<exists>e. ln_Accept (AcceptConn ''b:2'' None None) ln = Inl e)"
proof -
  obtain s1 where s1: "Server_Start (\<lambda>k a. None) (NewTCPServer ''a:1'') = (None, s1)"
    by (simp add: Server_Start_def NewTCPServer_def blank_server_def server_defaults_def ListenAddr_def ln_Init_def Let_def)
  then have "sf_stopChan s1" using Server_Start_ready by (simp add: server_ready_def)
  then obtain s2 where s2: "Server_Stop False s1 = (None, s2)" by (simp add: Server_Stop_def)
  show ?thesis
    using s1 s2 server_cannot_restart [of "\<lambda>k a. None" "NewTCPServer ''a:1''" s1 s2 "\<lambda>k a. None"] by blast
qed

section \<open>Properties of the running client\<close>

text \<open>The two ends of \<open>CallTimeout\<close> are steps of the client, so what holds of all its runs covers them.\<close>

lemma CallTimeout_is_step:
  "CallTimeout_select c m ev = Some (c', r, err) \<Longrightarrow> m < c_next c \<Longrightarrow> client_step rnd reg impl c c'"
  by (auto simp: CallTimeout_select_def intro: client_step.cancel client_step.release split: call_event.splits if_splits)

text \<open>The server reads the compression flag that the client's handshake wrote.\<close>

lemma handshake_agrees:
  "client_handshake c None w = Some w' \<Longrightarrow>
     \<exists>b. w_out w' = w_out w @ [b] \<and> serverHandshake None (HsByte b) = Some (\<not> cc_DisableCompression c)"
  by (auto simp: client_handshake_def serverHandshake_def dest!: w_write_ok split: prod.splits option.splits)

text \<open>
  The timers of \<open>timerPool\<close> are never handed out while they run, so the check in \<open>acquireTimer\<close>
  never panics, and never with an old tick in their channel, so no call times out before its time:
  whatever the order of acquiring, firing, receiving and releasing, the pooled timers are stopped and empty.
\<close>

definition quiet :: "timer \<Rightarrow> bool" where
  "quiet t \<longleftrightarrow> \<not> t_active t \<and> \<not> t_tick t"

definition timer_sane :: "timer \<Rightarrow> bool" where
  "timer_sane t \<longleftrightarrow> \<not> (t_active t \<and> t_tick t)"

lemma acquire_quiet: "quiet t \<Longrightarrow> acquireTimer (Some t) = Inr \<lparr>t_active = True, t_tick = False\<rparr>"
  by (cases t) (simp add: acquireTimer_def t_Reset_def quiet_def)

lemma release_quiet: "timer_sane t \<Longrightarrow> quiet (releaseTimer t)"
  by (cases "t_active t") (auto simp: releaseTimer_def t_Stop_def quiet_def timer_sane_def)

definition timers_ok :: "timer_pool \<Rightarrow> bool" where
  "timers_ok p \<longleftrightarrow> list_all quiet (tp_pool p) \<and> list_all timer_sane (tp_used p)"

lemma list_all_drop_nth: "list_all P xs \<Longrightarrow> list_all P (take i xs @ drop (Suc i) xs)"
  by (auto simp: list_all_iff dest: in_set_takeD in_set_dropD)

lemma list_all_upd: "list_all P xs \<Longrightarrow> P x \<Longrightarrow> list_all P (xs[i := x])"
  by (auto simp: list_all_iff dest: set_update_subset_insert [THEN subsetD])

lemma timer_op_ok:
  assumes "timers_ok p"
  shows "\<exists>p'. timer_op_step op p = Inr p' \<and> timers_ok p'"
proof -
  have pool: "quiet (tp_pool p ! i)" if "i < length (tp_pool p)" for i
    using assms that by (simp add: timers_ok_def list_all_length)
  have used: "timer_sane (tp_used p ! i)" if "i < length (tp_used p)" for i
    using assms that by (simp add: timers_ok_def list_all_length)
  have fresh: "timer_sane \<lparr>t_active = True, t_tick = False\<rparr>" by (simp add: timer_sane_def)
  have fire: "timer_sane t \<Longrightarrow> timer_sane (t_fire t)" "timer_sane t \<Longrightarrow> timer_sane (t\<lparr>t_tick := False\<rparr>)" for t
    by (simp_all add: timer_sane_def t_fire_def)
  note sim = timer_op_step_def timers_ok_def list_all_drop_nth list_all_upd fresh
  show ?thesis
  proof (cases op)
    case (TAcquire pick)
    show ?thesis
    proof (cases pick)
      case None
      then show ?thesis using assms TAcquire fresh by (simp add: timer_op_step_def timers_ok_def acquireTimer_def)
    next
      case (Some i)
      then show ?thesis
        using assms TAcquire fresh pool [THEN acquire_quiet, of i]
        by (auto simp: timer_op_step_def timers_ok_def intro: list_all_drop_nth simp del: list_all_append)
    qed
  next
    case (TFire i)
    then show ?thesis using assms used [of i] fire by (auto simp: timer_op_step_def timers_ok_def intro: list_all_upd)
  next
    case (TReceive i)
    then show ?thesis using assms used [of i] fire by (auto simp: timer_op_step_def timers_ok_def intro: list_all_upd)
  next
    case (TRelease i)
    then show ?thesis
      using assms used [of i] release_quiet
      by (auto simp: timer_op_step_def timers_ok_def intro: list_all_drop_nth simp del: list_all_append)
  qed
qed

theorem timers_never_collide:
  "\<exists>p. timer_ops ops \<lparr>tp_pool = [], tp_used = []\<rparr> = Inr p \<and> list_all quiet (tp_pool p)"
proof -
  have "timers_ok p0 \<Longrightarrow> \<exists>p. timer_ops ops p0 = Inr p \<and> timers_ok p" for p0
  proof (induction ops arbitrary: p0)
    case (Cons op ops)
    then obtain p1 where "timer_op_step op p0 = Inr p1" "timers_ok p1" using timer_op_ok by blast
    then show ?case using Cons.IH by simp
  qed simp
  from this [of "\<lparr>tp_pool = [], tp_used = []\<rparr>"] show ?thesis by (auto simp: timers_ok_def)
qed

end
