(* ===== verification/Rpc_Api.thy ===== *)
theory Rpc_Api
  imports Rpc_Setup
begin

text \<open>
  The calls of the RPC client that are made of \<open>callAsync\<close> and of \<open>Batch\<close> (\<open>pkg/iorpc/client.go\<close>): \<open>Send\<close>,
  \<open>CallAsync\<close>, the first half of \<open>Call\<close>, and filling a batch.
\<close>

definition Send :: "'h client \<Rightarrow> 'h request \<Rightarrow> nat option \<Rightarrow> go_error + 'h client \<times> client_error option" where
  "Send c request pick =
     (case callAsync c request True True pick of
        Inl e \<Rightarrow> Inl e
      | Inr (c', Inl err) \<Rightarrow> Inr (c', Some err)
      | Inr (c', Inr m) \<Rightarrow> Inr (c', None))"

definition CallAsync :: "'h client \<Rightarrow> 'h request \<Rightarrow> go_error + 'h client \<times> (client_error + nat)" where
  "CallAsync c request = callAsync c request False False None"

text \<open>\<open>Call\<close> up to the \<open>select\<close> of \<open>CallTimeout\<close> (\<open>CallTimeout_select\<close>).\<close>

definition Call_submit :: "'h client \<Rightarrow> 'h request \<Rightarrow> nat option \<Rightarrow> go_error + 'h client \<times> (client_error + nat)" where
  "Call_submit c request pick = callAsync c request False True pick"

definition isCanceled :: "'h client \<Rightarrow> nat \<Rightarrow> bool" where
  "isCanceled c m = ar_canceled (c_heap c m)"

definition NewBatch :: "'h BatchResult list" where
  "NewBatch = []"

definition Batch_Add :: "'h BatchResult list \<Rightarrow> 'h request \<Rightarrow> 'h BatchResult list" where
  "Batch_Add ops request = batch_add ops request False"

definition Batch_AddSkipResponse :: "'h BatchResult list \<Rightarrow> 'h request \<Rightarrow> 'h BatchResult list" where
  "Batch_AddSkipResponse ops request = batch_add ops request True"

lemmas call_defs = callAsync_def callAsync_init_def acquireAsyncResult_def try_push_def releaseAsyncResult_def Let_def

text \<open>
  \<open>Send\<close> never panics. With room in the queue it adds one object without a channel; on a full queue it
  reports the overflow, leaves the queue as it was, and the object it took goes to the pool.
\<close>

lemma Send_room:
  assumes "length (c_requestsChan c) < c_PendingRequests c"
  shows "\<exists>c' m. Send c request pick = Inr (c', None) \<and> c_requestsChan c' = c_requestsChan c @ [m]
    \<and> ar_request (c_heap c' m) = request"
  using assms by (auto simp: Send_def call_defs split: option.splits)

lemma Send_full:
  assumes "c_PendingRequests c \<le> length (c_requestsChan c)"
  shows "\<exists>c' m. Send c request pick = Inr (c', Some CE_Overflow) \<and> c_requestsChan c' = c_requestsChan c
    \<and> c_pool c' = m # (case pick of Some j \<Rightarrow> take j (c_pool c) @ drop (Suc j) (c_pool c) | None \<Rightarrow> c_pool c)
    \<and> ar_done (c_heap c' m) = NoChan"
proof -
  have "take j xs @ drop (Suc j) xs = xs" if "\<not> j < length xs" for j and xs :: "nat list" using that by simp
  then show ?thesis using assms by (auto simp: Send_def call_defs split: option.splits)
qed

text \<open>\<open>CallAsync\<close> does not use the pool, so a cancelled object of an earlier call cannot come back.\<close>

lemma CallAsync_fresh:
  assumes "length (c_requestsChan c) < c_PendingRequests c"
  shows "\<exists>c'. CallAsync c request = Inr (c', Inr (c_next c)) \<and> c_requestsChan c' = c_requestsChan c @ [c_next c]
    \<and> \<not> isCanceled c' (c_next c) \<and> ar_done (c_heap c' (c_next c)) = Open \<and> c_pool c' = c_pool c"
  using assms by (simp add: CallAsync_def isCanceled_def call_defs new_AsyncResult_def)

lemma Batch_adds:
  "length (Batch_Add ops request) = Suc (length ops)" "length (Batch_AddSkipResponse ops request) = Suc (length ops)"
  "br_done (last (Batch_Add ops request)) = Open" "br_done (last (Batch_AddSkipResponse ops request)) = NoChan"
  by (simp_all add: Batch_Add_def Batch_AddSkipResponse_def batch_add_def)

end
