(* ===== verification/Rpc_Runs.thy ===== *)
theory Rpc_Runs
  imports Rpc_Client
begin

text \<open>
  A whole run of the client's writer over its queue, and of its reader over a stream of responses
  (\<open>clientWriter\<close> and \<open>clientReader\<close> of \<open>pkg/iorpc/client.go\<close>): the loops around the rounds of \<open>Rpc_Client\<close>, and
  what they do with calls whose requests have read headers and no body.
\<close>

section \<open>The loops\<close>

text \<open>
  \<open>clientWriter\<close>: messages are encoded while there are any, then the timer flushes what is buffered. The
  number of rounds is the length of the queue; a writer that has returned does nothing more.
\<close>

fun clientWriter_loop :: "splice_env \<Rightarrow> (nat \<Rightarrow> nat) \<Rightarrow> 'ty registry \<Rightarrow> ('ty, 'h) headers_impl \<Rightarrow>
    nat \<Rightarrow> 'h client \<Rightarrow> nat \<Rightarrow> (go_error + 'h client) option" where
  "clientWriter_loop env rnd reg impl 0 c k = Some (Inr c)"
| "clientWriter_loop env rnd reg impl (Suc n) c k =
     (if cn_w (c_conn c k) \<noteq> None then Some (Inr c)
      else case clientWriter_message env rnd reg impl c k of
             None \<Rightarrow> None
           | Some (Inl e) \<Rightarrow> Some (Inl e)
           | Some (Inr c') \<Rightarrow> clientWriter_loop env rnd reg impl n c' k)"

definition clientWriter_run :: "splice_env \<Rightarrow> (nat \<Rightarrow> nat) \<Rightarrow> 'ty registry \<Rightarrow> ('ty, 'h) headers_impl \<Rightarrow>
    'h client \<Rightarrow> nat \<Rightarrow> (go_error + 'h client) option" where
  "clientWriter_run env rnd reg impl c k =
     (case clientWriter_loop env rnd reg impl (length (c_requestsChan c)) c k of
        None \<Rightarrow> None
      | Some (Inl e) \<Rightarrow> Some (Inl e)
      | Some (Inr c') \<Rightarrow>
          Some (Inr (if cn_w (c_conn c' k) = None \<and> cn_armed (c_conn c' k) then clientWriter_flush c' k else c')))"

text \<open>\<open>clientReader\<close>, for \<open>n\<close> responses; it stops when it has returned.\<close>

fun clientReader_run :: "splice_env \<Rightarrow> 'ty registry \<Rightarrow> ('ty, 'h) headers_impl \<Rightarrow>
    nat \<Rightarrow> 'h client \<Rightarrow> nat \<Rightarrow> (go_error + 'h client) option" where
  "clientReader_run env reg impl 0 c k = Some (Inr c)"
| "clientReader_run env reg impl (Suc n) c k =
     (if cn_r (c_conn c k) \<noteq> None then Some (Inr c)
      else case clientReader_response env reg impl c k of
             None \<Rightarrow> None
           | Some (Inl e) \<Rightarrow> Some (Inl e)
           | Some (Inr c') \<Rightarrow> clientReader_run env reg impl n c' k)"

section \<open>Sending what is queued\<close>

text \<open>The ids that the writer gives \<open>n\<close> calls after the id \<open>v\<close>.\<close>

definition next_ids :: "u64 \<Rightarrow> nat \<Rightarrow> u64 list" where
  "next_ids v n = map (\<lambda>j. v + word_of_nat (Suc j)) [0..<n]"

lemma next_ids_simps [simp]:
  "next_ids v 0 = []" "next_ids v (Suc n) = (v + 1) # next_ids (v + 1) n"
  by (simp_all add: next_ids_def upt_conv_Cons map_Suc_upt [symmetric] del: upt_Suc)

lemma length_next_ids [simp]: "length (next_ids v n) = n"
  by (simp add: next_ids_def)

lemma unat_next: "unat v + 1 < 2 ^ 64 \<Longrightarrow> unat (v + 1 :: u64) = unat v + 1"
  by (simp add: unat_word_ariths)

lemma unat_next_ids:
  "unat v + n < 2 ^ 64 \<Longrightarrow> map unat (next_ids v n) = map (\<lambda>j. unat v + Suc j) [0..<n]"
proof (induction n arbitrary: v)
  case (Suc n)
  have "unat (v + 1) = unat v + 1" using Suc.prems by (intro unat_next) simp
  then show ?case using Suc.IH [of "v + 1"] Suc.prems
    by (simp add: upt_conv_Cons map_Suc_upt [symmetric] del: upt_Suc)
qed simp

lemma distinct_next_ids: "unat v + n < 2 ^ 64 \<Longrightarrow> distinct (next_ids v n)"
proof -
  assume "unat v + n < 2 ^ 64"
  then have "distinct (map unat (next_ids v n))" by (simp add: unat_next_ids distinct_map inj_on_def)
  then show ?thesis by (simp add: distinct_map)
qed

text \<open>A call that waits for its turn: open, not canceled, with read headers and no body.\<close>

definition waits :: "ReadHeaders client \<Rightarrow> nat \<Rightarrow> bool" where
  "waits c m \<longleftrightarrow> ar_done (c_heap c m) = Open \<and> \<not> ar_canceled (c_heap c m) \<and>
     req_Headers (ar_request (c_heap c m)) \<noteq> None \<and> b_Size (req_Body (ar_request (c_heap c m))) = 0"

text \<open>A connection whose writer is running, with an encoder that has met only such requests.\<close>

definition writer_ready :: "ReadHeaders conn \<Rightarrow> bool" where
  "writer_ready cn \<longleftrightarrow> cn_w cn = None \<and> w_room (e_w (cn_e cn)) = None \<and> even_heads (e_buf (cn_e cn))"

definition queued_wire :: "ReadHeaders client \<Rightarrow> u64 \<Rightarrow> nat \<Rightarrow> ReadHeaders wireRequest" where
  "queued_wire c i m = wire_of i (ar_request (c_heap c m))"

lemma clientWriter_message_queued:
  assumes q: "c_requestsChan c = m # ms" and m: "waits c m" and cn: "writer_ready (c_conn c k)" and rnd: "\<And>n. n \<le> rnd n"
    and small: "unat (cn_msgID (c_conn c k)) + 1 < 2 ^ 64" and few: "length (cn_pending (c_conn c k)) \<le> 10 * c_PendingRequests c"
    and old: "\<forall>i \<in> fst ` set (cn_pending (c_conn c k)). unat i \<le> unat (cn_msgID (c_conn c k))"
  shows "\<exists>e'. clientWriter_message env rnd std_registry read_impl c k = Some (Inr (set_conn (c\<lparr>c_requestsChan := ms,
       c_count := c_count c + 1\<rparr>) k ((c_conn c k)\<lparr>cn_armed := True, cn_msgID := cn_msgID (c_conn c k) + 1,
         cn_pending := (cn_msgID (c_conn c k) + 1, m) # cn_pending (c_conn c k), cn_e := e'\<rparr>)))
     \<and> w_room (e_w e') = None \<and> even_heads (e_buf e')
     \<and> pending e' = pending (cn_e (c_conn c k))
         @ request_wire std_registry read_impl (queued_wire c (cn_msgID (c_conn c k) + 1) m)"
proof -
  let ?cn = "c_conn c k" let ?i = "cn_msgID ?cn + 1" let ?wr = "queued_wire c ?i m"
  have u: "unat ?i = unat (cn_msgID ?cn) + 1" by (rule unat_next [OF small])
  then have nz: "?i \<noteq> 0" by auto
  have "?i \<notin> fst ` set (cn_pending ?cn)" using old u by fastforce
  then have free: "map_of (cn_pending ?cn) ?i = None" by (simp add: map_of_eq_None_iff)
  have pl: "plain_request ?wr" using m by (simp add: plain_request_def queued_wire_def wire_of_def waits_def)
  obtain e' where e': "EncodeRequest env rnd std_registry read_impl (cn_e ?cn) ?wr = Some (None, e', rq_Body ?wr)"
      "w_room (e_w e') = None" "even_heads (e_buf e')"
      "pending e' = pending (cn_e ?cn) @ request_wire std_registry read_impl ?wr"
    using plain_request_step [OF _ _ rnd pl] cn by (auto simp: writer_ready_def)
  have "clientWriter_message env rnd std_registry read_impl c k = Some (Inr (set_conn (c\<lparr>c_requestsChan := ms,
       c_count := c_count c + 1\<rparr>) k (?cn\<lparr>cn_armed := True, cn_msgID := ?i, cn_pending := (?i, m) # cn_pending ?cn, cn_e := e'\<rparr>)))"
    using q m nz free few e'(1)
    by (simp add: writer_defs Let_def waits_def writer_encode_def set_conn_def queued_wire_def)
  then show ?thesis using e' by (intro exI [of _ e']) simp
qed

text \<open>All of the queue: the requests go out in order, each call is entered under the next id.\<close>

lemma waits_cong: "c_heap c' = c_heap c \<Longrightarrow> waits c' = waits c" "c_heap c' = c_heap c \<Longrightarrow> queued_wire c' = queued_wire c"
  by (simp_all add: waits_def queued_wire_def fun_eq_iff)

definition ids_upto :: "ReadHeaders conn \<Rightarrow> bool" where
  "ids_upto cn \<longleftrightarrow> (\<forall>i \<in> fst ` set (cn_pending cn). unat i \<le> unat (cn_msgID cn))"

lemma clientWriter_loop_queued:
  assumes rnd: "\<And>n. n \<le> rnd n"
  shows "c_requestsChan c = ms \<Longrightarrow> list_all (waits c) ms \<Longrightarrow> writer_ready (c_conn c k) \<Longrightarrow>
    unat (cn_msgID (c_conn c k)) + length ms < 2 ^ 64 \<Longrightarrow>
    length (cn_pending (c_conn c k)) + length ms \<le> 10 * c_PendingRequests c \<Longrightarrow> ids_upto (c_conn c k) \<Longrightarrow>
    \<exists>c'. clientWriter_loop env rnd std_registry read_impl (length ms) c k = Some (Inr c')
     \<and> c_heap c' = c_heap c \<and> c_requestsChan c' = [] \<and> writer_ready (c_conn c' k)
     \<and> cn_r (c_conn c' k) = cn_r (c_conn c k) \<and> cn_d (c_conn c' k) = cn_d (c_conn c k)
     \<and> (cn_armed (c_conn c' k) \<longleftrightarrow> ms \<noteq> [] \<or> cn_armed (c_conn c k))
     \<and> cn_pending (c_conn c' k) = rev (zip (next_ids (cn_msgID (c_conn c k)) (length ms)) ms) @ cn_pending (c_conn c k)
     \<and> pending (cn_e (c_conn c' k)) = pending (cn_e (c_conn c k)) @ concat (map (request_wire std_registry read_impl)
          (map2 (queued_wire c) (next_ids (cn_msgID (c_conn c k)) (length ms)) ms))"
proof (induction ms arbitrary: c)
  case Nil
  then show ?case by simp
next
  case (Cons m ms)
  let ?cn = "c_conn c k"
  have m: "waits c m" "list_all (waits c) ms" using Cons.prems(2) by simp_all
  have small: "unat (cn_msgID ?cn) + 1 < 2 ^ 64" and few: "length (cn_pending ?cn) \<le> 10 * c_PendingRequests c"
    using Cons.prems(4,5) by simp_all
  obtain e' where e': "clientWriter_message env rnd std_registry read_impl c k = Some (Inr (set_conn (c\<lparr>c_requestsChan := ms,
       c_count := c_count c + 1\<rparr>) k (?cn\<lparr>cn_armed := True, cn_msgID := cn_msgID ?cn + 1,
         cn_pending := (cn_msgID ?cn + 1, m) # cn_pending ?cn, cn_e := e'\<rparr>)))" (is "_ = Some (Inr ?c1)")
     "w_room (e_w e') = None" "even_heads (e_buf e')"
     "pending e' = pending (cn_e ?cn) @ request_wire std_registry read_impl (queued_wire c (cn_msgID ?cn + 1) m)"
    using clientWriter_message_queued [OF Cons.prems(1) m(1) Cons.prems(3) rnd small few, of env] Cons.prems(6)
    by (auto simp: ids_upto_def)
  have u: "unat (cn_msgID ?cn + 1) = unat (cn_msgID ?cn) + 1" by (rule unat_next [OF small])
  have h: "c_heap ?c1 = c_heap c" by simp
  have w: "cn_w ?cn = None" using Cons.prems(3) by (simp add: writer_ready_def)
  have "\<exists>c'. clientWriter_loop env rnd std_registry read_impl (length ms) ?c1 k = Some (Inr c')
     \<and> c_heap c' = c_heap ?c1 \<and> c_requestsChan c' = [] \<and> writer_ready (c_conn c' k)
     \<and> cn_r (c_conn c' k) = cn_r (c_conn ?c1 k) \<and> cn_d (c_conn c' k) = cn_d (c_conn ?c1 k)
     \<and> (cn_armed (c_conn c' k) \<longleftrightarrow> ms \<noteq> [] \<or> cn_armed (c_conn ?c1 k))
     \<and> cn_pending (c_conn c' k) = rev (zip (next_ids (cn_msgID (c_conn ?c1 k)) (length ms)) ms) @ cn_pending (c_conn ?c1 k)
     \<and> pending (cn_e (c_conn c' k)) = pending (cn_e (c_conn ?c1 k)) @ concat (map (request_wire std_registry read_impl)
          (map2 (queued_wire ?c1) (next_ids (cn_msgID (c_conn ?c1 k)) (length ms)) ms))"
  proof (rule Cons.IH)
    show "list_all (waits ?c1) ms" using m(2) waits_cong(1) [OF h] by simp
    show "ids_upto (c_conn ?c1 k)" using Cons.prems(6) u by (auto simp: ids_upto_def)
  qed (use Cons.prems(4,5) e'(2,3) u w in \<open>simp_all add: writer_ready_def\<close>)
  then show ?case using e'(1,4) w waits_cong(2) [OF h] by auto
qed

lemma clientWriter_run_queued:
  assumes rnd: "\<And>n. n \<le> rnd n" and q: "c_requestsChan c = ms" "ms \<noteq> []" "list_all (waits c) ms"
    and cn: "writer_ready (c_conn c k)" "cn_pending (c_conn c k) = []"
    and small: "unat (cn_msgID (c_conn c k)) + length ms < 2 ^ 64" and few: "length ms \<le> 10 * c_PendingRequests c"
  shows "\<exists>c'. clientWriter_run env rnd std_registry read_impl c k = Some (Inr c')
     \<and> c_heap c' = c_heap c \<and> c_requestsChan c' = [] \<and> cn_r (c_conn c' k) = cn_r (c_conn c k)
     \<and> cn_d (c_conn c' k) = cn_d (c_conn c k)
     \<and> cn_pending (c_conn c' k) = rev (zip (next_ids (cn_msgID (c_conn c k)) (length ms)) ms)
     \<and> w_out (e_w (cn_e (c_conn c' k))) = pending (cn_e (c_conn c k)) @ concat (map (request_wire std_registry read_impl)
          (map2 (queued_wire c) (next_ids (cn_msgID (c_conn c k)) (length ms)) ms))"
proof -
  have few': "length (cn_pending (c_conn c k)) + length ms \<le> 10 * c_PendingRequests c" and up: "ids_upto (c_conn c k)"
    using few cn(2) by (simp_all add: ids_upto_def)
  obtain c1 where c1: "clientWriter_loop env rnd std_registry read_impl (length ms) c k = Some (Inr c1)"
     "c_heap c1 = c_heap c" "c_requestsChan c1 = []" "writer_ready (c_conn c1 k)"
     "cn_r (c_conn c1 k) = cn_r (c_conn c k)" "cn_d (c_conn c1 k) = cn_d (c_conn c k)" "cn_armed (c_conn c1 k)"
     "cn_pending (c_conn c1 k) = rev (zip (next_ids (cn_msgID (c_conn c k)) (length ms)) ms)"
     "pending (cn_e (c_conn c1 k)) = pending (cn_e (c_conn c k)) @ concat (map (request_wire std_registry read_impl)
          (map2 (queued_wire c) (next_ids (cn_msgID (c_conn c k)) (length ms)) ms))"
    using clientWriter_loop_queued [OF rnd q(1,3) cn(1) small few' up, of env] q(2) cn(2) by auto
  obtain e' where e': "Flush (cn_e (c_conn c1 k)) = (None, e')"
    using Flush_unlimited c1(4) by (force simp: writer_ready_def)
  have "w_out (e_w e') = pending (cn_e (c_conn c1 k))" using Flush_ok [OF e'] by simp
  then show ?thesis
    using c1 e' q(1) by (auto simp: clientWriter_run_def clientWriter_flush_def Let_def writer_ready_def)
qed

section \<open>Reading the responses\<close>

text \<open>A response that a client can read: a message id, headers or an error text, and its body.\<close>

definition plain_response :: "ReadHeaders wireResponse \<Rightarrow> bool" where
  "plain_response resp \<longleftrightarrow> body_steady (rp_Body resp) \<and> length (body_bytes (rp_Body resp)) = unat (b_Size (rp_Body resp))
     \<and> (rp_Error resp = [] \<or> rp_Headers resp = None) \<and> length (rp_Error resp) < 2 ^ 32"

text \<open>What a completed call shows of a response.\<close>

definition call_delivered :: "ReadHeaders wireResponse \<Rightarrow> ReadHeaders AsyncResult \<Rightarrow> bool" where
  "call_delivered resp a \<longleftrightarrow> ar_done a = Closed
     \<and> ar_Error a = (if rp_Error resp = [] then None else Some (CE_Server (rp_Error resp)))
     \<and> res_Headers (ar_Response a) = rp_Headers resp \<and> b_Size (res_Body (ar_Response a)) = b_Size (rp_Body resp)
     \<and> (\<exists>rd. b_Reader (res_Body (ar_Response a)) = Some rd \<and> r_rest rd = body_bytes (rp_Body resp))"

definition reader_ready :: "ReadHeaders conn \<Rightarrow> bool" where
  "reader_ready cn \<longleftrightarrow> cn_r cn = None \<and> hdr_ring 32 (d_hdr (cn_d cn)) \<and> \<not> d_closeBody (cn_d cn)"

lemma clientReader_response_plain:
  assumes cn: "reader_ready (c_conn c k)" and inp: "concat (d_in (cn_d (c_conn c k))) = response_msg resp @ r"
    and resp: "plain_response resp"
    and load: "d_isconn (cn_d (c_conn c k)) \<Longrightarrow>
      \<forall>r. pipe_loads env (body_bytes (rp_Body resp) @ r) (int (length (body_bytes (rp_Body resp))))"
    and m: "map_of (cn_pending (c_conn c k)) (rp_ID resp) = Some m" "ar_done (c_heap c m) = Open" "ar_Error (c_heap c m) = None"
  shows "\<exists>c'. clientReader_response env std_registry read_impl c k = Some (Inr c')
     \<and> (\<forall>x. x \<noteq> m \<longrightarrow> c_heap c' x = c_heap c x) \<and> call_delivered resp (c_heap c' m)
     \<and> cn_pending (c_conn c' k) = AList.delete (rp_ID resp) (cn_pending (c_conn c k))
     \<and> reader_ready (c_conn c' k) \<and> d_isconn (cn_d (c_conn c' k)) = d_isconn (cn_d (c_conn c k))
     \<and> concat (d_in (cn_d (c_conn c' k))) = r"
proof -
  let ?d = "cn_d (c_conn c k)" and ?bs = "body_bytes (rp_Body resp)"
  have small: "uint (b_Size (rp_Body resp)) < 2 ^ 63" and len: "length ?bs = unat (b_Size (rp_Body resp))"
    and err: "rp_Error resp = [] \<or> rp_Headers resp = None" "length (rp_Error resp) < 2 ^ 32"
    using resp by (simp_all add: plain_response_def body_steady_def)
  have ring: "hdr_ring 32 (d_hdr ?d)" and cb: "\<not> d_closeBody ?d" using cn by (simp_all add: reader_ready_def)
  have inp': "concat (d_in ?d) = put_responseLine (response_line std_registry read_impl resp)
        @ hdr_bytes std_registry read_impl (rp_Headers resp) @ rp_Error resp @ ?bs @ r"
    using inp by (simp add: response_msg_def)
  obtain rd d' where d: "DecodeResponse env std_registry read_impl ?d new_response = Some (Inr
      \<lparr>rp_ID = rp_ID resp, rp_Headers = rp_Headers resp,
       rp_Body = empty_body\<lparr>b_Size := b_Size (rp_Body resp), b_Reader := Some rd\<rparr>, rp_Error = rp_Error resp\<rparr>, d')"
     "r_rest rd = ?bs" "concat (d_in d') = r" "hdr_ring 32 (d_hdr d')" "d_isconn d' = d_isconn ?d" "\<not> d_closeBody d'"
    using rh.DecodeResponse_ok [OF std_registry_wf(1) read_hdr_ok ring small err inp' len, of env new_response] load cb
    by (auto split: if_splits)
  show ?thesis
    using d m cn
    by (auto simp: reader_defs Let_def finish_def close_done_def call_delivered_def reader_ready_def)
qed

lemma distinct_snd_delete: "distinct (map snd al) \<Longrightarrow> distinct (map snd (AList.delete i al))"
  by (induction al) (auto simp: AList.delete_eq)

text \<open>A run of the reader completes the calls of all the responses, in whatever order they come.\<close>

lemma clientReader_run_plain:
  shows "list_all plain_response rs \<Longrightarrow> reader_ready (c_conn c k) \<Longrightarrow>
    concat (d_in (cn_d (c_conn c k))) = concat (map response_msg rs) @ r \<Longrightarrow>
    (d_isconn (cn_d (c_conn c k)) \<Longrightarrow> \<forall>resp \<in> set rs. \<forall>r. pipe_loads env (body_bytes (rp_Body resp) @ r)
        (int (length (body_bytes (rp_Body resp))))) \<Longrightarrow>
    distinct (map rp_ID rs) \<Longrightarrow> distinct (map snd (cn_pending (c_conn c k))) \<Longrightarrow>
    \<forall>resp \<in> set rs. \<exists>m. map_of (cn_pending (c_conn c k)) (rp_ID resp) = Some m
       \<and> ar_done (c_heap c m) = Open \<and> ar_Error (c_heap c m) = None \<Longrightarrow>
    \<exists>c'. clientReader_run env std_registry read_impl (length rs) c k = Some (Inr c')
     \<and> (\<forall>resp \<in> set rs. \<forall>m. map_of (cn_pending (c_conn c k)) (rp_ID resp) = Some m \<longrightarrow> call_delivered resp (c_heap c' m))
     \<and> (\<forall>x. x \<notin> the ` map_of (cn_pending (c_conn c k)) ` rp_ID ` set rs \<longrightarrow> c_heap c' x = c_heap c x)
     \<and> concat (d_in (cn_d (c_conn c' k))) = r"
proof (induction rs arbitrary: c)
  case Nil
  then show ?case by simp
next
  case (Cons resp rs)
  let ?P = "cn_pending (c_conn c k)"
  obtain m where m: "map_of ?P (rp_ID resp) = Some m" "ar_done (c_heap c m) = Open" "ar_Error (c_heap c m) = None"
    using Cons.prems(7) by auto
  obtain c1 where c1: "clientReader_response env std_registry read_impl c k = Some (Inr c1)"
      "\<forall>x. x \<noteq> m \<longrightarrow> c_heap c1 x = c_heap c x" "call_delivered resp (c_heap c1 m)"
      "cn_pending (c_conn c1 k) = AList.delete (rp_ID resp) ?P" "reader_ready (c_conn c1 k)"
      "d_isconn (cn_d (c_conn c1 k)) = d_isconn (cn_d (c_conn c k))"
      "concat (d_in (cn_d (c_conn c1 k))) = concat (map response_msg rs) @ r"
    using clientReader_response_plain [OF Cons.prems(2) _ _ _ m, of "concat (map response_msg rs) @ r" env]
      Cons.prems(1,3,4) by auto
  have same: "map_of (cn_pending (c_conn c1 k)) (rp_ID x) = map_of ?P (rp_ID x)" if "x \<in> set rs" for x
    using Cons.prems(5) that unfolding c1(4) by (auto simp: delete_conv' image_iff)
  have inj: "m' \<noteq> m" if "x \<in> set rs" "map_of ?P (rp_ID x) = Some m'" for x m'
  proof
    assume "m' = m"
    then have "(rp_ID x, m) \<in> set ?P" "(rp_ID resp, m) \<in> set ?P"
      using that(2) m(1) by (auto dest: map_of_SomeD)
    moreover have "rp_ID x \<noteq> rp_ID resp" using Cons.prems(5) that(1) by (auto simp: image_iff)
    ultimately show False using Cons.prems(6) unfolding distinct_map inj_on_def by fastforce
  qed
  have "\<exists>c'. clientReader_run env std_registry read_impl (length rs) c1 k = Some (Inr c')
     \<and> (\<forall>resp \<in> set rs. \<forall>m. map_of (cn_pending (c_conn c1 k)) (rp_ID resp) = Some m \<longrightarrow> call_delivered resp (c_heap c' m))
     \<and> (\<forall>x. x \<notin> the ` map_of (cn_pending (c_conn c1 k)) ` rp_ID ` set rs \<longrightarrow> c_heap c' x = c_heap c1 x)
     \<and> concat (d_in (cn_d (c_conn c' k))) = r"
  proof (rule Cons.IH)
    show "distinct (map snd (cn_pending (c_conn c1 k)))"
      using Cons.prems(6) unfolding c1(4) by (rule distinct_snd_delete)
    show "\<forall>resp \<in> set rs. \<exists>m. map_of (cn_pending (c_conn c1 k)) (rp_ID resp) = Some m
       \<and> ar_done (c_heap c1 m) = Open \<and> ar_Error (c_heap c1 m) = None"
    proof
      fix x assume x: "x \<in> set rs"
      obtain m' where "map_of ?P (rp_ID x) = Some m'" "ar_done (c_heap c m') = Open" "ar_Error (c_heap c m') = None"
        using Cons.prems(7) x by auto
      then show "\<exists>m. map_of (cn_pending (c_conn c1 k)) (rp_ID x) = Some m \<and> ar_done (c_heap c1 m) = Open
          \<and> ar_Error (c_heap c1 m) = None"
        using inj [OF x] c1(2) same [OF x] by auto
    qed
  qed (use Cons.prems(1,4,5) c1(5-7) in auto)
  then obtain c' where c': "clientReader_run env std_registry read_impl (length rs) c1 k = Some (Inr c')"
     "\<And>resp m. resp \<in> set rs \<Longrightarrow> map_of (cn_pending (c_conn c1 k)) (rp_ID resp) = Some m \<Longrightarrow> call_delivered resp (c_heap c' m)"
     "\<And>x. x \<notin> the ` map_of (cn_pending (c_conn c1 k)) ` rp_ID ` set rs \<Longrightarrow> c_heap c' x = c_heap c1 x"
     "concat (d_in (cn_d (c_conn c' k))) = r" by blast
  have others: "the ` map_of (cn_pending (c_conn c1 k)) ` rp_ID ` set rs = the ` map_of ?P ` rp_ID ` set rs"
    by (rule set_eqI) (auto simp: image_iff same)
  have notm: "m \<notin> the ` map_of ?P ` rp_ID ` set rs"
  proof
    assume "m \<in> the ` map_of ?P ` rp_ID ` set rs"
    then obtain x where x: "x \<in> set rs" "m = the (map_of ?P (rp_ID x))" by auto
    then obtain m' where "map_of ?P (rp_ID x) = Some m'" using Cons.prems(7) by auto
    then show False using inj [OF x(1)] x(2) by auto
  qed
  have "c_heap c' m = c_heap c1 m" using c'(3) others notm by simp
  then have "\<forall>x \<in> set (resp # rs). \<forall>n. map_of ?P (rp_ID x) = Some n \<longrightarrow> call_delivered x (c_heap c' n)"
    using c1(3) m(1) c'(2) same by auto
  moreover have "\<forall>x. x \<notin> the ` map_of ?P ` rp_ID ` set (resp # rs) \<longrightarrow> c_heap c' x = c_heap c x"
    using c1(2) m(1) c'(3) others by auto
  moreover have "cn_r (c_conn c k) = None" using Cons.prems(2) by (simp add: reader_ready_def)
  ultimately show ?case using c'(1,4) c1(1) by auto
qed

end
