(* ===== verification/Data_Gen.thy ===== *)
theory Data_Gen
  imports Net_Prelude
begin

text \<open>
  The data the servers hand out (\<open>pkg/datagen\<close>): \<open>MemData\<close> keeps five slices of one 16 MiB buffer,
  \<open>FileData\<close> keeps them in files. The interface \<open>common.DataGen\<close> is the record \<open>data_gen\<close>; a panic
  of an implementation is its \<open>Inl\<close>. The locale \<open>streamed_data\<close> states what the servers rely on, and
  both implementations are interpreted in it.
\<close>

record data_gen =
  dg_Get :: "string \<Rightarrow> go_error + byte list"
  dg_GetReadCloser :: "string \<Rightarrow> go_error + byte list"
  dg_GetSize :: "string \<Rightarrow> int"

section \<open>Strings\<close>

text \<open>\<open>fmt.Sprintf\<close> of a number, \<open>strconv.Atoi\<close> on 64-bit integers, and \<open>strings.Split\<close> at a character.\<close>

definition digit :: "nat \<Rightarrow> char" where
  "digit n = char_of (48 + n)"

fun decimal :: "nat \<Rightarrow> string" where
  "decimal n = (if n < 10 then [digit n] else decimal (n div 10) @ [digit (n mod 10)])"

declare decimal.simps [simp del]

fun undigit :: "char \<Rightarrow> nat option" where
  "undigit c = (let k = of_char c :: nat in if 48 \<le> k \<and> k \<le> 57 then Some (k - 48) else None)"

fun digits_value :: "nat \<Rightarrow> string \<Rightarrow> nat option" where
  "digits_value acc [] = Some acc"
| "digits_value acc (c # cs) = (case undigit c of None \<Rightarrow> None | Some d \<Rightarrow> digits_value (acc * 10 + d) cs)"

definition atoi_error :: go_error where
  "atoi_error = ErrMsg ''strconv.Atoi: parsing''"

definition in_int64 :: "int \<Rightarrow> go_error + int" where
  "in_int64 i = (if - (2 ^ 63) \<le> i \<and> i < 2 ^ 63 then Inr i else Inl atoi_error)"

definition Atoi :: "string \<Rightarrow> go_error + int" where
  "Atoi s =
     (let (neg, ds) = (case s of [] \<Rightarrow> (False, []) | c # cs \<Rightarrow>
            if c = CHR ''-'' then (True, cs) else if c = CHR ''+'' then (False, cs) else (False, s)) in
      if ds = [] then Inl atoi_error
      else case digits_value 0 ds of
             None \<Rightarrow> Inl atoi_error
           | Some n \<Rightarrow> in_int64 (if neg then - int n else int n))"

fun split_at :: "char \<Rightarrow> string \<Rightarrow> string list" where
  "split_at c [] = [[]]"
| "split_at c (x # xs) =
     (if x = c then [] # split_at c xs
      else case split_at c xs of [] \<Rightarrow> [[x]] | w # ws \<Rightarrow> (x # w) # ws)"

lemma undigit_digit: "n < 10 \<Longrightarrow> undigit (digit n) = Some n"
  by (simp add: digit_def of_char_of)

lemma digits_value_append:
  "digits_value acc (xs @ ys) = (case digits_value acc xs of None \<Rightarrow> None | Some a \<Rightarrow> digits_value a ys)"
  by (induction acc xs rule: digits_value.induct) (auto split: option.splits simp del: undigit.simps)

lemma digits_value_decimal: "\<exists>k. \<forall>acc. digits_value acc (decimal n) = Some (acc * 10 ^ k + n)"
proof (induction n rule: decimal.induct)
  case (1 n)
  show ?case
  proof (cases "n < 10")
    case True
    then show ?thesis
      by (intro exI [of _ 1]) (simp add: decimal.simps [of n] undigit_digit del: undigit.simps)
  next
    case False
    then obtain k where "\<forall>acc. digits_value acc (decimal (n div 10)) = Some (acc * 10 ^ k + n div 10)"
      using 1 by blast
    then show ?thesis
      using False
      by (intro exI [of _ "Suc k"])
        (simp add: decimal.simps [of n] digits_value_append undigit_digit algebra_simps del: undigit.simps)
  qed
qed

lemma decimal_digits: "set (decimal n) \<subseteq> digit ` {..<10}"
  by (induction n rule: decimal.induct) (subst decimal.simps, auto)

lemma decimal_nonempty [simp]: "decimal n \<noteq> []"
  by (subst decimal.simps) simp

lemma digit_not_sign: "n < 10 \<Longrightarrow> digit n \<noteq> CHR ''-''" "n < 10 \<Longrightarrow> digit n \<noteq> CHR ''+''"
  by (auto simp: digit_def dest!: arg_cong [where f = "of_char :: char \<Rightarrow> nat"] simp: of_char_of)

lemma Atoi_decimal:
  assumes "int n < 2 ^ 63"
  shows "Atoi (decimal n) = Inr (int n)"
proof -
  obtain c cs where dc: "decimal n = c # cs" by (cases "decimal n") auto
  have "c \<in> digit ` {..<10}" using decimal_digits [of n] dc by auto
  then have c: "c \<noteq> CHR ''-''" "c \<noteq> CHR ''+''" using digit_not_sign by auto
  have "digits_value 0 (decimal n) = Some n" using digits_value_decimal [of n] by auto
  then show ?thesis
    using c assms unfolding Atoi_def dc by (simp add: in_int64_def)
qed

lemma split_at_plain: "c \<notin> set xs \<Longrightarrow> split_at c xs = [xs]"
  by (induction xs) auto

lemma split_at_once: "c \<notin> set xs \<Longrightarrow> c \<notin> set ys \<Longrightarrow> split_at c (xs @ c # ys) = [xs, ys]"
  by (induction xs) (auto simp: split_at_plain)

text \<open>The keys the servers and clients build.\<close>

definition key_of :: "nat \<Rightarrow> string" where
  "key_of k = ''key'' @ decimal k"

definition key_id :: "nat \<Rightarrow> nat \<Rightarrow> string" where
  "key_id k i = key_of k @ CHR ''-'' # decimal i"

lemma key_of_simps [simp]:
  "key_of 0 = ''key0''" "key_of 1 = ''key1''" "key_of (Suc 0) = ''key1''" "key_of 2 = ''key2''" "key_of 3 = ''key3''" "key_of 4 = ''key4''"
  by code_simp+

lemma no_dash_decimal: "CHR ''-'' \<notin> set (decimal n)"
  using decimal_digits [of n] digit_not_sign(1) by (metis (no_types, lifting) imageE lessThan_iff subset_iff)

lemma split_key_id: "split_at (CHR ''-'') (key_id k i) = [key_of k, decimal i]"
  unfolding key_id_def by (rule split_at_once) (simp_all add: key_of_def no_dash_decimal)

section \<open>The memory generator\<close>

text \<open>
  One stamp writes the seven letters through a \<open>bytes.Buffer\<close> over the empty slice \<open>buf[off:off]\<close>,
  whose capacity reaches to the end of \<open>buf\<close>, and a number after them. Both generators stamp every
  eight bytes of whole 128-byte blocks, so the offsets are in range and nothing of the random fill
  survives.
\<close>

definition letters :: "byte list" where
  "letters = [53, 53, 65, 65, 53, 97, 97]"

definition stamp :: "byte \<Rightarrow> nat \<Rightarrow> byte list \<Rightarrow> byte list" where
  "stamp v off buf = (fst (go_copy buf off letters))[off + 7 := v]"

definition stamp_block :: "(nat \<Rightarrow> byte) \<Rightarrow> byte list \<Rightarrow> nat \<Rightarrow> byte list" where
  "stamp_block v buf i = foldl (\<lambda>b j. stamp (v j) (i * 128 + j * 8) b) buf [0..<16]"

definition stamp_loop :: "(nat \<Rightarrow> byte) \<Rightarrow> nat \<Rightarrow> byte list \<Rightarrow> byte list" where
  "stamp_loop v n buf = foldl (stamp_block v) buf [0..<n]"

definition sub :: "nat \<Rightarrow> nat \<Rightarrow> 'a list \<Rightarrow> 'a list" where
  "sub lo hi xs = take (hi - lo) (drop lo xs)"

type_synonym mem_data = "string \<Rightarrow> byte list option"

definition NewMemData :: "(nat \<Rightarrow> byte) \<Rightarrow> mem_data" where
  "NewMemData rand =
     (let buf = stamp_loop word_of_nat (2 ^ 17) (map rand [0..<2 ^ 24]) in
      [''key0'' \<mapsto> sub 0 (4 * 2 ^ 10) buf,
       ''key1'' \<mapsto> sub (4 * 2 ^ 10) (68 * 2 ^ 10) buf,
       ''key2'' \<mapsto> sub (100 * 2 ^ 10) (228 * 2 ^ 10) buf,
       ''key3'' \<mapsto> sub (11 * 2 ^ 20) (12 * 2 ^ 20) buf,
       ''key4'' \<mapsto> sub (12 * 2 ^ 20) (16 * 2 ^ 20) buf])"

definition key_size :: "string \<Rightarrow> nat" where
  "key_size s =
     (if s = ''key4'' then 2 ^ 22 else if s = ''key3'' then 2 ^ 20 else if s = ''key2'' then 2 ^ 17
      else if s = ''key1'' then 2 ^ 16 else 2 ^ 12)"

definition MemData_Get :: "mem_data \<Rightarrow> string \<Rightarrow> go_error + byte list" where
  "MemData_Get m key =
     (case m key of
        Some res \<Rightarrow> Inr res
      | None \<Rightarrow>
          (let s = split_at (CHR ''-'') key in
           if length s \<le> 1 then Inl (Panic ''index out of range'')
           else case Atoi (s ! 1) of
                  Inl err \<Rightarrow> Inl (Panic ''strconv.Atoi'')
                | Inr i \<Rightarrow>
                    (let size = key_size (s ! 0) in
                     Inr (stamp_loop (\<lambda>_. word_of_int i) (size div 128) (replicate size 0)))))"

definition MemData_GetSize :: "mem_data \<Rightarrow> string \<Rightarrow> int" where
  "MemData_GetSize m key = int (length (case m key of None \<Rightarrow> [] | Some b \<Rightarrow> b))"

definition MemData_GetReadCloser :: "mem_data \<Rightarrow> string \<Rightarrow> go_error + byte list" where
  "MemData_GetReadCloser m key = MemData_Get m key"

definition mem_gen :: "(nat \<Rightarrow> byte) \<Rightarrow> data_gen" where
  "mem_gen rand = (let m = NewMemData rand in
     \<lparr>dg_Get = MemData_Get m, dg_GetReadCloser = MemData_GetReadCloser m, dg_GetSize = MemData_GetSize m\<rparr>)"

text \<open>What the stamps leave: the pattern, whatever the buffer held before.\<close>

definition pat :: "(nat \<Rightarrow> byte) \<Rightarrow> nat \<Rightarrow> byte" where
  "pat v p = (if p mod 8 = 7 then v (p div 8 mod 16) else letters ! (p mod 8))"

definition pattern :: "(nat \<Rightarrow> byte) \<Rightarrow> nat \<Rightarrow> byte list" where
  "pattern v n = map (pat v) [0..<n]"

lemma length_pattern [simp]: "length (pattern v n) = n"
  by (simp add: pattern_def)

lemma length_letters: "length letters = 7"
  by (simp add: letters_def)

lemma nth_stamp:
  assumes "off + 8 \<le> length buf"
  shows "length (stamp v off buf) = length buf"
    and "p < length buf \<Longrightarrow> stamp v off buf ! p =
       (if p < off \<or> off + 8 \<le> p then buf ! p else if p = off + 7 then v else letters ! (p - off))"
proof -
  have cp: "fst (go_copy buf off letters) = take off buf @ letters @ drop (off + 7) buf"
    using assms by (simp add: go_copy_fits length_letters)
  show "length (stamp v off buf) = length buf"
    using assms by (simp add: stamp_def)
  show "p < length buf \<Longrightarrow> stamp v off buf ! p =
       (if p < off \<or> off + 8 \<le> p then buf ! p else if p = off + 7 then v else letters ! (p - off))"
    using assms by (auto simp: stamp_def cp nth_list_update nth_append length_letters)
qed

lemma stamp_pattern:
  assumes m: "off = 8 * m" "v = w (m mod 16)" and len: "8 * m + 8 \<le> length buf"
    and pre: "take (8 * m) buf = pattern w (8 * m)"
  shows "take (8 * m + 8) (stamp v off buf) = pattern w (8 * m + 8)"
proof (rule nth_equalityI)
  fix p assume "p < length (take (8 * m + 8) (stamp v off buf))"
  then have p: "p < 8 * m + 8" "p < length buf" using len nth_stamp(1) [of off buf v] m(1) by auto
  show "take (8 * m + 8) (stamp v off buf) ! p = pattern w (8 * m + 8) ! p"
  proof (cases "p < 8 * m")
    case True
    then have "buf ! p = pattern w (8 * m) ! p" using pre by (metis nth_take)
    then show ?thesis using True p len m by (simp add: nth_stamp pattern_def)
  next
    case False
    then obtain r where r: "p = 8 * m + r" "r < 8" using p by (metis add_diff_inverse_nat nat_add_left_cancel_less)
    then show ?thesis using p len m by (simp add: nth_stamp pattern_def pat_def)
  qed
qed (use len m nth_stamp(1) [of off buf v] in \<open>simp add: pattern_def\<close>)

lemma stamp_block_pattern:
  assumes "128 * (i + 1) \<le> length buf" "take (128 * i) buf = pattern w (128 * i)" "J \<le> 16"
  shows "length (foldl (\<lambda>b j. stamp (w j) (i * 128 + j * 8) b) buf [0..<J]) = length buf
     \<and> take (128 * i + 8 * J) (foldl (\<lambda>b j. stamp (w j) (i * 128 + j * 8) b) buf [0..<J]) = pattern w (128 * i + 8 * J)"
  using assms(3)
proof (induction J)
  case 0
  then show ?case using assms by simp
next
  case (Suc J)
  let ?b = "foldl (\<lambda>b j. stamp (w j) (i * 128 + j * 8) b) buf [0..<J]"
  have IH: "length ?b = length buf" "take (8 * (16 * i + J)) ?b = pattern w (8 * (16 * i + J))"
    using Suc by (simp_all add: algebra_simps)
  have len: "8 * (16 * i + J) + 8 \<le> length ?b" using Suc assms(1) IH(1) by simp
  have "take (8 * (16 * i + J) + 8) (stamp (w J) (i * 128 + J * 8) ?b) = pattern w (8 * (16 * i + J) + 8)"
    by (rule stamp_pattern [OF _ _ len IH(2)]) (use Suc in simp_all)
  moreover have "length (stamp (w J) (i * 128 + J * 8) ?b) = length ?b"
    by (rule nth_stamp) (use len in simp)
  ultimately show ?case using IH(1) by (simp add: algebra_simps)
qed

lemma stamp_loop_pattern:
  assumes "128 * n \<le> length buf"
  shows "length (stamp_loop w n buf) = length buf \<and> take (128 * n) (stamp_loop w n buf) = pattern w (128 * n)"
  using assms
proof (induction n)
  case 0
  then show ?case by (simp add: stamp_loop_def pattern_def)
next
  case (Suc n)
  have "length (stamp_loop w n buf) = length buf" "take (128 * n) (stamp_loop w n buf) = pattern w (128 * n)"
    using Suc by simp_all
  then show ?case
    using stamp_block_pattern [of n "stamp_loop w n buf" w 16] Suc(2)
    by (simp add: stamp_loop_def stamp_block_def [abs_def] algebra_simps)
qed

lemma stamp_loop_whole: "length buf = 128 * n \<Longrightarrow> stamp_loop w n buf = pattern w (128 * n)"
  using stamp_loop_pattern [of n buf w] by (metis order_refl take_all)

lemma sub_pattern: "128 dvd lo \<Longrightarrow> lo \<le> hi \<Longrightarrow> hi \<le> n \<Longrightarrow> sub lo hi (pattern w n) = pattern w (hi - lo)"
proof -
  assume a: "128 dvd lo" "lo \<le> hi" "hi \<le> n"
  then obtain q where q: "lo = 128 * q" by (auto elim: dvdE)
  have shift: "pat w (lo + i) = pat w i" for i
  proof -
    have "(lo + i) mod 8 = i mod 8" unfolding q by presburger
    moreover have "(lo + i) div 8 = 16 * q + i div 8" by (simp add: q)
    ultimately show ?thesis by (simp add: pat_def)
  qed
  show ?thesis using a by (intro nth_equalityI) (auto simp: sub_def pattern_def shift)
qed

lemma NewMemData_eq:
  "NewMemData rand =
     [''key0'' \<mapsto> pattern word_of_nat (2 ^ 12), ''key1'' \<mapsto> pattern word_of_nat (2 ^ 16),
      ''key2'' \<mapsto> pattern word_of_nat (2 ^ 17), ''key3'' \<mapsto> pattern word_of_nat (2 ^ 20),
      ''key4'' \<mapsto> pattern word_of_nat (2 ^ 22)]"
proof -
  have "stamp_loop word_of_nat (2 ^ 17) (map rand [0..<2 ^ 24]) = pattern word_of_nat (128 * 2 ^ 17)"
    by (rule stamp_loop_whole) simp
  then have st: "stamp_loop word_of_nat (2 ^ 17) (map rand [0..<2 ^ 24]) = pattern word_of_nat (2 ^ 24)"
    by simp
  show ?thesis
    unfolding NewMemData_def Let_def st by (simp add: sub_pattern dvd_def)
qed

lemma MemData_Get_block:
  assumes "k < 5"
  shows "MemData_Get (NewMemData rand) (key_of k) = Inr (pattern word_of_nat (key_size (key_of k)))"
proof -
  have "k = 0 \<or> k = 1 \<or> k = 2 \<or> k = 3 \<or> k = 4" using assms by auto
  then show ?thesis
    unfolding MemData_Get_def NewMemData_eq by (elim disjE) (simp_all add: key_size_def)
qed

lemma key_id_not_block: "key_id k i \<noteq> key_of j"
proof
  assume "key_id k i = key_of j"
  then have "CHR ''-'' \<in> set (key_of j)" by (metis key_id_def in_set_conv_decomp)
  then show False by (simp add: key_of_def no_dash_decimal)
qed

lemma MemData_Get_id:
  assumes "int i < 2 ^ 63"
  shows "MemData_Get (NewMemData rand) (key_id k i) = Inr (pattern (\<lambda>_. word_of_nat i) (key_size (key_of k)))"
proof -
  have "NewMemData rand (key_id k i) = None"
    using key_id_not_block [of k i 0] key_id_not_block [of k i 1] key_id_not_block [of k i 2]
      key_id_not_block [of k i 3] key_id_not_block [of k i 4]
    by (simp add: NewMemData_eq)
  moreover have "128 * (key_size s div 128) = key_size s" for s
    by (simp add: key_size_def)
  ultimately show ?thesis
    using stamp_loop_whole [of "replicate (key_size (key_of k)) 0" "key_size (key_of k) div 128" "\<lambda>_. word_of_int (int i)"]
    by (simp add: MemData_Get_def split_key_id Atoi_decimal [OF assms])
qed

section \<open>The file generator\<close>

text \<open>
  The file system is a map from cleaned paths to contents; \<open>err\<close> is what \<open>os.Create\<close> and
  \<open>os.Stat\<close> answer for a path when they fail for another reason than the file's absence. The
  errors of \<open>file.Write\<close> are ignored by the code; here every write succeeds.
\<close>

type_synonym file_system = "string \<Rightarrow> byte list option"

fun clean_path :: "string \<Rightarrow> string" where
  "clean_path (a # b # cs) = (if a = CHR ''/'' \<and> b = CHR ''/'' then clean_path (b # cs) else a # clean_path (b # cs))"
| "clean_path [] = []"
| "clean_path [c] = [c]"

fun or_panic :: "go_error + 'a \<Rightarrow> ('a \<Rightarrow> go_error + 'b) \<Rightarrow> go_error + 'b" where
  "or_panic (Inl e) f = Inl (case e of Panic m \<Rightarrow> Panic m | _ \<Rightarrow> Panic ''error'')"
| "or_panic (Inr x) f = f x"

definition create_file :: "(string \<Rightarrow> go_error option) \<Rightarrow> (string \<Rightarrow> go_error + byte list) \<Rightarrow> string \<Rightarrow> string \<Rightarrow>
    file_system \<Rightarrow> go_error + file_system" where
  "create_file err get path key fs =
     (case err (clean_path path) of
        Some e \<Rightarrow> Inl (Panic ''create'')
      | None \<Rightarrow> or_panic (get key) (\<lambda>content. Inr (fs(clean_path path \<mapsto> content))))"

fun create_blocks :: "(string \<Rightarrow> go_error option) \<Rightarrow> (string \<Rightarrow> go_error + byte list) \<Rightarrow> string \<Rightarrow> nat list \<Rightarrow>
    file_system \<Rightarrow> go_error + file_system" where
  "create_blocks err get base [] fs = Inr fs"
| "create_blocks err get base (i # ks) fs =
     or_panic (create_file err get (base @ ''/'' @ key_of i) (key_of i) fs) (create_blocks err get base ks)"

fun create_ids :: "(string \<Rightarrow> go_error option) \<Rightarrow> (string \<Rightarrow> go_error + byte list) \<Rightarrow> string \<Rightarrow> (nat \<times> nat) list \<Rightarrow>
    file_system \<Rightarrow> go_error + file_system" where
  "create_ids err get base [] fs = Inr fs"
| "create_ids err get base ((k, i) # ks) fs =
     (let path = base @ ''/'' @ key_id k i in
      if fs (clean_path path) \<noteq> None then create_ids err get base ks fs
      else or_panic (create_file err get path (key_id k i) fs) (create_ids err get base ks))"

definition NewFileData :: "(string \<Rightarrow> go_error option) \<Rightarrow> (nat \<Rightarrow> byte) \<Rightarrow> string \<Rightarrow> file_system \<Rightarrow> go_error + file_system" where
  "NewFileData err rand base fs =
     (let get = MemData_Get (NewMemData rand) in
      or_panic (create_blocks err get base [0..<5] fs)
        (create_ids err get base (List.product [0..<5] [1..<51])))"

definition FileData_GetReadCloser :: "string \<Rightarrow> file_system \<Rightarrow> string \<Rightarrow> go_error + byte list" where
  "FileData_GetReadCloser base fs key =
     (case fs (clean_path (base @ key)) of None \<Rightarrow> Inl (Panic ''open'') | Some content \<Rightarrow> Inr content)"

definition FileData_GetSize :: "string \<Rightarrow> int" where
  "FileData_GetSize key =
     (if key = ''key0'' then 4 * 2 ^ 10 else if key = ''key1'' then 64 * 2 ^ 10
      else if key = ''key2'' then 128 * 2 ^ 10 else if key = ''key3'' then 2 ^ 20
      else if key = ''key4'' then 4 * 2 ^ 20 else 0)"

text \<open>
  \<open>Get\<close> reads into the spare capacity \<open>c\<close> of a buffer from \<open>bytebufferpool\<close>, which is empty when it
  is handed out, and returns \<open>buf.Bytes()\<close>, whose length is still 0.
\<close>

definition FileData_Get :: "string \<Rightarrow> file_system \<Rightarrow> nat \<Rightarrow> string \<Rightarrow> go_error + byte list" where
  "FileData_Get base fs c key =
     (case FileData_GetReadCloser base fs key of
        Inl e \<Rightarrow> Inl e
      | Inr content \<Rightarrow>
          (let sz = nat (FileData_GetSize key); n = min sz (length content) in
           if c < sz then Inl (Panic ''slice bounds out of range'')
           else if 0 < sz \<and> n = 0 then Inl (Panic ''EOF'')
           else if n \<noteq> sz then Inl (Panic ''short read'')
           else Inr []))"

definition file_gen :: "string \<Rightarrow> file_system \<Rightarrow> nat \<Rightarrow> data_gen" where
  "file_gen base fs c =
     \<lparr>dg_Get = FileData_Get base fs c, dg_GetReadCloser = FileData_GetReadCloser base fs, dg_GetSize = FileData_GetSize\<rparr>"

section \<open>What the generators serve\<close>

text \<open>
  The contract of the servers that stream: the five keys can be opened and give exactly as many bytes
  as \<open>GetSize\<close> says, never none. The servers that send a buffer need \<open>Get\<close> to give the same.
\<close>

locale streamed_data =
  fixes dg :: data_gen
  assumes opens: "k < 5 \<Longrightarrow> \<exists>b. dg_GetReadCloser dg (key_of k) = Inr b \<and> int (length b) = dg_GetSize dg (key_of k)
     \<and> b \<noteq> [] \<and> length b \<le> 2 ^ 22"
begin

definition block :: "nat \<Rightarrow> byte list" where
  "block k = (case dg_GetReadCloser dg (key_of k) of Inr b \<Rightarrow> b | Inl _ \<Rightarrow> [])"

lemma block_opens: "k < 5 \<Longrightarrow> dg_GetReadCloser dg (key_of k) = Inr (block k)"
  using opens [of k] by (auto simp: block_def)

lemma block_size: "k < 5 \<Longrightarrow> int (length (block k)) = dg_GetSize dg (key_of k)"
  using opens [of k] by (auto simp: block_def)

lemma block_bounds: "k < 5 \<Longrightarrow> block k \<noteq> [] \<and> length (block k) \<le> 2 ^ 22"
  using opens [of k] by (auto simp: block_def)

end

locale buffered_data = streamed_data +
  assumes gets: "k < 5 \<Longrightarrow> dg_Get dg (key_of k) = dg_GetReadCloser dg (key_of k)"
begin

lemma block_got: "k < 5 \<Longrightarrow> dg_Get dg (key_of k) = Inr (block k)"
  using gets block_opens by simp

end

lemma block_cases:
  assumes "k < 5" "P ''key0''" "P ''key1''" "P ''key2''" "P ''key3''" "P ''key4''"
  shows "P (key_of k)"
proof -
  have "k = 0 \<or> k = 1 \<or> k = 2 \<or> k = 3 \<or> k = 4" using assms(1) by auto
  then show ?thesis using assms(2-) by (elim disjE) simp_all
qed

lemma key_size_FileData: "k < 5 \<Longrightarrow> FileData_GetSize (key_of k) = int (key_size (key_of k))"
  by (rule block_cases) (simp_all add: FileData_GetSize_def key_size_def)

lemma key_size_bounds: "k < 5 \<Longrightarrow> 0 < key_size (key_of k) \<and> key_size (key_of k) \<le> 2 ^ 22"
  by (rule block_cases) (simp_all add: key_size_def)

lemma MemData_block_size:
  "k < 5 \<Longrightarrow> MemData_GetSize (NewMemData rand) (key_of k) = int (key_size (key_of k))"
  by (rule block_cases) (simp_all add: MemData_GetSize_def NewMemData_eq key_size_def)

interpretation mem: buffered_data "mem_gen rand" for rand
proof
  fix k :: nat
  assume k: "k < 5"
  have "length (pattern word_of_nat (key_size (key_of k))) \<noteq> 0"
    using key_size_bounds [OF k] by simp
  then have "pattern word_of_nat (key_size (key_of k)) \<noteq> []" by (metis list.size(3))
  then show "\<exists>b. dg_GetReadCloser (mem_gen rand) (key_of k) = Inr b
      \<and> int (length b) = dg_GetSize (mem_gen rand) (key_of k) \<and> b \<noteq> [] \<and> length b \<le> 2 ^ 22"
    using MemData_block_size [OF k] MemData_Get_block [OF k] key_size_bounds [OF k]
    by (simp add: mem_gen_def MemData_GetReadCloser_def Let_def)
qed (simp add: mem_gen_def MemData_GetReadCloser_def Let_def)

subsection \<open>Files\<close>

lemma clean_path_plain: "CHR ''/'' \<notin> set xs \<Longrightarrow> clean_path xs = xs"
  by (induction xs rule: clean_path.induct) auto

lemma clean_path_key:
  "CHR ''/'' \<notin> set key \<Longrightarrow> key \<noteq> [] \<Longrightarrow> clean_path (xs @ CHR ''/'' # key) = clean_path (xs @ [CHR ''/'']) @ key"
proof (induction xs rule: clean_path.induct)
  case 2
  then show ?case by (cases key) (auto simp: clean_path_plain)
next
  case (3 v)
  then show ?case by (cases key) (auto simp: clean_path_plain)
qed auto

lemma clean_path_slashes: "clean_path (xs @ [CHR ''/'', CHR ''/'']) = clean_path (xs @ [CHR ''/''])"
  by (induction xs rule: clean_path.induct) auto

definition keylike :: "string \<Rightarrow> bool" where
  "keylike key \<longleftrightarrow> key \<noteq> [] \<and> CHR ''/'' \<notin> set key"

lemma no_slash_decimal: "CHR ''/'' \<notin> set (decimal n)"
proof
  assume "CHR ''/'' \<in> set (decimal n)"
  then obtain d where "d < 10" "CHR ''/'' = digit d" using decimal_digits [of n] by auto
  then have "of_char (CHR ''/'') = 48 + d" by (simp add: digit_def of_char_of)
  then show False by simp
qed

lemma keylike_keys [simp]: "keylike (key_of k)" "keylike (key_id k i)"
  by (simp_all add: keylike_def key_of_def key_id_def no_slash_decimal)

text \<open>The file a key is created as and the one it is read from, for a base path ending in a slash.\<close>

definition key_path :: "string \<Rightarrow> string \<Rightarrow> string" where
  "key_path base key = clean_path base @ key"

lemma paths:
  assumes "keylike key"
  shows "clean_path ((dir @ ''/'') @ ''/'' @ key) = key_path (dir @ ''/'') key"
    and "clean_path ((dir @ ''/'') @ key) = key_path (dir @ ''/'') key"
  using assms clean_path_key [of key "dir @ ''/''"] clean_path_key [of key dir] clean_path_slashes [of dir]
  by (simp_all add: keylike_def key_path_def)

lemma key_path_inj [simp]: "key_path base a = key_path base b \<longleftrightarrow> a = b"
  by (simp add: key_path_def)

lemma create_file_ok:
  assumes "\<And>p. err p = None" "get key = Inr (d key)" "keylike key"
  shows "create_file err get ((dir @ ''/'') @ ''/'' @ key) key fs = Inr (fs(key_path (dir @ ''/'') key \<mapsto> d key))"
  unfolding create_file_def paths(1) [OF assms(3)] by (simp add: assms(1,2))

lemma create_blocks_ok:
  assumes "\<And>p. err p = None"
  shows "(\<And>i. i \<in> set ks \<Longrightarrow> get (key_of i) = Inr (d (key_of i))) \<Longrightarrow>
     \<exists>fs'. create_blocks err get (dir @ ''/'') ks fs = Inr fs'
       \<and> (\<forall>i \<in> set ks. fs' (key_path (dir @ ''/'') (key_of i)) = Some (d (key_of i)))
       \<and> (\<forall>p. p \<notin> (\<lambda>i. key_path (dir @ ''/'') (key_of i)) ` set ks \<longrightarrow> fs' p = fs p)"
proof (induction ks arbitrary: fs)
  case (Cons i ks)
  let ?fs = "fs(key_path (dir @ ''/'') (key_of i) \<mapsto> d (key_of i))"
  obtain fs' where fs': "create_blocks err get (dir @ ''/'') ks ?fs = Inr fs'"
      "\<forall>j \<in> set ks. fs' (key_path (dir @ ''/'') (key_of j)) = Some (d (key_of j))"
      "\<forall>p. p \<notin> (\<lambda>j. key_path (dir @ ''/'') (key_of j)) ` set ks \<longrightarrow> fs' p = ?fs p"
    using Cons.IH [of ?fs] Cons.prems by (metis list.set_intros(2))
  have "create_blocks err get (dir @ ''/'') (i # ks) fs = Inr fs'"
    using create_file_ok [where get = get and d = d and key = "key_of i" and fs = fs, OF assms Cons.prems] fs'(1)
    by simp
  moreover have "fs' (key_path (dir @ ''/'') (key_of i)) = Some (d (key_of i))"
  proof (cases "key_path (dir @ ''/'') (key_of i) \<in> (\<lambda>j. key_path (dir @ ''/'') (key_of j)) ` set ks")
    case True
    then obtain j where "j \<in> set ks" "key_of j = key_of i" by auto
    then show ?thesis using fs'(2) by force
  qed (use fs'(3) in simp)
  ultimately show ?case using fs'(2,3) by auto
qed simp

lemma create_ids_ok:
  assumes "\<And>p. err p = None"
  shows "(\<And>k i. (k, i) \<in> set ks \<Longrightarrow> get (key_id k i) = Inr (d (key_id k i))) \<Longrightarrow>
     \<exists>fs'. create_ids err get (dir @ ''/'') ks fs = Inr fs'
       \<and> (\<forall>p b. fs p = Some b \<longrightarrow> fs' p = Some b)
       \<and> (\<forall>(k, i) \<in> set ks. fs' (key_path (dir @ ''/'') (key_id k i)) =
            Some (case fs (key_path (dir @ ''/'') (key_id k i)) of Some b \<Rightarrow> b | None \<Rightarrow> d (key_id k i)))"
proof (induction ks arbitrary: fs)
  case (Cons x ks)
  obtain k i where x: "x = (k, i)" by (cases x)
  let ?p = "key_path (dir @ ''/'') (key_id k i)"
  let ?fs = "if fs ?p = None then fs(?p \<mapsto> d (key_id k i)) else fs"
  have pre: "\<And>k i. (k, i) \<in> set ks \<Longrightarrow> get (key_id k i) = Inr (d (key_id k i))"
    using Cons.prems by simp
  obtain fs' where fs': "create_ids err get (dir @ ''/'') ks ?fs = Inr fs'"
      "\<forall>p b. ?fs p = Some b \<longrightarrow> fs' p = Some b"
      "\<forall>(k, i) \<in> set ks. fs' (key_path (dir @ ''/'') (key_id k i)) =
            Some (case ?fs (key_path (dir @ ''/'') (key_id k i)) of Some b \<Rightarrow> b | None \<Rightarrow> d (key_id k i))"
    using Cons.IH [of ?fs, OF pre] by blast
  have step: "create_ids err get (dir @ ''/'') (x # ks) fs = Inr fs'"
    using create_file_ok [where get = get and d = d and key = "key_id k i" and fs = fs, OF assms Cons.prems]
      fs'(1) paths(1) [of "key_id k i" dir]
    by (auto simp: x Let_def)
  have here: "fs' ?p = Some (case fs ?p of Some b \<Rightarrow> b | None \<Rightarrow> d (key_id k i))"
    using fs'(2) by (cases "fs ?p") auto
  have keep: "\<forall>p b. fs p = Some b \<longrightarrow> fs' p = Some b"
  proof (intro allI impI)
    fix p b assume "fs p = Some b"
    then have "?fs p = Some b" by auto
    then show "fs' p = Some b" using fs'(2) by blast
  qed
  have "fs' (key_path (dir @ ''/'') (key_id k' i')) =
      Some (case fs (key_path (dir @ ''/'') (key_id k' i')) of Some b \<Rightarrow> b | None \<Rightarrow> d (key_id k' i'))"
    if "(k', i') \<in> set ks" for k' i'
  proof (cases "key_id k' i' = key_id k i")
    case True
    show ?thesis unfolding True by (rule here)
  next
    case False
    then have "?fs (key_path (dir @ ''/'') (key_id k' i')) = fs (key_path (dir @ ''/'') (key_id k' i'))" by simp
    then show ?thesis using fs'(3) that by force
  qed
  then show ?case using step here keep x by auto
qed simp

lemma new_files:
  assumes "\<And>p. err p = None"
  shows "\<exists>fs'. NewFileData err rand (dir @ ''/'') fs = Inr fs' \<and>
     (\<forall>k < 5. dg_GetReadCloser (file_gen (dir @ ''/'') fs' c) (key_of k) = dg_Get (mem_gen rand') (key_of k)
        \<and> dg_GetSize (file_gen (dir @ ''/'') fs' c) (key_of k) = dg_GetSize (mem_gen rand') (key_of k)) \<and>
     (\<forall>k < 5. \<forall>i \<in> {1..50}. fs (key_path (dir @ ''/'') (key_id k i)) = None \<longrightarrow>
        dg_GetReadCloser (file_gen (dir @ ''/'') fs' c) (key_id k i) = dg_Get (mem_gen rand') (key_id k i))"
proof -
  let ?get = "MemData_Get (NewMemData rand)" and ?path = "key_path (dir @ ''/'')"
  define d where "d key = (case ?get key of Inr b \<Rightarrow> b | Inl _ \<Rightarrow> [])" for key
  have get: "?get (key_of k) = Inr (d (key_of k))" if "k < 5" for k
    using that by (simp add: d_def MemData_Get_block)
  have get_id: "?get (key_id k i) = Inr (d (key_id k i))" if "i \<le> 50" for k i
    using that by (simp add: d_def MemData_Get_id)
  obtain fs1 where fs1: "create_blocks err ?get (dir @ ''/'') [0..<5] fs = Inr fs1"
      "\<forall>k < 5. fs1 (?path (key_of k)) = Some (d (key_of k))"
      "\<forall>p. p \<notin> (\<lambda>i. ?path (key_of i)) ` {0..<5} \<longrightarrow> fs1 p = fs p"
    using create_blocks_ok [where err = err and ks = "[0..<5]" and get = ?get and d = d and dir = dir and fs = fs, OF assms]
      get by auto
  obtain fs' where fs': "create_ids err ?get (dir @ ''/'') (List.product [0..<5] [1..<51]) fs1 = Inr fs'"
      "\<forall>p b. fs1 p = Some b \<longrightarrow> fs' p = Some b"
      "\<forall>k < 5. \<forall>i \<in> {1..50}. fs' (?path (key_id k i)) =
            Some (case fs1 (?path (key_id k i)) of Some b \<Rightarrow> b | None \<Rightarrow> d (key_id k i))"
    using create_ids_ok [where err = err and ks = "List.product [0..<5] [1..<51]" and get = ?get and d = d
        and dir = dir and fs = fs1, OF assms] get_id by auto
  have new: "NewFileData err rand (dir @ ''/'') fs = Inr fs'"
    unfolding NewFileData_def Let_def fs1(1) using fs'(1) by simp
  have blocks: "dg_GetReadCloser (file_gen (dir @ ''/'') fs' c) (key_of k) = ?get (key_of k)" if "k < 5" for k
    using that fs1(2) fs'(2) get [OF that]
    by (auto simp: file_gen_def FileData_GetReadCloser_def paths(2) [of "key_of k" dir, simplified])
  have ids: "dg_GetReadCloser (file_gen (dir @ ''/'') fs' c) (key_id k i) = ?get (key_id k i)"
    if "k < 5" "i \<in> {1..50}" "fs (?path (key_id k i)) = None" for k i
  proof -
    have "?path (key_id k i) \<notin> (\<lambda>i. ?path (key_of i)) ` {0..<5}"
      using key_id_not_block [of k i] by (auto simp: image_iff)
    then have "fs1 (?path (key_id k i)) = None"
      using fs1(3) that(3) by metis
    then have "fs' (?path (key_id k i)) = Some (d (key_id k i))" using fs'(3) that by simp
    then show ?thesis
      using get_id [of i k] that(2)
      by (simp add: file_gen_def FileData_GetReadCloser_def paths(2) [of "key_id k i" dir, simplified])
  qed
  show ?thesis
    using new blocks ids
    by (intro exI [of _ fs'])
      (auto simp: mem_gen_def Let_def MemData_Get_block MemData_Get_id MemData_block_size file_gen_def key_size_FileData)
qed

text \<open>The files as a data generator, when the directory was empty and can be written.\<close>

definition disk :: "(nat \<Rightarrow> byte) \<Rightarrow> string \<Rightarrow> file_system" where
  "disk rand dir = (case NewFileData (\<lambda>_. None) rand (dir @ ''/'') Map.empty of Inr fs \<Rightarrow> fs | Inl _ \<Rightarrow> Map.empty)"

definition disk_gen :: "(nat \<Rightarrow> byte) \<Rightarrow> string \<Rightarrow> data_gen" where
  "disk_gen rand dir = file_gen (dir @ ''/'') (disk rand dir) 0"

interpretation files: streamed_data "disk_gen rand dir" for rand dir
proof
  fix k :: nat
  assume k: "k < 5"
  obtain fs' where fs': "NewFileData (\<lambda>_. None) rand (dir @ ''/'') Map.empty = Inr fs'"
      "dg_GetReadCloser (file_gen (dir @ ''/'') fs' 0) (key_of k) = dg_Get (mem_gen rand) (key_of k)"
      "dg_GetSize (file_gen (dir @ ''/'') fs' 0) (key_of k) = dg_GetSize (mem_gen rand) (key_of k)"
    using new_files [of "\<lambda>_. None" rand dir Map.empty 0 rand] k by auto
  then have "disk_gen rand dir = file_gen (dir @ ''/'') fs' 0" by (simp add: disk_gen_def disk_def)
  then show "\<exists>b. dg_GetReadCloser (disk_gen rand dir) (key_of k) = Inr b
      \<and> int (length b) = dg_GetSize (disk_gen rand dir) (key_of k) \<and> b \<noteq> [] \<and> length b \<le> 2 ^ 22"
    using fs'(2,3) mem.block_got [OF k, of rand] mem.block_size [OF k, of rand] mem.block_bounds [OF k, of rand] by auto
qed

lemma disk_ids:
  assumes "k < 5" "i \<in> {1..50}"
  shows "dg_GetReadCloser (disk_gen rand dir) (key_id k i) = dg_Get (mem_gen rand) (key_id k i)"
proof -
  obtain fs' where fs': "NewFileData (\<lambda>_. None) rand (dir @ ''/'') Map.empty = Inr fs'"
      "dg_GetReadCloser (file_gen (dir @ ''/'') fs' 0) (key_id k i) = dg_Get (mem_gen rand) (key_id k i)"
    using new_files [of "\<lambda>_. None" rand dir Map.empty 0 rand] assms by auto
  then show ?thesis by (simp add: disk_gen_def disk_def)
qed

text \<open>
  C29. For a base path that ends in a slash, as the program's does, \<open>FileData\<close> streams for each of the
  five keys exactly the bytes \<open>MemData\<close> serves from memory, as many as its \<open>GetSize\<close> says, whatever
  the random fill and the old content of the directory were; and every per-request file \<open>key4-1\<close> to
  \<open>key4-50\<close> the directory did not have yet gets the bytes of \<open>MemData\<close> for it.
\<close>

theorem files_serve_memory:
  assumes "\<And>p. err p = None"
  shows "\<exists>fs'. NewFileData err rand (dir @ ''/'') fs = Inr fs' \<and>
     (\<forall>k < 5. dg_GetReadCloser (file_gen (dir @ ''/'') fs' c) (key_of k) = dg_Get (mem_gen rand') (key_of k)
        \<and> dg_GetSize (file_gen (dir @ ''/'') fs' c) (key_of k) = dg_GetSize (mem_gen rand') (key_of k)) \<and>
     (\<forall>k < 5. \<forall>i \<in> {1..50}. fs (key_path (dir @ ''/'') (key_id k i)) = None \<longrightarrow>
        dg_GetReadCloser (file_gen (dir @ ''/'') fs' c) (key_id k i) = dg_Get (mem_gen rand') (key_id k i))"
  using new_files [OF assms] .

theorem files_serve_memory_witness:
  "\<exists>fs'. NewFileData (\<lambda>_. None) (\<lambda>_. 0) ''./data/'' Map.empty = Inr fs'
     \<and> dg_GetReadCloser (file_gen ''./data/'' fs' 0) ''key4'' = dg_Get (mem_gen (\<lambda>_. 7)) ''key4''"
proof -
  obtain fs' where "NewFileData (\<lambda>_. None) (\<lambda>_. 0) (''./data'' @ ''/'') Map.empty = Inr fs'"
      "\<forall>k < 5. dg_GetReadCloser (file_gen (''./data'' @ ''/'') fs' 0) (key_of k) = dg_Get (mem_gen (\<lambda>_. 7)) (key_of k)"
    using files_serve_memory [of "\<lambda>_. None" "\<lambda>_. 0" "''./data''" Map.empty 0 "\<lambda>_. 7"] by auto
  note fs' = this
  have "dg_GetReadCloser (file_gen (''./data'' @ ''/'') fs' 0) (key_of 4) = dg_Get (mem_gen (\<lambda>_. 7)) (key_of 4)"
    by (rule fs'(2) [rule_format]) simp
  with fs'(1) show ?thesis unfolding key_of_simps append.simps by blast
qed

text \<open>
  \<open>FileData.Get\<close> never returns data: it reads into the spare capacity of an empty pooled buffer and
  returns the buffer's bytes, of which there are none. It is a panic when that capacity is too
  small for the block, and an empty slice otherwise.
\<close>

theorem FileData_Get_empty:
  assumes "k < 5" "FileData_GetReadCloser base fs (key_of k) = Inr content" "length content = key_size (key_of k)"
  shows "FileData_Get base fs c (key_of k) =
     (if c < key_size (key_of k) then Inl (Panic ''slice bounds out of range'') else Inr [])"
  using assms key_size_bounds [OF assms(1)]
  by (simp add: FileData_Get_def key_size_FileData Let_def)

theorem FileData_Get_empty_example:
  "FileData_Get ''./data/'' [''./data/key0'' \<mapsto> replicate 4096 7] 5000 ''key0'' = Inr []"
proof -
  have "FileData_GetReadCloser ''./data/'' [''./data/key0'' \<mapsto> replicate 4096 7] (key_of 0) = Inr (replicate 4096 7)"
    by (simp add: FileData_GetReadCloser_def)
  from FileData_Get_empty [OF _ this, of 5000] show ?thesis by (simp add: key_size_def)
qed

end
