(* ===== verification/Net_Iorpc.thy ===== *)
theory Net_Iorpc
  imports Rpc_Server Dispatcher Data_Gen
begin

text \<open>
  The block service on top of the RPC library, \<open>pkg/net/iorpc\<close>: the three services and their
  registration in server and client (\<open>services.go\<close>, \<open>server.go\<close>), the closure the RPC server calls, and
  the client's \<open>Get\<close> with its counter of file ids (\<open>client.go\<close>). An open file is a \<open>reader\<close> with its
  content.
\<close>

section \<open>The services\<close>

type_synonym iorpc_handler = "string \<Rightarrow> ReadHeaders request \<Rightarrow> go_error + ReadHeaders response"

text \<open>The package's variables, which every registration overwrites.\<close>

record service_vars =
  ServiceNoop :: service
  ServiceReadData :: service
  ServiceReadMemory :: service

definition no_services :: service_vars where
  "no_services = \<lparr>ServiceNoop = 0, ServiceReadData = 0, ServiceReadMemory = 0\<rparr>"

definition empty_reply :: "ReadHeaders response" where
  "empty_reply = \<lparr>res_Headers = None, res_Body = empty_body\<rparr>"

definition addServiceNoop :: "iorpc_handler dispatcher \<times> service_vars \<Rightarrow> iorpc_handler dispatcher \<times> service_vars" where
  "addServiceNoop dv =
     (case AddService (fst dv) ''Noop'' (\<lambda>addr req. Inr empty_reply) of
        ((svc, conflict), d') \<Rightarrow> (d', (snd dv)\<lparr>ServiceNoop := svc\<rparr>))"

text \<open>
  \<open>ReadData\<close>: without headers the request is for \<open>key4\<close> with id 0. \<open>isfile\<close> says whether the generator's
  readers are files, as the type assertion demands; without a generator (the client registers nil) the
  handler panics.
\<close>

definition file_reader :: "byte list \<Rightarrow> reader" where
  "file_reader content = \<lparr>r_kind = RFile, r_data = content, r_pos = 0, r_closes = 0\<rparr>"

definition read_params :: "data_gen \<Rightarrow> ReadHeaders option \<Rightarrow> ReadHeaders" where
  "read_params dg ho =
     (case ho of
        None \<Rightarrow> \<lparr>rh_CMD = 4, rh_Offset = 0, rh_Size = word_of_int (dg_GetSize dg (key_of 4)), rh_ID = 0\<rparr>
      | Some h \<Rightarrow> \<lparr>rh_CMD = rh_CMD h, rh_Offset = rh_Offset h,
           rh_Size = (if rh_Size h > 0 then rh_Size h else word_of_int (dg_GetSize dg (key_of (unat (rh_CMD h))))),
           rh_ID = rh_ID h\<rparr>)"

definition data_key :: "ReadHeaders \<Rightarrow> string" where
  "data_key p = (if rh_CMD p = 4 then key_id (unat (rh_CMD p)) (unat (rh_ID p)) else key_of (unat (rh_CMD p)))"

definition read_data :: "bool \<Rightarrow> data_gen option \<Rightarrow> iorpc_handler" where
  "read_data isfile dgo addr req =
     (case dgo of
        None \<Rightarrow> Inl (Panic ''nil pointer dereference'')
      | Some dg \<Rightarrow>
          (let p = read_params dg (req_Headers req) in
           case dg_GetReadCloser dg (data_key p) of
             Inl e \<Rightarrow> Inl e
           | Inr content \<Rightarrow>
               if \<not> isfile then Inl (Panic ''interface conversion'')
               else Inr \<lparr>res_Headers = Some p,
                      res_Body = \<lparr>b_Offset = rh_Offset p, b_Size = rh_Size p,
                        b_Reader = Some (file_reader content), b_NotClose = True\<rparr>\<rparr>))"

definition addServiceReadData :: "bool \<Rightarrow> data_gen option \<Rightarrow> iorpc_handler dispatcher \<times> service_vars \<Rightarrow>
    iorpc_handler dispatcher \<times> service_vars" where
  "addServiceReadData isfile dgo dv =
     (case AddService (fst dv) ''ReadData'' (read_data isfile dgo) of
        ((svc, conflict), d') \<Rightarrow> (d', (snd dv)\<lparr>ServiceReadData := svc\<rparr>))"

definition addServiceReadMemory :: "iorpc_handler dispatcher \<times> service_vars \<Rightarrow> iorpc_handler dispatcher \<times> service_vars" where
  "addServiceReadMemory dv =
     (case AddService (fst dv) ''ReadMemory'' (\<lambda>addr req. Inr empty_reply) of
        ((svc, conflict), d') \<Rightarrow> (d', (snd dv)\<lparr>ServiceReadMemory := svc\<rparr>))"

text \<open>\<open>NewServer\<close> and the client's \<open>NewDispatcherForClient\<close>, which throws the dispatcher away.\<close>

definition iorpc_NewServer :: "bool \<Rightarrow> data_gen \<Rightarrow> iorpc_handler dispatcher \<times> service_vars" where
  "iorpc_NewServer isfile dg =
     addServiceReadMemory (addServiceReadData isfile (Some dg) (addServiceNoop (NewDispatcher, no_services)))"

definition NewDispatcherForClient :: service_vars where
  "NewDispatcherForClient =
     snd (addServiceReadMemory (addServiceReadData False None (addServiceNoop (NewDispatcher, no_services))))"

text \<open>The handler the RPC server gets: the dispatcher's closure, with its panics and error texts.\<close>

fun error_text :: "go_error \<Rightarrow> string" where
  "error_text EOF = ''EOF''"
| "error_text UnexpectedEOF = ''unexpected EOF''"
| "error_text (ErrMsg m) = m"
| "error_text (Wrap m e) = m @ '': '' @ error_text e"
| "error_text (Panic m) = m"

definition iorpc_HandlerFunc :: "iorpc_handler dispatcher \<Rightarrow> ReadHeaders handler" where
  "iorpc_HandlerFunc d addr req =
     (case dispatch d addr (req_Service req) req of
        Inr resp \<Rightarrow> HReturn (Some resp) None
      | Inl e \<Rightarrow> if is_panic e then HPanic (bytes_of (error_text e)) else HReturn None (Some (bytes_of (error_text e))))"

text \<open>The message that the RPC server's writer encodes for a request with id \<open>i\<close>.\<close>

definition reply_message :: "u64 \<Rightarrow> ReadHeaders handler_result \<Rightarrow> ReadHeaders wireResponse" where
  "reply_message i result =
     (let (resp, err) = callHandlerWithRecover result;
          wr = new_response\<lparr>rp_ID := i, rp_Error := err\<rparr> in
      case resp of None \<Rightarrow> wr | Some r \<Rightarrow> wr\<lparr>rp_Body := res_Body r, rp_Headers := res_Headers r\<rparr>)"

section \<open>The client\<close>

text \<open>The request of \<open>Get\<close> for a command and the id that the counter gave.\<close>

definition get_rpc_request :: "service_vars \<Rightarrow> byte \<Rightarrow> u64 \<Rightarrow> ReadHeaders request" where
  "get_rpc_request v cmd i =
     \<lparr>req_Service = ServiceReadData v,
      req_Headers = Some \<lparr>rh_CMD = ucast cmd, rh_Offset = 0, rh_Size = 0, rh_ID = i\<rparr>,
      req_Body = empty_body\<rparr>"

text \<open>
  What \<open>Get\<close> makes of a response: the size, from the headers if there are any, and that much of a
  package-wide buffer of zeros; the reader is closed, not read, and must not be nil.
\<close>

definition static_buf :: nat where
  "static_buf = 5120 * 1024"

definition iorpc_Get_result :: "ReadHeaders response \<Rightarrow> go_error + u32 \<times> byte list" where
  "iorpc_Get_result resp =
     (let sz = (case res_Headers resp of Some h \<Rightarrow> ucast (rh_Size h) | None \<Rightarrow> ucast (b_Size (res_Body resp))) :: u32 in
      if b_Reader (res_Body resp) = None then Inl (Panic ''nil pointer dereference'')
      else if static_buf < unat sz then Inl (Panic ''slice bounds out of range'')
      else Inr (sz, replicate (unat sz) 0))"

text \<open>
  The counter: \<open>if nextID.Load() > 20 { nextID.Store(0) }\<close> and later \<open>nextID.Add(1)\<close>, each atomic but
  not together. A goroutine in \<open>Get\<close> has loaded a large value and will store (\<open>WillStore\<close>), or will add
  (\<open>WillAdd\<close>). The step gives the id it returned.
\<close>

datatype id_pc = WillStore | WillAdd

record id_state =
  id_next :: nat
  id_pcs :: "id_pc list"

inductive id_step :: "id_state \<Rightarrow> nat option \<Rightarrow> id_state \<Rightarrow> bool" where
  load: "id_step s None (s\<lparr>id_pcs := (if 20 < id_next s then WillStore else WillAdd) # id_pcs s\<rparr>)"
| store: "WillStore \<in> set (id_pcs s) \<Longrightarrow>
     id_step s None \<lparr>id_next = 0, id_pcs = WillAdd # remove1 WillStore (id_pcs s)\<rparr>"
| add: "WillAdd \<in> set (id_pcs s) \<Longrightarrow>
     id_step s (Some (id_next s + 1)) \<lparr>id_next = id_next s + 1, id_pcs = remove1 WillAdd (id_pcs s)\<rparr>"

text \<open>Runs in which never more than \<open>n\<close> goroutines are inside.\<close>

inductive id_run :: "nat \<Rightarrow> id_state \<Rightarrow> nat list \<Rightarrow> bool" for n where
  id_start: "id_run n \<lparr>id_next = 0, id_pcs = []\<rparr> []"
| id_more: "id_run n s is \<Longrightarrow> id_step s r s' \<Longrightarrow> length (id_pcs s') \<le> n \<Longrightarrow>
     id_run n s' (case r of None \<Rightarrow> is | Some i \<Rightarrow> i # is)"

section \<open>Properties\<close>

lemma iorpc_NewServer_eq:
  "iorpc_NewServer isfile dg =
     (\<lparr>services = [(\<lambda>addr req. Inr empty_reply), read_data isfile (Some dg), (\<lambda>addr req. Inr empty_reply)],
       serviceNameMap = [''Noop'' \<mapsto> 0, ''ReadData'' \<mapsto> 1, ''ReadMemory'' \<mapsto> 2]\<rparr>,
      \<lparr>ServiceNoop = 0, ServiceReadData = 1, ServiceReadMemory = 2\<rparr>)"
  by (simp add: iorpc_NewServer_def addServiceNoop_def addServiceReadData_def addServiceReadMemory_def
      AddService_def NewDispatcher_def no_services_def Let_def)

lemma services_agree: "NewDispatcherForClient = snd (iorpc_NewServer isfile dg)"
  by (simp add: iorpc_NewServer_eq)
    (simp add: NewDispatcherForClient_def addServiceNoop_def addServiceReadData_def addServiceReadMemory_def
      AddService_def NewDispatcher_def no_services_def Let_def)

lemma dispatch_read_data:
  "req_Service req = ServiceReadData NewDispatcherForClient \<Longrightarrow>
     dispatch (fst (iorpc_NewServer isfile dg)) addr (req_Service req) req = read_data isfile (Some dg) addr req"
  unfolding services_agree [of isfile dg] by (simp add: iorpc_NewServer_eq dispatch_def)

text \<open>The reply to a client's request for a file that exists.\<close>

lemma read_data_reply:
  assumes "dg_GetReadCloser dg (if cmd = 4 then key_id 4 (unat i) else key_of (unat cmd)) = Inr content"
    and "dg_GetSize dg (key_of (unat cmd)) = int (length content)"
  shows "reply_message m (iorpc_HandlerFunc (fst (iorpc_NewServer True dg)) addr (get_rpc_request NewDispatcherForClient cmd i))
     = \<lparr>rp_ID = m, rp_Headers = Some \<lparr>rh_CMD = ucast cmd, rh_Offset = 0, rh_Size = word_of_nat (length content), rh_ID = i\<rparr>,
        rp_Body = \<lparr>b_Offset = 0, b_Size = word_of_nat (length content), b_Reader = Some (file_reader content), b_NotClose = True\<rparr>,
        rp_Error = []\<rparr>"
proof -
  let ?req = "get_rpc_request NewDispatcherForClient cmd i"
  have "unat cmd < 2 ^ LENGTH(8)" by (rule unsigned_less)
  then have u: "unat (ucast cmd :: u64) = unat cmd" by (simp add: unsigned_ucast_eq take_bit_nat_eq_self_iff)
  have four: "(ucast cmd :: u64) = 4 \<longleftrightarrow> cmd = 4"
  proof
    assume "(ucast cmd :: u64) = 4"
    then have "unat cmd = unat (4 :: byte)" using u by simp
    then show "cmd = 4" by (rule unsigned_word_eqI)
  qed simp
  have p: "read_params dg (req_Headers ?req)
      = \<lparr>rh_CMD = ucast cmd, rh_Offset = 0, rh_Size = word_of_nat (length content), rh_ID = i\<rparr>"
    using assms(2) by (simp add: read_params_def get_rpc_request_def u)
  moreover have "dg_GetReadCloser dg (data_key (read_params dg (req_Headers ?req))) = Inr content"
    using assms(1) by (auto simp: p data_key_def four u)
  moreover have "req_Service ?req = ServiceReadData NewDispatcherForClient" by (simp add: get_rpc_request_def)
  ultimately show ?thesis
    using dispatch_read_data [of ?req True dg addr]
    by (simp add: reply_message_def iorpc_HandlerFunc_def callHandlerWithRecover_def read_data_def Let_def new_response_def)
qed

text \<open>
  C11. A block goes from the server's files to the client: the client's request, handled by the services
  the server registered and encoded by its writer, is decoded by the client, from any segmentation and with
  or without splicing, to a response with the command, the id and the size of the file and a reader that
  holds exactly the file's content; what \<open>Get\<close> returns has that size but is a buffer of zeros.
\<close>

theorem read_data_served:
  assumes stored: "dg_GetReadCloser dg (if cmd = 4 then key_id 4 (unat i) else key_of (unat cmd)) = Inr content"
    and sz: "dg_GetSize dg (key_of (unat cmd)) = int (length content)" "length content \<le> static_buf"
    and resp: "resp = reply_message m (iorpc_HandlerFunc (fst (iorpc_NewServer True dg)) addr (get_rpc_request NewDispatcherForClient cmd i))"
    and enc: "EncodeResponse env rnd std_registry read_impl e resp = Some (None, e', b')"
    and fl: "flush_before e (rp_Body resp) = (None, e1)" and fits: "head_fits rnd (e_buf e1) 32"
  shows "\<exists>msg. pending e' = pending e @ msg
    \<and> (\<forall>segs r. concat segs = msg @ r \<and> (conn \<longrightarrow> pipe_loads env' (content @ r) (int (length content))) \<longrightarrow>
        (\<exists>wr rd d'. DecodeResponse env' std_registry read_impl
            (newMessageDecoder segs conn zero_stats False) new_response = Some (Inr wr, d')
          \<and> rp_ID wr = m \<and> rp_Error wr = [] \<and> concat (d_in d') = r
          \<and> rp_Headers wr = Some \<lparr>rh_CMD = ucast cmd, rh_Offset = 0, rh_Size = word_of_nat (length content), rh_ID = i\<rparr>
          \<and> b_Reader (rp_Body wr) = Some rd \<and> r_rest rd = content
          \<and> iorpc_Get_result \<lparr>res_Headers = rp_Headers wr, res_Body = rp_Body wr\<rparr>
              = Inr (word_of_nat (length content), replicate (length content) 0)))"
proof -
  let ?n = "length content"
  have small: "?n < 2 ^ 32" using sz(2) by (simp add: static_buf_def)
  then have un: "unat (word_of_nat ?n :: u64) = ?n" "unat (word_of_nat ?n :: u32) = ?n" by (simp_all add: unat_of_nat)
  then have uc: "(ucast (word_of_nat ?n :: u64) :: u32) = word_of_nat ?n"
    by (metis of_nat_unat)
  have r: "rp_ID resp = m" "rp_Error resp = []"
      "rp_Headers resp = Some \<lparr>rh_CMD = ucast cmd, rh_Offset = 0, rh_Size = word_of_nat ?n, rh_ID = i\<rparr>"
      "rp_Body resp = \<lparr>b_Offset = 0, b_Size = word_of_nat ?n, b_Reader = Some (file_reader content), b_NotClose = True\<rparr>"
    unfolding resp read_data_reply [OF stored sz(1)] by simp_all
  have ui: "uint (word_of_nat ?n :: u64) = int ?n" using un(1) by (simp add: uint_nat)
  have st: "body_steady (rp_Body resp)"
    using small ui by (simp add: body_steady_def r file_reader_def to_int_def)
  have bytes: "body_bytes (rp_Body resp) = content"
    using un(1) by (simp add: body_bytes_def r file_reader_def r_rest_def)
  have sent: "pending e' = pending e @ response_msg resp" "length (body_bytes (rp_Body resp)) = unat (b_Size (rp_Body resp))"
    using response_sent [OF enc st fl fits] by simp_all
  have got: "iorpc_Get_result \<lparr>res_Headers = rp_Headers resp, res_Body = empty_body\<lparr>b_Size := b_Size (rp_Body resp), b_Reader := Some rd\<rparr>\<rparr>
      = Inr (word_of_nat ?n, replicate ?n 0)" for rd
    using sz(2) un by (simp add: iorpc_Get_result_def r uc)
  show ?thesis
  proof (rule exI [of _ "response_msg resp"], rule conjI [OF sent(1)], intro allI impI, elim conjE)
    fix segs rest assume seg: "concat segs = response_msg resp @ rest" and c: "conn \<longrightarrow> pipe_loads env' (content @ rest) (int ?n)"
    have c': "conn \<longrightarrow> pipe_loads env' (body_bytes (rp_Body resp) @ rest) (uint (b_Size (rp_Body resp)))"
      using c by (simp add: bytes) (simp add: r ui)
    obtain rd d' where d: "DecodeResponse env' std_registry read_impl (newMessageDecoder segs conn zero_stats False) new_response
        = Some (Inr \<lparr>rp_ID = rp_ID resp, rp_Headers = rp_Headers resp,
            rp_Body = empty_body\<lparr>b_Size := b_Size (rp_Body resp), b_Reader := Some rd\<rparr>, rp_Error = rp_Error resp\<rparr>, d')"
        "r_rest rd = content" "concat (d_in d') = rest"
      using response_received [OF seg c' st sent(2), of False] r(2) bytes by auto
    show "\<exists>wr rd d'. DecodeResponse env' std_registry read_impl
            (newMessageDecoder segs conn zero_stats False) new_response = Some (Inr wr, d')
          \<and> rp_ID wr = m \<and> rp_Error wr = [] \<and> concat (d_in d') = rest
          \<and> rp_Headers wr = Some \<lparr>rh_CMD = ucast cmd, rh_Offset = 0, rh_Size = word_of_nat ?n, rh_ID = i\<rparr>
          \<and> b_Reader (rp_Body wr) = Some rd \<and> r_rest rd = content
          \<and> iorpc_Get_result \<lparr>res_Headers = rp_Headers wr, res_Body = rp_Body wr\<rparr> = Inr (word_of_nat ?n, replicate ?n 0)"
      by (rule exI, rule exI [of _ rd], rule exI, intro conjI, rule d(1)) (simp_all add: d(2,3) r(1-3) got [unfolded r(3)])
  qed
qed

definition three_bytes :: data_gen where
  "three_bytes = \<lparr>dg_Get = (\<lambda>key. Inr [10, 20, 30]), dg_GetReadCloser = (\<lambda>key. Inr [10, 20, 30]), dg_GetSize = (\<lambda>key. 3)\<rparr>"

definition file_reply :: "ReadHeaders wireResponse" where
  "file_reply = reply_message 7 (iorpc_HandlerFunc (fst (iorpc_NewServer True three_bytes)) ''b:2''
     (get_rpc_request NewDispatcherForClient 4 9))"

theorem read_data_served_witness:
  "\<exists>e' b' msg wr rd d'. EncodeResponse slow_kernel (\<lambda>n. n) std_registry read_impl
      (newMessageEncoder 0 open_sock zero_stats) file_reply = Some (None, e', b') \<and> pending e' = msg \<and>
    DecodeResponse slow_kernel std_registry read_impl
      (newMessageDecoder [take 40 msg, drop 40 msg] False zero_stats False) new_response = Some (Inr wr, d') \<and>
    b_Reader (rp_Body wr) = Some rd \<and> r_rest rd = [10, 20, 30] \<and>
    iorpc_Get_result \<lparr>res_Headers = rp_Headers wr, res_Body = rp_Body wr\<rparr> = Inr (3, [0, 0, 0])"
proof -
  let ?e = "newMessageEncoder 0 open_sock zero_stats" and ?c = "[10, 20, 30] :: byte list"
  have stored: "dg_GetReadCloser three_bytes (if (4 :: byte) = 4 then key_id 4 (unat (9 :: u64)) else key_of (unat (4 :: byte))) = Inr ?c"
    and sz: "dg_GetSize three_bytes (key_of (unat (4 :: byte))) = int (length ?c)" "length ?c \<le> static_buf"
    by (simp_all add: three_bytes_def static_buf_def)
  have resp: "file_reply = \<lparr>rp_ID = 7, rp_Headers = Some \<lparr>rh_CMD = 4, rh_Offset = 0, rh_Size = 3, rh_ID = 9\<rparr>,
      rp_Body = \<lparr>b_Offset = 0, b_Size = 3, b_Reader = Some (file_reader ?c), b_NotClose = True\<rparr>, rp_Error = []\<rparr>"
    unfolding file_reply_def read_data_reply [OF stored sz(1)] by simp
  have "case EncodeResponse slow_kernel (\<lambda>n. n) std_registry read_impl ?e
      \<lparr>rp_ID = 7, rp_Headers = Some \<lparr>rh_CMD = 4, rh_Offset = 0, rh_Size = 3, rh_ID = 9\<rparr>,
       rp_Body = \<lparr>b_Offset = 0, b_Size = 3, b_Reader = Some (file_reader ?c), b_NotClose = True\<rparr>, rp_Error = []\<rparr> of
      Some (None, e', b') \<Rightarrow> True | _ \<Rightarrow> False" by code_simp
  then obtain e' b' where enc: "EncodeResponse slow_kernel (\<lambda>n. n) std_registry read_impl ?e file_reply = Some (None, e', b')"
    unfolding resp by (auto split: option.splits prod.splits)
  have fl: "flush_before ?e (rp_Body file_reply) = (None, ?e)" unfolding resp by code_simp
  have fits: "head_fits (\<lambda>n. n) (e_buf ?e) 32" by code_simp
  obtain msg where msg: "pending e' = pending ?e @ msg" and dec: "\<And>segs r. concat segs = msg @ r \<and>
      (False \<longrightarrow> pipe_loads slow_kernel (?c @ r) (int (length ?c))) \<Longrightarrow>
      \<exists>wr rd d'. DecodeResponse slow_kernel std_registry read_impl
            (newMessageDecoder segs False zero_stats False) new_response = Some (Inr wr, d')
          \<and> rp_ID wr = 7 \<and> rp_Error wr = [] \<and> concat (d_in d') = r
          \<and> rp_Headers wr = Some \<lparr>rh_CMD = ucast (4 :: byte), rh_Offset = 0, rh_Size = word_of_nat (length ?c), rh_ID = 9\<rparr>
          \<and> b_Reader (rp_Body wr) = Some rd \<and> r_rest rd = ?c
          \<and> iorpc_Get_result \<lparr>res_Headers = rp_Headers wr, res_Body = rp_Body wr\<rparr>
              = Inr (word_of_nat (length ?c), replicate (length ?c) 0)"
    using read_data_served [OF stored sz file_reply_def enc fl fits, where conn = False
        and env' = slow_kernel] by blast
  have "pending ?e = []" by (simp add: pending_def newMessageEncoder_def open_sock_def)
  then have "pending e' = msg" using msg by simp
  moreover have "concat [take 40 msg, drop 40 msg] = msg @ []" by simp
  ultimately show ?thesis using enc dec [of "[take 40 msg, drop 40 msg]" "[]"] by auto
qed

section \<open>The counter of ids\<close>

definition id_inv :: "nat \<Rightarrow> id_state \<Rightarrow> bool" where
  "id_inv n s \<longleftrightarrow> length (id_pcs s) \<le> n \<and> id_next s + count_list (id_pcs s) WillAdd \<le> 20 + n"

lemma count_list_remove1: "x \<in> set xs \<Longrightarrow> count_list (remove1 x xs) y + (if x = y then 1 else 0) = count_list xs y"
  by (induction xs) auto

lemma id_step_inv:
  assumes "id_step s r s'" "id_inv n s" "length (id_pcs s') \<le> n"
  shows "id_inv n s' \<and> (\<forall>i. r = Some i \<longrightarrow> 1 \<le> i \<and> i \<le> 20 + n)"
  using assms
proof cases
  case load
  have "count_list (id_pcs s) WillAdd \<le> length (id_pcs s)" by (rule count_le_length)
  then show ?thesis using load assms(2,3) by (auto simp: id_inv_def)
next
  case store
  have "count_list (id_pcs s') WillAdd \<le> length (id_pcs s')" by (rule count_le_length)
  then show ?thesis using store assms(3) by (auto simp: id_inv_def)
next
  case add
  then show ?thesis
    using assms(2,3) count_list_remove1 [OF add(3), of WillAdd] by (auto simp: id_inv_def)
qed

lemma id_run_inv: "id_run n s is \<Longrightarrow> id_inv n s \<and> (\<forall>i \<in> set is. 1 \<le> i \<and> i \<le> 20 + n)"
proof (induction rule: id_run.induct)
  case id_start
  then show ?case by (simp add: id_inv_def)
next
  case (id_more s "is" r s')
  then show ?case using id_step_inv [OF id_more(2) _ id_more(3)] by (auto split: option.splits)
qed

text \<open>
  The counter of file ids is not atomic, but with at most \<open>n\<close> goroutines in \<open>Get\<close> at a time every id
  it gives is between 1 and 20 + \<open>n\<close>; with up to 30 of them every id therefore has its file among the 50
  that the server's data generator wrote, with the content of the memory generator.
\<close>

theorem file_ids_bounded:
  assumes "id_run n s is" "i \<in> set is"
  shows "1 \<le> i \<and> i \<le> 20 + n \<and>
    (n \<le> 30 \<longrightarrow> dg_GetReadCloser (disk_gen rand dir) (key_id 4 i) = dg_Get (mem_gen rand) (key_id 4 i))"
  using id_run_inv [OF assms(1)] assms(2) disk_ids [of 4 i rand dir] by auto

theorem file_ids_bounded_witness:
  "\<exists>s. id_run 2 s [2, 1] \<and> (\<forall>i \<in> set [2, 1]. i \<le> 20 + (2::nat))"
proof -
  have "id_run 2 \<lparr>id_next = 0, id_pcs = [WillAdd]\<rparr> []"
    using id_more [OF id_start id_step.load, of 2] by simp
  then have "id_run 2 \<lparr>id_next = 0, id_pcs = [WillAdd, WillAdd]\<rparr> []"
    using id_more [OF _ id_step.load, of 2 "\<lparr>id_next = 0, id_pcs = [WillAdd]\<rparr>" "[]"] by simp
  then have "id_run 2 \<lparr>id_next = 1, id_pcs = [WillAdd]\<rparr> [1]"
    using id_more [OF _ id_step.add, of 2 "\<lparr>id_next = 0, id_pcs = [WillAdd, WillAdd]\<rparr>" "[]"] by simp
  then have run: "id_run 2 \<lparr>id_next = 2, id_pcs = []\<rparr> [2, 1]"
    using id_more [OF _ id_step.add, of 2 "\<lparr>id_next = 1, id_pcs = [WillAdd]\<rparr>" "[1]"] by (simp add: numeral_2_eq_2)
  then show ?thesis using file_ids_bounded [OF run] by blast
qed

end
