(* ===== verification/Rpc_Serve.thy ===== *)
theory Rpc_Serve
  imports Rpc_Runs Net_Iorpc
begin

text \<open>
  Client and server of \<open>pkg/iorpc\<close> together: what the client's writer has put on the connection is what the
  server's reader takes from it, and what the server's writer puts on it is what the client's reader takes.
  The server is followed on one of its connections through any interleaving of its goroutines and of its
  other connections; at the end stands the block service of \<open>pkg/net/iorpc\<close>, from the queued calls to the
  contents in their results.
\<close>

section \<open>Responses with a body\<close>

text \<open>The responses that empty the encoder's buffer.\<close>

definition body_response :: "ReadHeaders wireResponse \<Rightarrow> bool" where
  "body_response wr \<longleftrightarrow> rp_Error wr = [] \<and> body_steady (rp_Body wr) \<and> b_Size (rp_Body wr) \<noteq> 0"

definition idle_encoder :: "messageEncoder \<Rightarrow> bool" where
  "idle_encoder e \<longleftrightarrow> hb_data (e_buf e) = [] \<and> headerBufferSize \<le> hb_cap (e_buf e)"

lemma reply_message_eq: "reply_message i res = response_of (i, callHandlerWithRecover res)"
  by (simp add: reply_message_def response_of_def split: prod.splits)

lemma response_of_ID [simp]: "rp_ID (response_of (i, x)) = i"
  by (simp add: response_of_def Let_def split: prod.splits option.splits)

lemma hb_Write_cap: "(\<And>n. n \<le> rnd n) \<Longrightarrow> hb_cap b \<le> hb_cap (hb_Write rnd b p)"
  using order_trans [of "hb_cap b" "max (length (hb_data b) + length p) (2 * hb_cap b)"
      "rnd (max (length (hb_data b) + length p) (2 * hb_cap b))"]
  by (simp add: hb_Write_def)

lemma hb_Writes_cap: "(\<And>n. n \<le> rnd n) \<Longrightarrow> hb_cap b \<le> hb_cap (foldl (hb_Write rnd) b cs)"
proof (induction cs arbitrary: b)
  case (Cons c cs)
  show ?case using order_trans [OF hb_Write_cap [of rnd b c] Cons.IH [of "hb_Write rnd b c"]] Cons.prems by simp
qed simp

lemma hb_patch_cap [simp]: "hb_cap (hb_patch b arr idx line) = hb_cap b"
  by (simp add: hb_patch_def)

lemma put_headers_cap:
  "(\<And>n. n \<le> rnd n) \<Longrightarrow> put_headers rnd reg impl ho b = (x, b') \<Longrightarrow> hb_cap b \<le> hb_cap b'"
  by (auto simp: put_headers_def Let_def intro: hb_Writes_cap split: option.splits if_splits prod.splits sum.splits)

lemma encodeResponseHeaders_cap:
  assumes rnd: "\<And>n. n \<le> rnd n" and enc: "encodeResponseHeaders rnd reg impl e resp = (None, e')"
  shows "hb_cap (e_buf e) \<le> hb_cap (e_buf e')"
proof -
  let ?b1 = "hb_Write rnd (e_buf e) (replicate startLineSize 0)"
  have err: "hb_cap x \<le> hb_cap (hb_Write rnd (hb_patch x a i l) er)" for x a i l er
    using hb_Write_cap [OF rnd, of "hb_patch x a i l" er] by simp
  obtain x b2 where b2: "put_headers rnd reg impl (rp_Headers resp) ?b1 = (Inr x, b2)"
      "hb_cap b2 \<le> hb_cap (e_buf e')"
    using enc err by (fastforce simp: encodeResponseHeaders_def Let_def split: prod.splits sum.splits if_splits)
  show ?thesis
    using order_trans [OF hb_Write_cap [OF rnd] order_trans [OF put_headers_cap [OF rnd b2(1)] b2(2)]] .
qed

lemma encode_body_buf:
  assumes "encode_body env e b = Some (None, e', b')" "b_Size b \<noteq> 0" "b_Reader b \<noteq> None"
  shows "hb_data (e_buf e') = [] \<and> hb_cap (e_buf e') = hb_cap (e_buf e)"
proof -
  obtain e1 where e1: "Flush e = (None, e1)" "e_buf e' = e_buf e1"
    using assms by (auto simp: encode_body_def split: prod.splits option.splits bool.splits)
  show ?thesis using Flush_ok [OF e1(1)] e1(2) by simp
qed

lemma EncodeResponse_body:
  assumes rnd: "\<And>n. n \<le> rnd n" and e: "idle_encoder e" and wr: "body_response wr"
    and enc: "EncodeResponse env rnd std_registry read_impl e wr = Some (None, e', b')"
  shows "pending e' = pending e @ response_msg wr \<and> idle_encoder e' \<and> plain_response wr"
proof -
  have st: "body_steady (rp_Body wr)" and nz: "b_Size (rp_Body wr) \<noteq> 0" using wr by (simp_all add: body_response_def)
  then have rd: "b_Reader (rp_Body wr) \<noteq> None" by (auto simp: body_steady_def split: option.splits)
  obtain e1 e2 e3 where s: "flush_before e (rp_Body wr) = (None, e1)"
      "encodeResponseHeaders rnd std_registry read_impl e1 wr = (None, e2)" "flush_full e2 = (None, e3)"
      "encode_body env e3 (rp_Body wr) = Some (None, e', b')"
    using enc by (auto simp: EncodeResponse_def split: prod.splits option.splits)
  have c1: "hb_cap (e_buf e1) = hb_cap (e_buf e)" "hb_data (e_buf e1) = []"
    using flush_before_ok [OF s(1)] e by (simp_all add: idle_encoder_def)
  have fits: "head_fits rnd (e_buf e1) 32"
    using c1 e by (simp add: head_fits_def idle_encoder_def hb_Write_def startLineSize_def headerBufferSize_def)
  have "hb_cap (e_buf e3) = hb_cap (e_buf e2)"
    using s(3) Flush_ok by (auto simp: flush_full_def split: if_splits)
  then have "headerBufferSize \<le> hb_cap (e_buf e3)"
    using encodeResponseHeaders_cap [OF rnd s(2)] c1(1) e by (simp add: idle_encoder_def)
  then have "idle_encoder e'" using encode_body_buf [OF s(4) nz rd] by (simp add: idle_encoder_def)
  then show ?thesis
    using response_sent [OF enc st s(1) fits] wr by (simp add: plain_response_def body_response_def)
qed

section \<open>One connection of the server\<close>

text \<open>
  Reading: the requests received are the first of those on the stream, and unless the reader has stopped, the
  rest of the stream is still to be read. Writing: unless the writer has stopped, the stream is the messages of
  the outcomes, in the order in which the writer took them.
\<close>

definition asked_for :: "ReadHeaders wireRequest \<Rightarrow> u64 \<times> ReadHeaders request \<Rightarrow> bool" where
  "asked_for wr p \<longleftrightarrow> fst p = rq_ID wr \<and> req_Service (snd p) = rq_Service wr \<and> req_Headers (snd p) = rq_Headers wr"

definition reading :: "ReadHeaders wireRequest list \<Rightarrow> byte list \<Rightarrow> ReadHeaders sconn \<Rightarrow> bool" where
  "reading reqs r cn \<longleftrightarrow>
     list_all2 asked_for (take (length (sc_received cn)) reqs) (sc_received cn)
     \<and> (\<not> sc_rdone cn \<longrightarrow> hdr_ring 32 (d_hdr (sc_d cn)) \<and> concat (d_in (sc_d cn)) =
          concat (map (request_wire std_registry read_impl) (drop (length (sc_received cn)) reqs)) @ r)"

definition writing :: "byte list \<Rightarrow> ReadHeaders sconn \<Rightarrow> bool" where
  "writing out cn \<longleftrightarrow> (\<not> sc_wdone cn \<longrightarrow> idle_encoder (sc_e cn)
     \<and> pending (sc_e cn) = out @ concat (map (response_msg \<circ> response_of) (rev (sc_written cn)))
     \<and> (\<forall>p \<in> set (sc_written cn). plain_response (response_of p)))"

definition serving :: "ReadHeaders wireRequest list \<Rightarrow> byte list \<Rightarrow> byte list \<Rightarrow> ReadHeaders sconn \<Rightarrow> bool" where
  "serving reqs r out cn \<longleftrightarrow> (length (sc_received cn) \<le> length reqs \<longrightarrow> reading reqs r cn \<and> writing out cn)"

text \<open>A handler that answers each of the requests with a body, by service and headers alone.\<close>

definition replies :: "ReadHeaders handler \<Rightarrow> (ReadHeaders wireRequest \<Rightarrow> ReadHeaders wireResponse) \<Rightarrow>
    ReadHeaders wireRequest list \<Rightarrow> bool" where
  "replies h reply reqs \<longleftrightarrow> (\<forall>wr \<in> set reqs. body_response (reply wr) \<and>
     (\<forall>addr p. asked_for wr p \<longrightarrow> response_of (answer h addr p) = reply wr))"

lemma serving_decode:
  assumes serv: "serving reqs r out (sv_conn s l)" and nb: "\<forall>wr \<in> set reqs. b_Size (rq_Body wr) = 0"
    and s': "serverReader_decode env std_registry read_impl s l = Some s'" and nr: "\<not> sc_rdone (sv_conn s l)"
  shows "serving reqs r out (sv_conn s' l)"
proof -
  let ?cn = "sv_conn s l" let ?n = "length (sc_received ?cn)"
  consider (nxt) wr d rd where "?n < length reqs" "wr = reqs ! ?n" "reading reqs r ?cn" "writing out ?cn"
      "DecodeRequest env std_registry read_impl (sc_d ?cn) new_request = Some (Inr
         \<lparr>rq_Service = rq_Service wr, rq_ID = rq_ID wr, rq_Headers = rq_Headers wr,
          rq_Body = empty_body\<lparr>b_Size := b_Size (rq_Body wr), b_Reader := Some rd\<rparr>\<rparr>, d)"
      "hdr_ring 32 (d_hdr d)" "concat (d_in d) = concat (map (request_wire std_registry read_impl) (drop (Suc ?n) reqs)) @ r"
    | (over) "length reqs \<le> ?n"
  proof (cases "?n < length reqs")
    case True
    have rw: "reading reqs r ?cn" "writing out ?cn" using serv True by (simp_all add: serving_def)
    let ?wr = "reqs ! ?n"
    have z: "b_Size (rq_Body ?wr) = 0" using nb True by simp
    have inp: "concat (d_in (sc_d ?cn)) = put_requestLine (request_line std_registry read_impl ?wr)
        @ hdr_bytes std_registry read_impl (rq_Headers ?wr) @ []
        @ (concat (map (request_wire std_registry read_impl) (drop (Suc ?n) reqs)) @ r)"
      and ring: "hdr_ring 32 (d_hdr (sc_d ?cn))"
      using rw(1) nr Cons_nth_drop_Suc [OF True, symmetric] by (simp_all add: reading_def request_wire_def [of _ _ ?wr])
    show ?thesis
      using rh.DecodeRequest_ok [OF std_registry_wf(1) read_hdr_ok ring _ inp, of env new_request] z
        nxt [OF True refl rw] by auto
  qed (use over in simp)
  then show ?thesis
  proof cases
    case nxt
    have "list_all2 asked_for (take (Suc ?n) reqs) (sc_received ?cn @ [(rq_ID wr, \<lparr>req_Service = rq_Service wr,
        req_Headers = rq_Headers wr, req_Body = empty_body\<lparr>b_Size := b_Size (rq_Body wr), b_Reader := Some rd\<rparr>\<rparr>)])"
      using nxt(1-3) by (simp add: take_Suc_conv_app_nth list_all2_append reading_def asked_for_def)
    then show ?thesis
      using s' nxt by (auto simp: serverReader_decode_def Let_def serving_def reading_def writing_def)
  next
    case over
    then show ?thesis
      using s' serv by (auto simp: serverReader_decode_def Let_def serving_def reading_def writing_def
          split: option.splits sum.splits prod.splits)
  qed
qed

text \<open>What the writer takes from the queue is the answer to one of the requests.\<close>

lemma queued_outcome:
  assumes inv: "sconn_inv h cn" and m: "m \<in> set (sc_chan cn)"
  shows "\<exists>p \<in> set (sc_received cn). fst p \<noteq> 0 \<and> outcome m = answer h (sc_addr cn) p"
proof -
  have "outcome m \<in># image_mset (answer h (sc_addr cn)) (wanted (sc_received cn))"
    using inv m by (simp add: sconn_inv_def)
  then show ?thesis by (auto simp: wanted_def)
qed

lemma asked_for_some:
  assumes "list_all2 asked_for (take (length ps) reqs) ps" "p \<in> set ps"
  shows "\<exists>wr \<in> set reqs. asked_for wr p"
proof -
  obtain i where i: "i < length ps" "p = ps ! i" using assms(2) by (auto simp: in_set_conv_nth)
  have "asked_for (take (length ps) reqs ! i) p" using list_all2_nthD2 [OF assms(1) i(1)] i(2) by simp
  moreover have "i < length (take (length ps) reqs)" using list_all2_lengthD [OF assms(1)] i(1) by simp
  ultimately show ?thesis using nth_mem in_set_takeD by metis
qed

lemma serving_write:
  assumes serv: "serving reqs r out (sv_conn s l)" and rep: "replies h reply reqs" and rnd: "\<And>n. n \<le> rnd n"
    and inv: "sconn_inv h (sv_conn s l)" and nw: "\<not> sc_wdone (sv_conn s l)"
    and s': "serverWriter_message env rnd std_registry read_impl s l = Some s'"
  shows "serving reqs r out (sv_conn s' l)"
proof -
  let ?cn = "sv_conn s l"
  obtain m rest where ch: "sc_chan ?cn = m # rest"
    using s' by (auto simp: serverWriter_message_def Let_def split: list.splits)
  have clean: "rp_Headers (sc_wr ?cn) = None" "rp_Body (sc_wr ?cn) = empty_body" using inv nw by (simp_all add: sconn_inv_def)
  let ?wr0 = "(sc_wr ?cn)\<lparr>rp_ID := sm_ID m, rp_Error := sm_Error m\<rparr>"
  let ?wr = "case sm_Response m of None \<Rightarrow> ?wr0 | Some x \<Rightarrow> ?wr0\<lparr>rp_Body := res_Body x, rp_Headers := res_Headers x\<rparr>"
  have wr: "?wr = response_of (outcome m)"
    by (rule filled_response [OF clean])
  have recv: "sc_received (sv_conn s' l) = sc_received ?cn" "sc_d (sv_conn s' l) = sc_d ?cn" "sc_rdone (sv_conn s' l) = sc_rdone ?cn"
    using s' ch by (auto simp: serverWriter_message_def Let_def split: option.splits prod.splits)
  show ?thesis
  proof (cases "length (sc_received ?cn) \<le> length reqs")
    case True
    then have rw: "reading reqs r ?cn" "writing out ?cn" using serv by (simp_all add: serving_def)
    obtain p where p: "p \<in> set (sc_received ?cn)" "outcome m = answer h (sc_addr ?cn) p"
      using queued_outcome [OF inv, of m] ch by auto
    obtain q where q: "q \<in> set reqs" "asked_for q p"
      using asked_for_some [OF _ p(1)] rw(1) by (auto simp: reading_def)
    have body: "body_response (response_of (outcome m))" using rep q p(2) unfolding replies_def by metis
    have idle: "idle_encoder (sc_e ?cn)" using rw(2) nw by (simp add: writing_def)
    have "writing out (sv_conn s' l)"
    proof (cases "sc_wdone (sv_conn s' l)")
      case False
      then obtain e' b where e': "EncodeResponse env rnd std_registry read_impl (sc_e ?cn) (response_of (outcome m)) = Some (None, e', b)"
          "sc_e (sv_conn s' l) = e'" "sc_written (sv_conn s' l) = outcome m # sc_written ?cn"
        using s' ch unfolding serverWriter_message_def Let_def wr [symmetric]
        by (auto split: option.splits prod.splits)
      show ?thesis
        using EncodeResponse_body [OF rnd idle body e'(1)] rw(2) nw e'(2,3) by (simp add: writing_def)
    qed (simp add: writing_def)
    then show ?thesis using rw(1) recv by (simp add: serving_def reading_def)
  qed (simp add: serving_def recv)
qed

text \<open>A step keeps the connection in order, whichever goroutine of whichever connection takes it.\<close>

lemma other_conn:
  "k \<noteq> l \<Longrightarrow> serverReader_decode env reg impl s k = Some s' \<Longrightarrow> sv_conn s' l = sv_conn s l"
  "k \<noteq> l \<Longrightarrow> serverWriter_message env rnd reg impl s k = Some s' \<Longrightarrow> sv_conn s' l = sv_conn s l"
  by (auto simp: serverReader_decode_def serverWriter_message_def Let_def
      split: option.splits sum.splits prod.splits list.splits)

lemma server_step_conns: "server_step rnd reg impl h s s' \<Longrightarrow> sv_conns s \<le> sv_conns s'"
  by (cases rule: server_step.cases)
    (auto simp: serverReader_decode_def serverReader_spawn_def serverReader_stop_def serveRequest_run_def
      serveRequest_send_def serverWriter_message_def serverHandleConnection_stop_def serverHandler_accept_def
      serverHandleConnection_def Let_def split: option.splits sum.splits prod.splits list.splits if_splits)

lemma serving_same:
  "sc_received cn' = sc_received cn \<Longrightarrow> sc_d cn' = sc_d cn \<Longrightarrow> sc_e cn' = sc_e cn \<Longrightarrow> sc_written cn' = sc_written cn \<Longrightarrow>
   (sc_rdone cn \<Longrightarrow> sc_rdone cn') \<Longrightarrow> (sc_wdone cn \<Longrightarrow> sc_wdone cn') \<Longrightarrow> serving reqs r out cn \<Longrightarrow> serving reqs r out cn'"
  by (auto simp: serving_def reading_def writing_def)

lemma serving_step:
  assumes step: "server_step rnd std_registry read_impl h s s'" and inv: "server_inv h s" and l: "l < sv_conns s"
    and serv: "serving reqs r out (sv_conn s l)" and nb: "\<forall>wr \<in> set reqs. b_Size (rq_Body wr) = 0"
    and rep: "replies h reply reqs" and rnd: "\<And>n. n \<le> rnd n"
  shows "serving reqs r out (sv_conn s' l)"
  using step
proof (cases rule: server_step.cases)
  case (decode k env)
  then show ?thesis
    using serving_decode [OF serv nb, of env s'] other_conn(1) [of k l env std_registry read_impl s s'] serv
    by (cases "k = l") auto
next
  case (spawn k)
  then show ?thesis
    using serv by (cases "k = l") (auto simp: serverReader_spawn_def Let_def split: option.splits if_splits
        intro: serving_same [OF _ _ _ _ _ _ serv])
next
  case (read_stop k)
  then show ?thesis
    using serv by (cases "k = l") (auto simp: serverReader_stop_def Let_def split: option.splits if_splits
        intro: serving_same [OF _ _ _ _ _ _ serv])
next
  case (run k m ms)
  then show ?thesis
    using serv by (cases "k = l") (auto simp: serveRequest_run_def Let_def split: prod.splits if_splits
        intro: serving_same [OF _ _ _ _ _ _ serv])
next
  case (respond k m)
  then show ?thesis
    using serv by (cases "k = l") (auto simp: serveRequest_send_def Let_def split: if_splits
        intro: serving_same [OF _ _ _ _ _ _ serv])
next
  case (send k env)
  have "sconn_inv h (sv_conn s l)" using inv l by (simp add: server_inv_def)
  then show ?thesis
    using send serving_write [OF serv rep rnd, of env s'] other_conn(2) [of k l env rnd std_registry read_impl s s'] serv
    by (cases "k = l") auto
next
  case (write_stop k)
  then show ?thesis
    using serv by (cases "k = l") (auto intro: serving_same [OF _ _ _ _ _ _ serv])
next
  case (close_conn k)
  then show ?thesis
    using serv by (cases "k = l") (auto simp: serverHandleConnection_stop_def Let_def split: if_splits
        intro: serving_same [OF _ _ _ _ _ _ serv])
next
  case (accept err s1 ok addr d e oe hs)
  have "sv_conn s1 = sv_conn s" "sv_conns s1 = sv_conns s"
    using accept(3) by (auto simp: serverHandler_accept_def Let_def split: option.splits)
  then show ?thesis
    using serv l unfolding accept(1) by (auto simp: serverHandleConnection_def split: option.splits)
next
  case stop
  then show ?thesis using serv by simp
qed

lemma serving_steps:
  assumes "(server_step rnd std_registry read_impl h)\<^sup>*\<^sup>* s0 s" "server_inv h s0" "l < sv_conns s0"
    and "serving reqs r out (sv_conn s0 l)" and nb: "\<forall>wr \<in> set reqs. b_Size (rq_Body wr) = 0"
    and rep: "replies h reply reqs" and rnd: "\<And>n. n \<le> rnd n"
  shows "serving reqs r out (sv_conn s l) \<and> l < sv_conns s \<and> server_inv h s"
  using assms(1)
proof (induction rule: rtranclp_induct)
  case base
  then show ?case using assms(2-4) by simp
next
  case (step s1 s2)
  then show ?case
    using serving_step [OF step(2) _ _ _ nb rep rnd] server_step_conns [OF step(2)] server_step_inv [OF step(2)] by auto
qed

text \<open>When as many responses are written as there are requests, they are the replies to them.\<close>

lemma all_answered:
  assumes inv: "sconn_inv h cn" and rd: "reading reqs r cn" and rep: "replies h reply reqs"
    and n: "length (sc_received cn) = length reqs" "length (sc_written cn) = length reqs"
    and nz: "\<forall>wr \<in> set reqs. rq_ID wr \<noteq> 0"
  shows "mset (map response_of (sc_written cn)) = mset (map reply reqs)"
proof -
  let ?A = "answer h (sc_addr cn)"
  have all: "list_all2 asked_for reqs (sc_received cn)" using rd n(1) by (simp add: reading_def)
  have "fst p \<noteq> 0" if "p \<in> set (sc_received cn)" for p
    using asked_for_some [of "sc_received cn" reqs p] all n(1) that nz by (auto simp: asked_for_def)
  then have w: "wanted (sc_received cn) = mset (sc_received cn)"
    by (simp add: wanted_def filter_id_conv [THEN iffD2])
  have sub: "mset (sc_written cn) \<subseteq># mset (map ?A (sc_received cn))"
    using inv by (simp add: sconn_inv_def w [symmetric])
  obtain M where M: "mset (map ?A (sc_received cn)) = mset (sc_written cn) + M"
    using sub by (auto simp: subset_mset.le_iff_add)
  have "length (sc_received cn) = length (sc_written cn) + size M"
    using arg_cong [OF M, of size] by (simp only: size_mset size_union length_map)
  then have "M = {#}" using n by simp
  then have "mset (sc_written cn) = mset (map ?A (sc_received cn))" using M by simp
  then have "mset (map response_of (sc_written cn)) = mset (map (response_of \<circ> ?A) (sc_received cn))"
    by (simp add: multiset.map_comp)
  moreover have "map (response_of \<circ> ?A) (sc_received cn) = map reply reqs"
  proof (rule nth_equalityI)
    show "length (map (response_of \<circ> ?A) (sc_received cn)) = length (map reply reqs)" using n(1) by simp
    fix i assume "i < length (map (response_of \<circ> ?A) (sc_received cn))"
    then have i: "i < length (sc_received cn)" "i < length reqs" using n(1) by simp_all
    have "asked_for (reqs ! i) (sc_received cn ! i)" by (rule list_all2_nthD2 [OF all i(1)])
    then have "response_of (?A (sc_received cn ! i)) = reply (reqs ! i)"
      using rep nth_mem [OF i(2)] unfolding replies_def by metis
    then show "map (response_of \<circ> ?A) (sc_received cn) ! i = map reply reqs ! i" using i by simp
  qed
  ultimately show ?thesis by simp
qed

section \<open>Calls, from the queue to their results\<close>

text \<open>
  The calls that a client has queued for its writer, in order, and the connection they will take: nothing sent
  yet, nothing pending. A server's connection at its start.
\<close>

definition calls_queued :: "ReadHeaders client \<Rightarrow> nat \<Rightarrow> nat list \<Rightarrow> bool" where
  "calls_queued c k ms \<longleftrightarrow> c_requestsChan c = ms \<and> ms \<noteq> [] \<and> distinct ms
     \<and> list_all (\<lambda>m. waits c m \<and> ar_Error (c_heap c m) = None) ms
     \<and> writer_ready (c_conn c k) \<and> reader_ready (c_conn c k) \<and> cn_pending (c_conn c k) = []
     \<and> pending (cn_e (c_conn c k)) = [] \<and> cn_msgID (c_conn c k) = 0
     \<and> length ms \<le> 10 * c_PendingRequests c \<and> length ms < 2 ^ 64"

definition conn_fresh :: "ReadHeaders sconn \<Rightarrow> bool" where
  "conn_fresh cn \<longleftrightarrow> sc_received cn = [] \<and> sc_written cn = [] \<and> hdr_ring 32 (d_hdr (sc_d cn))
     \<and> idle_encoder (sc_e cn) \<and> pending (sc_e cn) = []"

text \<open>The responses that a handler gives to the queued calls, by position.\<close>

definition call_wires :: "ReadHeaders client \<Rightarrow> nat list \<Rightarrow> ReadHeaders wireRequest list" where
  "call_wires c ms = map2 (queued_wire c) (next_ids 0 (length ms)) ms"

lemma call_wires_ids: "map rq_ID (call_wires c ms) = next_ids 0 (length ms)"
  by (rule nth_equalityI) (simp_all add: call_wires_def queued_wire_def wire_of_def)

lemma next_ids_nonzero: "n < 2 ^ 64 \<Longrightarrow> 0 \<notin> set (next_ids 0 n)"
proof
  assume n: "n < 2 ^ 64" and "0 \<in> set (next_ids 0 n)"
  then have z: "0 \<in> set (map unat (next_ids 0 n))" by force
  have "map unat (next_ids 0 n) = map Suc [0..<n]" using n unat_next_ids [of 0 n] by simp
  then show False using z by (simp only:) auto
qed

lemma call_wires_nobody: "list_all (waits c) ms \<Longrightarrow> wr \<in> set (call_wires c ms) \<Longrightarrow> b_Size (rq_Body wr) = 0"
  by (auto simp: call_wires_def queued_wire_def wire_of_def waits_def list_all_iff dest!: set_zip_rightD)

text \<open>
  The exchange: each end reads what the other has written, the server has received \<open>n\<close> requests and its writer
  has taken \<open>n\<close> responses and goes on.
\<close>

definition exchanged :: "ReadHeaders conn \<Rightarrow> ReadHeaders sconn \<Rightarrow> ReadHeaders sconn \<Rightarrow> nat \<Rightarrow> bool" where
  "exchanged cn sn0 sn n \<longleftrightarrow> (\<exists>r. concat (d_in (sc_d sn0)) = w_out (e_w (cn_e cn)) @ r)
     \<and> (\<exists>r. concat (d_in (cn_d cn)) = w_out (e_w (sc_e sn)) @ r)
     \<and> length (sc_received sn) = n \<and> length (sc_written sn) = n \<and> \<not> sc_wdone sn"

text \<open>On a connection that splices, the kernel moves whole bodies into the pipe.\<close>

definition bodies_load :: "splice_env \<Rightarrow> ReadHeaders conn \<Rightarrow> ReadHeaders wireResponse list \<Rightarrow> bool" where
  "bodies_load env cn rs \<longleftrightarrow> (d_isconn (cn_d cn) \<longrightarrow> (\<forall>resp \<in> set rs. \<forall>r.
     pipe_loads env (body_bytes (rp_Body resp) @ r) (int (length (body_bytes (rp_Body resp))))))"

lemma answers_written:
  assumes reqs: "\<forall>wr \<in> set reqs. b_Size (rq_Body wr) = 0 \<and> rq_ID wr \<noteq> 0"
    and rep: "replies h reply reqs" and rnd: "\<And>n. n \<le> rnd n"
    and s0: "server_inv h s0" "l < sv_conns s0" "conn_fresh (sv_conn s0 l)"
      "concat (d_in (sc_d (sv_conn s0 l))) = concat (map (request_wire std_registry read_impl) reqs) @ r"
    and steps: "(server_step rnd std_registry read_impl h)\<^sup>*\<^sup>* s0 s"
    and n: "length (sc_received (sv_conn s l)) = length reqs" "length (sc_written (sv_conn s l)) = length reqs"
    and nw: "\<not> sc_wdone (sv_conn s l)"
  shows "\<exists>rs. mset rs = mset (map reply reqs) \<and> w_out (e_w (sc_e (sv_conn s l))) = concat (map response_msg rs)
     \<and> list_all plain_response rs"
proof -
  let ?cn = "sv_conn s l" and ?rs = "map response_of (rev (sc_written (sv_conn s l)))"
  have "serving reqs r [] (sv_conn s0 l)"
    using s0(3,4) by (simp add: serving_def reading_def writing_def conn_fresh_def)
  then have serv: "serving reqs r [] ?cn" "l < sv_conns s" "server_inv h s"
    using serving_steps [OF steps s0(1,2) _ _ rep rnd, of r "[]"] reqs by simp_all
  have inv: "sconn_inv h ?cn" using serv by (simp add: server_inv_def)
  have rw: "reading reqs r ?cn" "writing [] ?cn" using serv(1) n(1) by (simp_all add: serving_def)
  have ms: "mset (map response_of (sc_written ?cn)) = mset (map reply reqs)"
    by (rule all_answered [OF inv rw(1) rep n]) (use reqs in simp)
  have "list_all plain_response ?rs" using rw(2) nw by (simp add: writing_def list_all_iff)
  then show ?thesis
    using ms rw(2) nw by (intro exI [of _ ?rs]) (auto simp: writing_def idle_encoder_def pending_def)
qed

text \<open>The client reads the replies, in any order, and completes its calls.\<close>

lemma calls_completed:
  assumes pend: "cn_pending (c_conn c k) = rev (zip is ms)" "length is = length ms" "distinct is" "distinct ms"
    and rd: "reader_ready (c_conn c k)" and load: "bodies_load env (c_conn c k) rs"
    and open_: "\<forall>m \<in> set ms. ar_done (c_heap c m) = Open \<and> ar_Error (c_heap c m) = None"
    and rs: "mset rs = mset (map reply reqs)" "map (rp_ID \<circ> reply) reqs = is" "list_all plain_response rs"
      "concat (d_in (cn_d (c_conn c k))) = concat (map response_msg rs) @ r"
  shows "\<exists>c'. clientReader_run env std_registry read_impl (length ms) c k = Some (Inr c')
     \<and> (\<forall>j < length ms. call_delivered (reply (reqs ! j)) (c_heap c' (ms ! j)))"
proof -
  let ?P = "rev (zip is ms)"
  have len: "length reqs = length ms" using rs(2) pend(2) by auto
  have n: "length rs = length ms" using len arg_cong [OF rs(1), of size] by (simp only: size_mset length_map)
  have sets: "set rs = reply ` set reqs" using arg_cong [OF rs(1), of set_mset] by (simp only: set_mset_mset set_map)
  have "mset (map rp_ID rs) = mset (map (rp_ID \<circ> reply) reqs)"
    using arg_cong [OF rs(1), of "image_mset rp_ID"] by (simp add: multiset.map_comp)
  then have "mset (map rp_ID rs) = mset is" unfolding rs(2) .
  then have d: "distinct (map rp_ID rs)" using pend(3) mset_eq_imp_distinct_iff by blast
  have ids: "rp_ID (reply (reqs ! j)) = is ! j" if "j < length ms" for j
    using that len arg_cong [OF rs(2), of "\<lambda>xs. xs ! j"] by simp
  have df: "distinct (map fst ?P)" and ds: "distinct (map snd ?P)"
    unfolding rev_map [symmetric] using pend(2-4) by simp_all
  have look: "map_of ?P (is ! j) = Some (ms ! j)" if "j < length ms" for j
    using that pend(2) df by (intro map_of_is_SomeI) (auto simp: set_zip)
  have all: "\<forall>resp \<in> set rs. \<exists>m. map_of ?P (rp_ID resp) = Some m
       \<and> ar_done (c_heap c m) = Open \<and> ar_Error (c_heap c m) = None"
  proof
    fix resp assume "resp \<in> set rs"
    then obtain j where j: "j < length ms" "resp = reply (reqs ! j)"
      using sets len by (auto simp: in_set_conv_nth)
    then show "\<exists>m. map_of ?P (rp_ID resp) = Some m \<and> ar_done (c_heap c m) = Open \<and> ar_Error (c_heap c m) = None"
      using look [OF j(1)] ids [OF j(1)] open_ by auto
  qed
  have ld: "d_isconn (cn_d (c_conn c k)) \<Longrightarrow> \<forall>resp \<in> set rs. \<forall>r. pipe_loads env (body_bytes (rp_Body resp) @ r)
        (int (length (body_bytes (rp_Body resp))))"
    using load by (simp add: bodies_load_def)
  obtain c' where c': "clientReader_run env std_registry read_impl (length rs) c k = Some (Inr c')"
     "\<forall>resp \<in> set rs. \<forall>m. map_of ?P (rp_ID resp) = Some m \<longrightarrow> call_delivered resp (c_heap c' m)"
    using clientReader_run_plain [OF rs(3) rd rs(4) ld d] ds all unfolding pend(1) by blast
  have "call_delivered (reply (reqs ! j)) (c_heap c' (ms ! j))" if "j < length ms" for j
    using c'(2) look [OF that] ids [OF that] sets len that by auto
  then show ?thesis using c'(1) n by auto
qed

text \<open>Both together, for any handler that answers the calls with bodies.\<close>

lemma calls_served:
  assumes q: "calls_queued c k ms" and rnd: "\<And>n. n \<le> rnd n"
    and rep: "replies h reply (call_wires c ms)" and ids: "\<forall>wr \<in> set (call_wires c ms). rp_ID (reply wr) = rq_ID wr"
    and s0: "server_inv h s0" "l < sv_conns s0" "conn_fresh (sv_conn s0 l)" and rnd': "\<And>n. n \<le> rnd' n"
  shows "\<exists>c1. clientWriter_run env rnd std_registry read_impl c k = Some (Inr c1) \<and>
    (\<forall>s. (server_step rnd' std_registry read_impl h)\<^sup>*\<^sup>* s0 s \<longrightarrow>
        exchanged (c_conn c1 k) (sv_conn s0 l) (sv_conn s l) (length ms) \<longrightarrow>
        bodies_load env' (c_conn c1 k) (map reply (call_wires c ms)) \<longrightarrow>
        (\<exists>c2. clientReader_run env' std_registry read_impl (length ms) c1 k = Some (Inr c2) \<and>
          (\<forall>j < length ms. call_delivered (reply (call_wires c ms ! j)) (c_heap c2 (ms ! j)))))"
proof -
  let ?n = "length ms" and ?reqs = "call_wires c ms"
  have q': "c_requestsChan c = ms" "ms \<noteq> []" "distinct ms" "list_all (waits c) ms" "writer_ready (c_conn c k)"
      "reader_ready (c_conn c k)" "cn_pending (c_conn c k) = []" "pending (cn_e (c_conn c k)) = []" "cn_msgID (c_conn c k) = 0"
      "?n \<le> 10 * c_PendingRequests c" "?n < 2 ^ 64" "\<forall>m \<in> set ms. ar_done (c_heap c m) = Open \<and> ar_Error (c_heap c m) = None"
    using q by (auto simp: calls_queued_def list_all_iff waits_def)
  have small: "unat (cn_msgID (c_conn c k)) + ?n < 2 ^ 64" using q'(9,11) by simp
  obtain c1 where c1: "clientWriter_run env rnd std_registry read_impl c k = Some (Inr c1)" "c_heap c1 = c_heap c"
     "cn_r (c_conn c1 k) = cn_r (c_conn c k)" "cn_d (c_conn c1 k) = cn_d (c_conn c k)"
     "cn_pending (c_conn c1 k) = rev (zip (next_ids 0 ?n) ms)"
     "w_out (e_w (cn_e (c_conn c1 k))) = concat (map (request_wire std_registry read_impl) ?reqs)"
    using clientWriter_run_queued [OF rnd q'(1,2,4,5,7) small q'(10), of env] q'(8,9) by (auto simp: call_wires_def)
  have reqs: "\<forall>wr \<in> set ?reqs. b_Size (rq_Body wr) = 0 \<and> rq_ID wr \<noteq> 0"
  proof
    fix wr assume wr: "wr \<in> set ?reqs"
    then have "rq_ID wr \<in> set (next_ids 0 ?n)" by (simp add: call_wires_ids [where c = c, symmetric])
    then show "b_Size (rq_Body wr) = 0 \<and> rq_ID wr \<noteq> 0"
      using call_wires_nobody [OF q'(4) wr] next_ids_nonzero [OF q'(11)] by auto
  qed
  have len: "length ?reqs = ?n" by (simp add: call_wires_def)
  have ids': "map (rp_ID \<circ> reply) ?reqs = next_ids 0 ?n"
    using ids by (simp add: call_wires_ids [where c = c, symmetric])
  show ?thesis
  proof (rule exI [of _ c1], intro conjI allI impI, rule c1(1))
    fix s assume steps: "(server_step rnd' std_registry read_impl h)\<^sup>*\<^sup>* s0 s"
      and ex: "exchanged (c_conn c1 k) (sv_conn s0 l) (sv_conn s l) ?n"
      and load: "bodies_load env' (c_conn c1 k) (map reply ?reqs)"
    obtain r r' where r: "concat (d_in (sc_d (sv_conn s0 l))) = concat (map (request_wire std_registry read_impl) ?reqs) @ r"
        "concat (d_in (cn_d (c_conn c1 k))) = w_out (e_w (sc_e (sv_conn s l))) @ r'"
      using ex c1(6) by (auto simp: exchanged_def)
    obtain rs where rs: "mset rs = mset (map reply ?reqs)"
        "w_out (e_w (sc_e (sv_conn s l))) = concat (map response_msg rs)" "list_all plain_response rs"
      using answers_written [OF reqs rep rnd' s0 r(1) steps] ex len by (auto simp: exchanged_def)
    have sets: "set rs = set (map reply ?reqs)"
      using arg_cong [OF rs(1), of set_mset] by (simp only: set_mset_mset)
    have load': "bodies_load env' (c_conn c1 k) rs" using load sets by (simp add: bodies_load_def)
    have rd: "reader_ready (c_conn c1 k)" using q'(6) c1(3,4) by (simp add: reader_ready_def)
    have d: "distinct (next_ids 0 ?n)" using distinct_next_ids [of 0 ?n] q'(11) by simp
    show "\<exists>c2. clientReader_run env' std_registry read_impl ?n c1 k = Some (Inr c2) \<and>
          (\<forall>j < ?n. call_delivered (reply (?reqs ! j)) (c_heap c2 (ms ! j)))"
      by (rule calls_completed [OF c1(5) _ d q'(3) rd load' _ rs(1) ids' rs(3) r(2) [unfolded rs(2)]])
        (use q'(12) c1(2) in simp_all)
  qed
qed

section \<open>The block service, from call to content\<close>

text \<open>A block that the server stores under the key of a command and an id.\<close>

definition block_stored :: "data_gen \<Rightarrow> byte \<Rightarrow> u64 \<Rightarrow> byte list \<Rightarrow> bool" where
  "block_stored dg cmd i content \<longleftrightarrow>
     dg_GetReadCloser dg (if cmd = 4 then key_id 4 (unat i) else key_of (unat cmd)) = Inr content
     \<and> dg_GetSize dg (key_of (unat cmd)) = int (length content) \<and> content \<noteq> [] \<and> length content \<le> static_buf"

text \<open>A call that has got it: closed, without an error, with the headers, the size and the content.\<close>

definition call_got :: "ReadHeaders AsyncResult \<Rightarrow> byte \<Rightarrow> u64 \<Rightarrow> byte list \<Rightarrow> bool" where
  "call_got a cmd i content \<longleftrightarrow> ar_done a = Closed \<and> ar_Error a = None
     \<and> res_Headers (ar_Response a) = Some \<lparr>rh_CMD = ucast cmd, rh_Offset = 0, rh_Size = word_of_nat (length content), rh_ID = i\<rparr>
     \<and> (\<exists>rd. b_Reader (res_Body (ar_Response a)) = Some rd \<and> r_rest rd = content)
     \<and> iorpc_Get_result (ar_Response a) = Inr (word_of_nat (length content), replicate (length content) 0)"

definition block_reply :: "u64 \<Rightarrow> byte \<Rightarrow> u64 \<Rightarrow> byte list \<Rightarrow> ReadHeaders wireResponse" where
  "block_reply m cmd i content =
     \<lparr>rp_ID = m, rp_Headers = Some \<lparr>rh_CMD = ucast cmd, rh_Offset = 0, rh_Size = word_of_nat (length content), rh_ID = i\<rparr>,
      rp_Body = \<lparr>b_Offset = 0, b_Size = word_of_nat (length content), b_Reader = Some (file_reader content), b_NotClose = True\<rparr>,
      rp_Error = []\<rparr>"

lemma block_reply_body:
  assumes "content \<noteq> []" "length content \<le> static_buf"
  shows "body_response (block_reply m cmd i content)" "body_bytes (rp_Body (block_reply m cmd i content)) = content"
proof -
  have small: "length content < 2 ^ 32" using assms(2) by (simp add: static_buf_def)
  then have un: "unat (word_of_nat (length content) :: u64) = length content" by (simp add: unat_of_nat)
  then have ui: "uint (word_of_nat (length content) :: u64) = int (length content)" by (simp add: uint_nat)
  have "word_of_nat (length content) \<noteq> (0 :: u64)" using un assms(1) by auto
  then show "body_response (block_reply m cmd i content)"
    using small ui by (simp add: body_response_def block_reply_def body_steady_def file_reader_def to_int_def)
  show "body_bytes (rp_Body (block_reply m cmd i content)) = content"
    using un by (simp add: body_bytes_def block_reply_def file_reader_def r_rest_def)
qed

lemma call_delivered_block:
  assumes "content \<noteq> []" "length content \<le> static_buf" and d: "call_delivered (block_reply m cmd i content) a"
  shows "call_got a cmd i content"
proof -
  let ?n = "length content"
  have small: "?n < 2 ^ 32" using assms(2) by (simp add: static_buf_def)
  then have un: "unat (word_of_nat ?n :: u64) = ?n" "unat (word_of_nat ?n :: u32) = ?n" by (simp_all add: unat_of_nat)
  then have uc: "(ucast (word_of_nat ?n :: u64) :: u32) = word_of_nat ?n" by (metis of_nat_unat)
  show ?thesis
    using d block_reply_body(2) [OF assms(1,2), of m cmd i] assms(2) un(2) uc
    by (auto simp: call_delivered_def call_got_def block_reply_def iorpc_Get_result_def)
qed

text \<open>The services look at nothing but the service and the headers of a request.\<close>

lemma block_answer:
  assumes st: "block_stored dg cmd i content" and p: "asked_for wr p"
    and wr: "wr = wire_of m (get_rpc_request NewDispatcherForClient cmd i)"
  shows "response_of (answer (iorpc_HandlerFunc (fst (iorpc_NewServer True dg))) addr p) = block_reply m cmd i content"
proof -
  let ?req = "get_rpc_request NewDispatcherForClient cmd i" and ?d = "fst (iorpc_NewServer True dg)"
  obtain j q where pq: "p = (j, q)" by fastforce
  have q: "j = m" "req_Service q = ServiceReadData NewDispatcherForClient" "req_Headers q = req_Headers ?req"
    using p wr pq by (auto simp: asked_for_def wire_of_def get_rpc_request_def)
  have s: "req_Service ?req = ServiceReadData NewDispatcherForClient" by (simp add: get_rpc_request_def)
  have "read_data True (Some dg) addr q = read_data True (Some dg) addr ?req" using q(3) by (simp add: read_data_def)
  then have "dispatch ?d addr (req_Service q) q = dispatch ?d addr (req_Service ?req) ?req"
    using dispatch_read_data [OF q(2), of True dg addr] dispatch_read_data [OF s, of True dg addr] by simp
  then have "iorpc_HandlerFunc ?d addr q = iorpc_HandlerFunc ?d addr ?req" by (simp add: iorpc_HandlerFunc_def)
  then show ?thesis
    using read_data_reply [of dg cmd i content m addr] st q(1)
    by (simp add: answer_def pq reply_message_eq [symmetric] block_reply_def block_stored_def)
qed

text \<open>
  The reply to each of the queued calls: the message ids count the calls from 1, so an id leads to the call and
  so to the block it asks for.
\<close>

definition reply_to :: "(nat \<Rightarrow> byte) \<Rightarrow> (nat \<Rightarrow> u64) \<Rightarrow> (nat \<Rightarrow> byte list) \<Rightarrow> nat list \<Rightarrow>
    ReadHeaders wireRequest \<Rightarrow> ReadHeaders wireResponse" where
  "reply_to cmd fid content ms wr =
     (let m = ms ! (unat (rq_ID wr) - 1) in block_reply (rq_ID wr) (cmd m) (fid m) (content m))"

definition block_calls :: "ReadHeaders client \<Rightarrow> data_gen \<Rightarrow> (nat \<Rightarrow> byte) \<Rightarrow> (nat \<Rightarrow> u64) \<Rightarrow> (nat \<Rightarrow> byte list) \<Rightarrow> nat list \<Rightarrow> bool" where
  "block_calls c dg cmd fid content ms \<longleftrightarrow>
     (\<forall>m \<in> set ms. ar_request (c_heap c m) = get_rpc_request NewDispatcherForClient (cmd m) (fid m)
        \<and> block_stored dg (cmd m) (fid m) (content m))"

lemma reply_to_ID [simp]: "rp_ID (reply_to cmd fid content ms wr) = rq_ID wr"
  by (simp add: reply_to_def block_reply_def Let_def)

lemma call_wires_at:
  assumes "block_calls c dg cmd fid content ms" "length ms < 2 ^ 64" "j < length ms"
  defines "wr \<equiv> call_wires c ms ! j" and "m \<equiv> ms ! j"
  shows "block_stored dg (cmd m) (fid m) (content m)"
    "wr = wire_of (rq_ID wr) (get_rpc_request NewDispatcherForClient (cmd m) (fid m))"
    "reply_to cmd fid content ms wr = block_reply (rq_ID wr) (cmd m) (fid m) (content m)"
proof -
  show w: "wr = wire_of (rq_ID wr) (get_rpc_request NewDispatcherForClient (cmd m) (fid m))"
    using assms(1,3) by (simp add: wr_def m_def call_wires_def queued_wire_def block_calls_def wire_of_def)
  have "unat (rq_ID wr) = map unat (next_ids 0 (length ms)) ! j"
    using assms(3) by (simp add: wr_def call_wires_def queued_wire_def wire_of_def)
  also have "\<dots> = Suc j" using unat_next_ids [of 0 "length ms"] assms(2,3) by simp
  finally show "reply_to cmd fid content ms wr = block_reply (rq_ID wr) (cmd m) (fid m) (content m)"
    by (simp add: reply_to_def m_def Let_def)
qed (use assms(1,3) in \<open>simp add: block_calls_def m_def\<close>)

lemma in_call_wires:
  assumes "wr \<in> set (call_wires c ms)"
  obtains j where "j < length ms" "wr = call_wires c ms ! j"
  using assms by (auto simp: in_set_conv_nth call_wires_def)

lemma blocks_replied:
  assumes calls: "block_calls c dg cmd fid content ms" "length ms < 2 ^ 64"
  shows "replies (iorpc_HandlerFunc (fst (iorpc_NewServer True dg))) (reply_to cmd fid content ms) (call_wires c ms)"
  unfolding replies_def
proof (intro ballI conjI allI impI)
  fix wr assume "wr \<in> set (call_wires c ms)"
  then obtain j where j: "j < length ms" "wr = call_wires c ms ! j" by (rule in_call_wires)
  note at = call_wires_at [OF calls j(1), folded j(2)]
  show "body_response (reply_to cmd fid content ms wr)"
    using block_reply_body(1) at(1) unfolding at(3) by (simp add: block_stored_def)
  show "response_of (answer (iorpc_HandlerFunc (fst (iorpc_NewServer True dg))) addr p) = reply_to cmd fid content ms wr"
    if "asked_for wr p" for addr p
    unfolding at(3) by (rule block_answer [OF at(1) that at(2)])
qed

lemma blocks_load:
  assumes calls: "block_calls c dg cmd fid content ms" "length ms < 2 ^ 64"
    and l: "bodies_load env cn (map (\<lambda>m. block_reply 0 (cmd m) (fid m) (content m)) ms)"
  shows "bodies_load env cn (map (reply_to cmd fid content ms) (call_wires c ms))"
  unfolding bodies_load_def
proof (intro impI ballI)
  fix resp assume conn: "d_isconn (cn_d cn)" and "resp \<in> set (map (reply_to cmd fid content ms) (call_wires c ms))"
  then obtain j where j: "j < length ms" "resp = reply_to cmd fid content ms (call_wires c ms ! j)"
    by (auto elim: in_call_wires)
  then have "rp_Body resp = rp_Body (block_reply 0 (cmd (ms ! j)) (fid (ms ! j)) (content (ms ! j)))"
    using call_wires_at(3) [OF calls j(1)] by (simp add: block_reply_def)
  then show "\<forall>r. pipe_loads env (body_bytes (rp_Body resp) @ r) (int (length (body_bytes (rp_Body resp))))"
    using l conn j(1) by (auto simp: bodies_load_def)
qed

lemma blocks_got:
  assumes calls: "block_calls c dg cmd fid content ms" "length ms < 2 ^ 64"
    and del: "\<forall>j < length ms. call_delivered (reply_to cmd fid content ms (call_wires c ms ! j)) (c_heap c2 (ms ! j))"
  shows "\<forall>m \<in> set ms. call_got (c_heap c2 m) (cmd m) (fid m) (content m)"
proof
  fix m assume "m \<in> set ms"
  then obtain j where j: "j < length ms" "m = ms ! j" by (auto simp: in_set_conv_nth)
  show "call_got (c_heap c2 m) (cmd m) (fid m) (content m)"
    using call_delivered_block del call_wires_at(1,3) [OF calls j(1)] j by (auto simp: block_stored_def)
qed

text \<open>
  C1. The RPC system end to end: a client whose queue holds any number of \<open>Get\<close> calls (up to the limit on pending
  requests) sends them all; a server with the block service, from any state it can reach and whatever its other
  connections do, may take, handle and answer them in any order; and once it has answered as many as were sent,
  the client's reader completes every one of the calls without an error, each with the headers and the content of
  the block that this call asked for.
\<close>

theorem rpc_calls_served:
  fixes cmd :: "nat \<Rightarrow> byte" and fid :: "nat \<Rightarrow> u64" and content :: "nat \<Rightarrow> byte list"
  defines "h dg \<equiv> iorpc_HandlerFunc (fst (iorpc_NewServer True dg))"
  assumes q: "calls_queued c k ms" and rnd: "\<And>n. n \<le> rnd n"
    and req: "\<forall>m \<in> set ms. ar_request (c_heap c m) = get_rpc_request NewDispatcherForClient (cmd m) (fid m)
       \<and> block_stored dg (cmd m) (fid m) (content m)"
    and s0: "server_reach rnd std_registry read_impl (h dg) s0" "l < sv_conns s0" "conn_fresh (sv_conn s0 l)"
  shows "\<exists>c1. clientWriter_run env rnd std_registry read_impl c k = Some (Inr c1) \<and>
    (\<forall>s. (server_step rnd std_registry read_impl (h dg))\<^sup>*\<^sup>* s0 s \<longrightarrow>
        exchanged (c_conn c1 k) (sv_conn s0 l) (sv_conn s l) (length ms) \<longrightarrow>
        bodies_load env' (c_conn c1 k) (map (\<lambda>m. block_reply 0 (cmd m) (fid m) (content m)) ms) \<longrightarrow>
        (\<exists>c2. clientReader_run env' std_registry read_impl (length ms) c1 k = Some (Inr c2) \<and>
          (\<forall>m \<in> set ms. call_got (c_heap c2 m) (cmd m) (fid m) (content m))))"
proof -
  have n: "length ms < 2 ^ 64" using q by (simp add: calls_queued_def)
  have calls: "block_calls c dg cmd fid content ms" using req by (simp add: block_calls_def)
  have rep: "replies (h dg) (reply_to cmd fid content ms) (call_wires c ms)"
    unfolding h_def by (rule blocks_replied [OF calls n])
  have inv: "server_inv (h dg) s0" by (rule server_reach_inv [OF s0(1)])
  obtain c1 where c1: "clientWriter_run env rnd std_registry read_impl c k = Some (Inr c1)"
    and rest: "\<And>s. (server_step rnd std_registry read_impl (h dg))\<^sup>*\<^sup>* s0 s \<Longrightarrow>
        exchanged (c_conn c1 k) (sv_conn s0 l) (sv_conn s l) (length ms) \<Longrightarrow>
        bodies_load env' (c_conn c1 k) (map (reply_to cmd fid content ms) (call_wires c ms)) \<Longrightarrow>
        \<exists>c2. clientReader_run env' std_registry read_impl (length ms) c1 k = Some (Inr c2) \<and>
          (\<forall>j < length ms. call_delivered (reply_to cmd fid content ms (call_wires c ms ! j)) (c_heap c2 (ms ! j)))"
    using calls_served [OF q rnd rep _ inv s0(2,3) rnd, of env env'] reply_to_ID by blast
  show ?thesis
    using c1 rest blocks_load [OF calls n] blocks_got [OF calls n] by (intro exI [of _ c1]) blast
qed

section \<open>A run of both\<close>

text \<open>
  A client with one call in its queue, for the block of command 4 with id 9, and a server that has just accepted
  a connection: what each will read is what the other will have written.
\<close>

definition one_wire :: "ReadHeaders wireRequest" where
  "one_wire = wire_of 1 (get_rpc_request NewDispatcherForClient 4 9)"

definition one_block :: "byte list" where
  "one_block = [10, 20, 30]"

definition one_call :: "ReadHeaders client" where
  "one_call = fst (projr (callAsync (client_start 1 1 (\<lambda>_. new_conn (newMessageEncoder 0 open_sock zero_stats)
       (newMessageDecoder [response_msg (block_reply 1 4 9 one_block)] False zero_stats False)))
     (get_rpc_request NewDispatcherForClient 4 9) False False None))"

definition one_decoder :: messageDecoder where
  "one_decoder = newMessageDecoder [request_wire std_registry read_impl one_wire] True zero_stats False"

definition one_server :: "ReadHeaders server" where
  "one_server = serverHandleConnection
     (fst (serverHandler_accept (server_start 1 1 (\<lambda>_. new_sconn [] one_decoder (newMessageEncoder 0 open_sock zero_stats))) None))
     [] one_decoder (newMessageEncoder 0 open_sock zero_stats) None (HsByte 0)"

definition one_handler :: "ReadHeaders handler" where
  "one_handler = iorpc_HandlerFunc (fst (iorpc_NewServer True three_bytes))"

lemma one_stored: "block_stored three_bytes 4 9 one_block"
  by (simp add: block_stored_def three_bytes_def one_block_def static_buf_def)

lemma one_call_sel:
  "c_requestsChan one_call = [0]" "c_PendingRequests one_call = 1" "ar_done (c_heap one_call 0) = Open"
  "ar_request (c_heap one_call 0) = get_rpc_request NewDispatcherForClient 4 9" "\<not> ar_canceled (c_heap one_call 0)"
  "ar_Error (c_heap one_call 0) = None" "c_conn one_call 0 = new_conn (newMessageEncoder 0 open_sock zero_stats)
       (newMessageDecoder [response_msg (block_reply 1 4 9 one_block)] False zero_stats False)"
  by (simp_all add: one_call_def callAsync_def callAsync_init_def acquireAsyncResult_def try_push_def client_start_def
      new_AsyncResult_def)

lemma idle_new: "idle_encoder (newMessageEncoder 0 open_sock zero_stats)" "pending (newMessageEncoder 0 open_sock zero_stats) = []"
  by (simp_all add: idle_encoder_def newMessageEncoder_def open_sock_def pending_def headerBufferSize_def)

lemma new_decoder_ring: "hdr_ring 32 (d_hdr (newMessageDecoder segs conn st cb))"
    "d_closeBody (newMessageDecoder segs conn st cb) = cb"
  by (simp_all add: newMessageDecoder_def)

lemma one_queued: "calls_queued one_call 0 [0]"
  by (simp add: calls_queued_def waits_def one_call_sel writer_ready_def reader_ready_def new_conn_def idle_new(2)
      new_decoder_ring)
    (simp add: get_rpc_request_def newMessageEncoder_def open_sock_def even_heads_def
      headerBufferSize_def empty_body_def)

lemma one_server_sel:
  "sv_conn one_server 0 = new_sconn [] one_decoder (newMessageEncoder 0 open_sock zero_stats)" "sv_conns one_server = 1"
  "sv_workers one_server = 0" "sv_Concurrency one_server = 1" "sv_PendingResponses one_server = 1"
  by (simp_all add: one_server_def serverHandleConnection_def serverHandshake_def serverHandler_accept_def server_start_def)

lemma one_server_reach: "server_reach rnd reg impl h one_server"
proof -
  let ?s = "server_start 1 1 (\<lambda>_. new_sconn [] one_decoder (newMessageEncoder 0 open_sock zero_stats)) :: ReadHeaders server"
  have "server_step rnd reg impl h ?s one_server"
    using server_step.accept [of ?s None "fst (serverHandler_accept ?s None)" True rnd reg impl h "[]"
        one_decoder "newMessageEncoder 0 open_sock zero_stats" None "HsByte 0"]
    by (simp add: one_server_def serverHandler_accept_def server_start_def)
  then show ?thesis by (blast intro: server_reach.intros)
qed

lemma one_fresh: "conn_fresh (sv_conn one_server 0)"
  by (simp add: conn_fresh_def one_server_sel new_sconn_def idle_new) (simp add: one_decoder_def newMessageDecoder_def)

lemma one_encodes:
  "\<exists>e' b'. EncodeResponse slow_kernel (\<lambda>n. n) std_registry read_impl (newMessageEncoder 0 open_sock zero_stats)
     (block_reply 1 4 9 one_block) = Some (None, e', b')"
proof -
  have "case EncodeResponse slow_kernel (\<lambda>n. n) std_registry read_impl (newMessageEncoder 0 open_sock zero_stats)
      (block_reply 1 4 9 one_block) of Some (None, e', b') \<Rightarrow> True | _ \<Rightarrow> False" by code_simp
  then show ?thesis by (auto split: option.splits prod.splits)
qed

text \<open>The server's run: decode, start the handler, hand in the response, write it.\<close>

lemma one_decodes:
  "\<exists>rd d. DecodeRequest slow_kernel std_registry read_impl one_decoder new_request = Some (Inr
      \<lparr>rq_Service = rq_Service one_wire, rq_ID = 1, rq_Headers = rq_Headers one_wire,
       rq_Body = empty_body\<lparr>b_Size := 0, b_Reader := Some rd\<rparr>\<rparr>, d)"
proof -
  have z: "b_Size (rq_Body one_wire) = 0" "rq_ID one_wire = 1"
    by (simp_all add: one_wire_def wire_of_def get_rpc_request_def empty_body_def)
  have inp: "concat (d_in one_decoder) = put_requestLine (request_line std_registry read_impl one_wire)
        @ hdr_bytes std_registry read_impl (rq_Headers one_wire) @ [] @ []"
    by (simp add: one_decoder_def newMessageDecoder_def request_wire_def)
  have ring: "hdr_ring 32 (d_hdr one_decoder)" by (simp add: one_decoder_def new_decoder_ring(1))
  show ?thesis
    using rh.DecodeRequest_ok [OF std_registry_wf(1) read_hdr_ok ring _ inp, of slow_kernel new_request] z by auto
qed

lemma writer_takes:
  assumes ch: "sc_chan (sv_conn s l) = m # rest"
    and clean: "rp_Headers (sc_wr (sv_conn s l)) = None" "rp_Body (sc_wr (sv_conn s l)) = empty_body"
    and enc: "EncodeResponse env rnd std_registry read_impl (sc_e (sv_conn s l)) (response_of (outcome m)) = Some (None, e', b')"
  shows "\<exists>s'. serverWriter_message env rnd std_registry read_impl s l = Some s'
    \<and> sc_e (sv_conn s' l) = e' \<and> sc_written (sv_conn s' l) = outcome m # sc_written (sv_conn s l)
    \<and> sc_received (sv_conn s' l) = sc_received (sv_conn s l) \<and> sc_wdone (sv_conn s' l) = sc_wdone (sv_conn s l)"
proof -
  let ?wr0 = "(sc_wr (sv_conn s l))\<lparr>rp_ID := sm_ID m, rp_Error := sm_Error m\<rparr>"
  let ?wr = "case sm_Response m of None \<Rightarrow> ?wr0 | Some x \<Rightarrow> ?wr0\<lparr>rp_Body := res_Body x, rp_Headers := res_Headers x\<rparr>"
  have wr: "?wr = response_of (outcome m)"
    by (rule filled_response [OF clean])
  show ?thesis unfolding serverWriter_message_def Let_def ch list.case wr enc by simp
qed

lemma one_served:
  "\<exists>s. (server_step (\<lambda>n. n) std_registry read_impl one_handler)\<^sup>*\<^sup>* one_server s
     \<and> length (sc_received (sv_conn s 0)) = 1 \<and> length (sc_written (sv_conn s 0)) = 1 \<and> \<not> sc_wdone (sv_conn s 0)
     \<and> w_out (e_w (sc_e (sv_conn s 0))) = response_msg (block_reply 1 4 9 one_block)"
proof -
  let ?step = "server_step (\<lambda>n. n) std_registry read_impl one_handler" and ?E = "newMessageEncoder 0 open_sock zero_stats"
  obtain rd d where dec: "DecodeRequest slow_kernel std_registry read_impl one_decoder new_request = Some (Inr
      \<lparr>rq_Service = rq_Service one_wire, rq_ID = 1, rq_Headers = rq_Headers one_wire,
       rq_Body = empty_body\<lparr>b_Size := 0, b_Reader := Some rd\<rparr>\<rparr>, d)"
    using one_decodes by blast
  define req where "req = \<lparr>req_Service = rq_Service one_wire, req_Headers = rq_Headers one_wire,
       req_Body = empty_body\<lparr>b_Size := 0, b_Reader := Some rd\<rparr>\<rparr>"
  define m where "m = \<lparr>sm_ID = 1, sm_Request = req, sm_Response = None, sm_Error = []\<rparr>"
  let ?cn = "sv_conn one_server 0"
  define s1 where "s1 = set_sconn one_server 0 (?cn\<lparr>sc_d := d, sc_waiting := Some m, sc_received := [(1, req)]\<rparr>)"
  define s2 where "s2 = (set_sconn s1 0 ((sv_conn s1 0)\<lparr>sc_waiting := None, sc_running := [m]\<rparr>))\<lparr>sv_workers := 1\<rparr>"
  define s3 where "s3 = serveRequest_run one_handler 0 s2 0 m"
  obtain resp err where a: "callHandlerWithRecover (one_handler [] req) = (resp, err)" by fastforce
  define m' where "m' = m\<lparr>sm_Response := resp, sm_Error := err\<rparr>"
  have cn: "sc_waiting ?cn = None" "sc_running ?cn = []" "sc_ready ?cn = []" "sc_chan ?cn = []" "sc_received ?cn = []"
      "sc_written ?cn = []" "sc_d ?cn = one_decoder" "sc_e ?cn = ?E" "sc_addr ?cn = []" "\<not> sc_rdone ?cn" "\<not> sc_wdone ?cn"
      "rp_Headers (sc_wr ?cn) = None" "rp_Body (sc_wr ?cn) = empty_body"
    by (simp_all add: one_server_sel new_sconn_def new_response_def)
  have "serverReader_decode slow_kernel std_registry read_impl one_server 0 = Some s1"
    by (simp add: serverReader_decode_def Let_def cn dec s1_def m_def req_def)
  then have st1: "?step one_server s1"
    by (intro server_step.decode [of 0]) (simp_all add: one_server_sel(2) cn)
  have "serverReader_spawn s1 0 = Some s2"
    by (simp add: serverReader_spawn_def Let_def s1_def s2_def cn one_server_sel(3,4))
  then have st2: "?step s1 s2" by (intro server_step.spawn [of 0]) (simp_all add: s1_def one_server_sel(2))
  have st3: "?step s2 s3"
    unfolding s3_def by (intro server_step.run) (simp_all add: s2_def s1_def one_server_sel(2))
  have c3: "sc_ready (sv_conn s3 0) = [m']" "sc_chan (sv_conn s3 0) = []" "sc_received (sv_conn s3 0) = [(1, req)]"
      "sc_written (sv_conn s3 0) = []" "sc_e (sv_conn s3 0) = ?E" "\<not> sc_wdone (sv_conn s3 0)" "sv_conns s3 = 1"
      "sv_PendingResponses s3 = 1" "sc_wr (sv_conn s3 0) = sc_wr ?cn"
    by (simp_all add: s3_def serveRequest_run_def Let_def s2_def s1_def m_def m'_def a cn one_server_sel(2,5))
  define s4 where "s4 = the (serveRequest_send s3 0 m')"
  have s4: "serveRequest_send s3 0 m' = Some s4" "sc_chan (sv_conn s4 0) = [m']" "sc_received (sv_conn s4 0) = [(1, req)]"
      "sc_written (sv_conn s4 0) = []" "sc_e (sv_conn s4 0) = ?E" "\<not> sc_wdone (sv_conn s4 0)" "sv_conns s4 = 1"
      "sc_wr (sv_conn s4 0) = sc_wr ?cn"
    by (simp_all add: s4_def serveRequest_send_def Let_def c3)
  have st4: "?step s3 s4" by (rule server_step.respond [OF _ _ s4(1)]) (simp_all add: c3)
  have out: "outcome m' = answer one_handler [] (1, req)" by (simp add: outcome_def m'_def m_def answer_def a)
  have "asked_for one_wire (1, req)"
    by (simp add: asked_for_def req_def) (simp add: one_wire_def wire_of_def)
  then have rep: "response_of (outcome m') = block_reply 1 4 9 one_block"
    unfolding out one_handler_def by (rule block_answer [OF one_stored _ one_wire_def])
  obtain e' b' where enc: "EncodeResponse slow_kernel (\<lambda>n. n) std_registry read_impl ?E (block_reply 1 4 9 one_block) = Some (None, e', b')"
    using one_encodes by blast
  obtain s5 where s5: "serverWriter_message slow_kernel (\<lambda>n. n) std_registry read_impl s4 0 = Some s5"
    "sc_e (sv_conn s5 0) = e'" "sc_written (sv_conn s5 0) = [outcome m']" "sc_received (sv_conn s5 0) = [(1, req)]" "\<not> sc_wdone (sv_conn s5 0)"
    using writer_takes [OF s4(2), of slow_kernel "\<lambda>n. n" e' b'] s4 cn(12,13) enc rep by auto
  have st5: "?step s4 s5" by (rule server_step.send [OF _ _ s5(1)]) (simp_all add: s4)
  have "body_response (block_reply 1 4 9 one_block)"
    by (rule block_reply_body(1)) (simp_all add: one_block_def static_buf_def)
  from EncodeResponse_body [OF _ idle_new(1) this enc] have "w_out (e_w e') = response_msg (block_reply 1 4 9 one_block)"
    by (auto simp: idle_encoder_def idle_new(2)) (simp add: pending_def)
  moreover have "?step\<^sup>*\<^sup>* one_server s5"
    using st1 st2 st3 st4 st5 by (meson rtranclp.rtrancl_refl rtranclp.rtrancl_into_rtrancl)
  ultimately show ?thesis using s5(2-5) by (intro exI [of _ s5]) simp
qed

theorem rpc_calls_served_witness:
  "\<exists>c1 s c2. clientWriter_run slow_kernel (\<lambda>n. n) std_registry read_impl one_call 0 = Some (Inr c1)
     \<and> (server_step (\<lambda>n. n) std_registry read_impl one_handler)\<^sup>*\<^sup>* one_server s
     \<and> clientReader_run slow_kernel std_registry read_impl 1 c1 0 = Some (Inr c2)
     \<and> call_got (c_heap c2 0) 4 9 [10, 20, 30]"
proof -
  have req: "\<forall>m \<in> set [0]. ar_request (c_heap one_call m) = get_rpc_request NewDispatcherForClient 4 9
      \<and> block_stored three_bytes 4 9 one_block"
    using one_stored by (simp add: one_call_sel)
  have l: "0 < sv_conns one_server" by (simp add: one_server_sel(2))
  obtain c1 where c1: "clientWriter_run slow_kernel (\<lambda>n. n) std_registry read_impl one_call 0 = Some (Inr c1)"
    and rest: "\<forall>s. (server_step (\<lambda>n. n) std_registry read_impl one_handler)\<^sup>*\<^sup>* one_server s \<longrightarrow>
        exchanged (c_conn c1 0) (sv_conn one_server 0) (sv_conn s 0) (length [0 :: nat]) \<longrightarrow>
        bodies_load slow_kernel (c_conn c1 0) (map (\<lambda>m. block_reply 0 4 9 one_block) [0 :: nat]) \<longrightarrow>
        (\<exists>c2. clientReader_run slow_kernel std_registry read_impl (length [0 :: nat]) c1 0 = Some (Inr c2) \<and>
          (\<forall>m \<in> set [0]. call_got (c_heap c2 m) 4 9 one_block))"
    using rpc_calls_served [where cmd = "\<lambda>_. 4" and fid = "\<lambda>_. 9" and content = "\<lambda>_. one_block" and rnd = "\<lambda>n. n",
        OF one_queued order_refl req one_server_reach l one_fresh, of slow_kernel slow_kernel,
        folded one_handler_def]
    by (elim exE conjE) (rule that)
  have w: "list_all (waits one_call) [0]" "writer_ready (c_conn one_call 0)" "cn_pending (c_conn one_call 0) = []"
      "unat (cn_msgID (c_conn one_call 0)) + length [0 :: nat] < 2 ^ 64" "length [0 :: nat] \<le> 10 * c_PendingRequests one_call"
    using one_queued by (simp_all add: calls_queued_def)
  have sent: "cn_d (c_conn c1 0) = cn_d (c_conn one_call 0)"
      "w_out (e_w (cn_e (c_conn c1 0))) = request_wire std_registry read_impl one_wire"
    using clientWriter_run_queued [OF _ one_call_sel(1) _ w, of "\<lambda>n. n" slow_kernel] c1
    by (auto simp: one_call_sel(7) new_conn_def idle_new(2) queued_wire_def one_wire_def one_call_sel(4))
  obtain s where s: "(server_step (\<lambda>n. n) std_registry read_impl one_handler)\<^sup>*\<^sup>* one_server s"
     "length (sc_received (sv_conn s 0)) = 1" "length (sc_written (sv_conn s 0)) = 1" "\<not> sc_wdone (sv_conn s 0)"
     "w_out (e_w (sc_e (sv_conn s 0))) = response_msg (block_reply 1 4 9 one_block)"
    using one_served by blast
  have ex: "exchanged (c_conn c1 0) (sv_conn one_server 0) (sv_conn s 0) (length [0 :: nat])"
    using s sent by (simp add: exchanged_def one_server_sel new_sconn_def one_decoder_def newMessageDecoder_def
        one_call_sel(7) new_conn_def)
  have ld: "bodies_load slow_kernel (c_conn c1 0) (map (\<lambda>m. block_reply 0 4 9 one_block) [0 :: nat])"
    by (simp add: bodies_load_def sent(1) one_call_sel(7) new_conn_def newMessageDecoder_def)
  obtain c2 where c2: "clientReader_run slow_kernel std_registry read_impl (length [0 :: nat]) c1 0 = Some (Inr c2)"
      "\<forall>m \<in> set [0]. call_got (c_heap c2 m) 4 9 one_block"
    using rest s(1) ex ld by blast
  have "clientReader_run slow_kernel std_registry read_impl 1 c1 0 = Some (Inr c2)" using c2(1) by simp
  moreover have "call_got (c_heap c2 0) 4 9 [10, 20, 30]" using c2(2) by (simp add: one_block_def)
  ultimately show ?thesis using c1 s(1) by blast
qed

end
