(* ===== verification/Body_Closes.thy ===== *)
theory Body_Closes
  imports Read_Headers
begin

text \<open>
  How often the encoder closes the reader of a body (\<open>encode\<close> of \<open>pkg/iorpc/encoding.go\<close>, \<open>spliceTo\<close> and
  \<open>Body.Close\<close> of \<open>body.go\<close>), counted over every way \<open>encode\<close> can end.
\<close>

lemma CopyN_closes: "CopyN w r n = (err, k, w', r') \<Longrightarrow> r_closes r' = r_closes r"
  by (auto simp: CopyN_def Let_def split: if_splits prod.splits option.splits)

lemma body_Close_closes:
  "b_Reader b = Some r \<Longrightarrow> \<exists>r'. b_Reader (body_Close b) = Some r' \<and>
     r_closes r' = r_closes r + (if b_NotClose b then 0 else 1)"
  by (auto simp: body_Close_def r_close_def)

lemma drain_body: "drain env w b pipe = Some (spliced, err, w', b') \<Longrightarrow> spliced \<and> b' = b"
  by (auto simp: drain_def split: option.splits)

text \<open>\<open>spliceTo\<close> closes the reader itself exactly if it is a pipe and the writer splices.\<close>

lemma spliceTo_closes:
  assumes "spliceTo env w b = Some (spliced, err, w', b')" "b_Reader b = Some r"
  shows "\<exists>r'. b_Reader b' = Some r' \<and> b_NotClose b' = b_NotClose b \<and>
     r_closes r' = r_closes r + (if r_kind r = RPipe \<and> w_isconn w \<and> se_dst_raw env = None then 1 else 0)"
  using assms
  by (cases "r_kind r")
    (auto simp: spliceTo_def Let_def r_close_def split: if_splits option.splits sum.splits prod.splits dest!: drain_body)

text \<open>
  C19. \<open>encode\<close> closes the reader of a body once, whatever happens to the connection, with three exceptions: a
  body marked \<open>NotClose\<close> is left open, one of size 0 and one whose message head cannot be flushed are never
  closed although nobody else will, and a pipe that is spliced is closed once more, also when it is
  marked, so its pair of descriptors is given back to the pool twice.
\<close>

theorem encode_closes_body:
  assumes "encode_body env e b = Some (err, e', b')" "b_Reader b = Some r"
  shows "\<exists>r'. b_Reader b' = Some r' \<and>
     r_closes r' = r_closes r +
       (if b_Size b = 0 \<or> fst (Flush e) \<noteq> None then 0
        else (if b_NotClose b then 0 else 1) +
          (if r_kind r = RPipe \<and> w_isconn (e_w (snd (Flush e))) \<and> se_dst_raw env = None then 1 else 0))"
proof (cases "b_Size b = 0 \<or> fst (Flush e) \<noteq> None")
  case True
  then show ?thesis using assms by (auto simp: encode_body_def split: option.splits prod.splits)
next
  case False
  then obtain e1 where f: "Flush e = (None, e1)" "b_Size b \<noteq> 0" by (cases "Flush e") auto
  then obtain spliced er w b1 where s: "spliceTo env (e_w e1) b = Some (spliced, er, w, b1)"
    using assms by (auto simp: encode_body_def split: option.splits)
  obtain r1 where r1: "b_Reader b1 = Some r1" "b_NotClose b1 = b_NotClose b"
      "r_closes r1 = r_closes r + (if r_kind r = RPipe \<and> w_isconn (e_w e1) \<and> se_dst_raw env = None then 1 else 0)"
    using spliceTo_closes [OF s assms(2)] by auto
  have closed: "\<exists>r'. b_Reader (body_Close (b1\<lparr>b_Reader := Some r2\<rparr>)) = Some r' \<and>
      r_closes r' = r_closes r1 + (if b_NotClose b then 0 else 1)" if "r_closes r2 = r_closes r1" for r2
    using body_Close_closes [of "b1\<lparr>b_Reader := Some r2\<rparr>" r2] r1(2) that by simp
  have same: "b1\<lparr>b_Reader := Some r1\<rparr> = b1" using r1(1) by simp
  have "b' = body_Close b1 \<or> (\<exists>r2. b' = body_Close (b1\<lparr>b_Reader := Some r2\<rparr>) \<and> r_closes r2 = r_closes r1)"
    using assms f s r1(1)
    by (cases er; cases spliced) (auto simp: encode_body_def split: option.splits prod.splits dest: CopyN_closes)
  then obtain r2 where "b' = body_Close (b1\<lparr>b_Reader := Some r2\<rparr>)" "r_closes r2 = r_closes r1"
    using same by metis
  then show ?thesis using closed [of r2] r1(3) False f by auto
qed

definition pipe_body :: body where
  "pipe_body = \<lparr>b_Offset = 0, b_Size = 3,
     b_Reader = Some \<lparr>r_kind = RPipe, r_data = [1, 2, 3], r_pos = 0, r_closes = 0\<rparr>, b_NotClose = False\<rparr>"

theorem encode_closes_body_witness:
  "\<exists>e' b' r'. encode_body slow_kernel (newMessageEncoder 0 open_sock zero_stats) pipe_body = Some (None, e', b') \<and>
     b_Reader b' = Some r' \<and> r_closes r' = 2"
proof -
  let ?e = "newMessageEncoder 0 open_sock zero_stats"
  have "case encode_body slow_kernel ?e pipe_body of Some (None, e', b') \<Rightarrow> True | _ \<Rightarrow> False" by code_simp
  then obtain e' b' where enc: "encode_body slow_kernel ?e pipe_body = Some (None, e', b')"
    by (auto split: option.splits prod.splits)
  have "fst (Flush ?e) = None" "w_isconn (e_w (snd (Flush ?e)))" "se_dst_raw slow_kernel = None" by code_simp+
  then show ?thesis using enc encode_closes_body [OF enc] by (auto simp: pipe_body_def)
qed

end
