(* ===== verification/Jnet_Wire.thy ===== *)
theory Jnet_Wire
  imports Net_Prelude Data_Gen
begin

text \<open>
  The frames of \<open>pkg/net/jnet\<close>: a batch header of 64 bytes, the heads of all requests or responses of
  the batch, then their bodies; how the server parses a batch of requests, and how the client cuts the
  bodies of a batch of responses out of its buffers.
\<close>

section \<open>Codecs\<close>

record batchHdrDesc =
  bh_Version :: u32
  bh_Cookie :: u64
  bh_HeadLength :: u32
  bh_ChkSum :: u32
  bh_Buf :: "byte list"

definition batch_Encode :: "batchHdrDesc \<Rightarrow> byte list" where
  "batch_Encode d = put_u32 (bh_Version d) @ put_u64 (bh_Cookie d) @ put_u32 (bh_HeadLength d) @ put_u32 (bh_ChkSum d)
     @ drop 20 (bh_Buf d)"

definition batch_Decode :: "batchHdrDesc \<Rightarrow> byte list \<Rightarrow> go_error + batchHdrDesc" where
  "batch_Decode d b =
     (if length b < 20 then Inl (Panic ''slice bounds out of range'')
      else Inr (d\<lparr>bh_Version := be_u32 b, bh_Cookie := be_u64 (drop 4 b), bh_HeadLength := be_u32 (drop 12 b),
                  bh_ChkSum := be_u32 (drop 16 b)\<rparr>))"

text \<open>
  Requests and responses. The channels, callbacks and links of a request are not data of the wire; a
  body is the bytes it holds, \<open>None\<close> for nil.
\<close>

record jrequest =
  jr_CMD :: byte
  jr_Key :: "byte list"
  jr_compressOn :: bool
  jr_crcOn :: bool
  jr_ContentLen :: u32
  jr_Body :: "byte list option"

definition new_jrequest :: jrequest where
  "new_jrequest = \<lparr>jr_CMD = 0, jr_Key = [], jr_compressOn = False, jr_crcOn = False, jr_ContentLen = 0, jr_Body = None\<rparr>"

definition jrequest_Encode :: "jrequest \<Rightarrow> byte list" where
  "jrequest_Encode r =
     (let n = length (jr_Key r);
          b0 = jr_CMD r AND 0xF;
          b2 = (if jr_compressOn r then 1 else 0) OR (if jr_crcOn r then 2 else 0) in
      [if n > 255 then b0 + push_bit 4 (word_of_nat (n div 256)) else b0, word_of_nat n, b2]
        @ put_u32 (jr_ContentLen r) @ jr_Key r)"

definition jkey_size :: "byte list \<Rightarrow> nat" where
  "jkey_size b = unat (b ! 1) + unat (drop_bit 4 (b ! 0)) * 256"

definition jrequest_Decode :: "jrequest \<Rightarrow> byte list \<Rightarrow> go_error + jrequest \<times> nat" where
  "jrequest_Decode r b =
     (if length b < 7 then Inl (Panic ''index out of range'')
      else case go_slice b 7 (7 + int (jkey_size b)) of
             Inl e \<Rightarrow> Inl e
           | Inr key \<Rightarrow>
               Inr (r\<lparr>jr_CMD := b ! 0 AND 0x0F, jr_compressOn := (jr_compressOn r \<or> b ! 2 AND 1 \<noteq> 0),
                      jr_crcOn := (jr_crcOn r \<or> b ! 2 AND 2 \<noteq> 0), jr_ContentLen := be_u32 (drop 3 b), jr_Key := key\<rparr>,
                    7 + jkey_size b))"

record jresponse =
  js_BatchId :: u64
  js_Idx :: u32
  js_ErrorCode :: u32
  js_ErrorMsg :: "byte list"
  js_ContentLen :: u32
  js_Body :: "byte list option"

definition new_jresponse :: jresponse where
  "new_jresponse = \<lparr>js_BatchId = 0, js_Idx = 0, js_ErrorCode = 0, js_ErrorMsg = [], js_ContentLen = 0, js_Body = None\<rparr>"

text \<open>\<open>Encode\<close> replaces the body of an error by its message.\<close>

definition jresponse_Encode :: "jresponse \<Rightarrow> byte list \<times> jresponse" where
  "jresponse_Encode r =
     (let n = (if js_ErrorCode r \<noteq> 0 then word_of_nat (length (js_ErrorMsg r)) else js_ContentLen r) in
      (put_u64 (js_BatchId r) @ put_u32 (js_Idx r) @ put_u32 (js_ErrorCode r) @ put_u32 n,
       if js_ErrorCode r \<noteq> 0 then r\<lparr>js_Body := Some (js_ErrorMsg r)\<rparr> else r))"

definition jresponse_Decode :: "jresponse \<Rightarrow> byte list \<Rightarrow> go_error + jresponse \<times> nat" where
  "jresponse_Decode r b =
     (if length b < 20 then Inl (Panic ''slice bounds out of range'')
      else Inr (r\<lparr>js_BatchId := be_u64 b, js_Idx := be_u32 (drop 8 b), js_ErrorCode := be_u32 (drop 12 b),
                  js_ContentLen := be_u32 (drop 16 b)\<rparr>, 20))"

section \<open>Batches of requests\<close>

text \<open>
  \<open>IOQueue.flush\<close>: the frame for a list of requests under a cookie. The heads were encoded when the
  requests were submitted.
\<close>

definition batch_frame :: "u64 \<Rightarrow> byte list list \<Rightarrow> byte list option list \<Rightarrow> byte list" where
  "batch_frame cookie heads bodies =
     batch_Encode \<lparr>bh_Version = 1, bh_Cookie = cookie, bh_HeadLength = word_of_nat (sum_list (map length heads)),
       bh_ChkSum = 0, bh_Buf = replicate 64 0\<rparr>
     @ concat heads @ concat (map (\<lambda>b. case b of None \<Rightarrow> [] | Some bs \<Rightarrow> bs) bodies)"

definition flush_requests :: "u64 \<Rightarrow> jrequest list \<Rightarrow> byte list" where
  "flush_requests cookie reqs = batch_frame cookie (map jrequest_Encode reqs) (map jr_Body reqs)"

text \<open>
  \<open>IOQueueBackend.recvWorker\<close>: the loop over the heads, which reads each request's body from the
  connection as it goes. \<open>buf\<close> is what is left of the header buffer, \<open>pool\<close> the objects the request pool
  will hand out. \<open>left\<close> is a \<open>uint32\<close> and wraps around.
\<close>

fun next_pooled :: "'r \<Rightarrow> 'r list \<Rightarrow> 'r \<times> 'r list" where
  "next_pooled fresh [] = (fresh, [])"
| "next_pooled fresh (r # rs) = (r, rs)"

definition read_body :: "jrequest \<Rightarrow> stream \<Rightarrow> (go_error + jrequest) \<times> stream" where
  "read_body r ss =
     (if jr_ContentLen r > 0
      then (case copy_chunks (unat (jr_ContentLen r)) ss of
              (cs, rest) \<Rightarrow>
                if length (concat cs) < unat (jr_ContentLen r) then (Inl (Panic ''EOF''), rest)
                else (Inr (r\<lparr>jr_Body := Some (concat cs)\<rparr>), rest))
      else (Inr r, ss))"

function parse_requests :: "u32 \<Rightarrow> byte list \<Rightarrow> jrequest list \<Rightarrow> stream \<Rightarrow> (go_error + jrequest list) \<times> stream" where
  "parse_requests left buf pool ss =
     (if left = 0 then (Inr [], ss)
      else case next_pooled new_jrequest pool of
        (r0, pool') \<Rightarrow>
          (case jrequest_Decode r0 buf of
             Inl e \<Rightarrow> (Inl e, ss)
           | Inr (r1, n) \<Rightarrow>
               (case read_body r1 ss of
                  (Inl e, ss') \<Rightarrow> (Inl e, ss')
                | (Inr r, ss') \<Rightarrow>
                    (case parse_requests (left - word_of_nat n) (drop n buf) pool' ss' of
                       (Inl e, ss2) \<Rightarrow> (Inl e, ss2)
                     | (Inr rs, ss2) \<Rightarrow> (Inr (r # rs), ss2)))))"
  by pat_completeness auto
termination
  by (relation "measure (\<lambda>(left, buf, pool, ss). length buf)")
    (auto simp: jrequest_Decode_def split: if_splits sum.splits)

declare parse_requests.simps [simp del]

definition header_array :: nat where
  "header_array = 1024 * 1024"

text \<open>One turn of the worker: the requests of a batch with their cookie and index. \<open>arr\<close> is the header
  array, which keeps what earlier batches left behind the heads of this one.\<close>

definition recv_batch :: "byte list \<Rightarrow> jrequest list \<Rightarrow> stream \<Rightarrow> (go_error + (u64 \<times> nat \<times> jrequest) list) \<times> byte list \<times> stream" where
  "recv_batch arr pool ss =
     (case read_full 64 ss of
        (Inl e, rest) \<Rightarrow> (Inl (Panic ''read''), arr, rest)
      | (Inr h, rest) \<Rightarrow>
          (case batch_Decode \<lparr>bh_Version = 0, bh_Cookie = 0, bh_HeadLength = 0, bh_ChkSum = 0, bh_Buf = h\<rparr> h of
             Inl e \<Rightarrow> (Inl e, arr, rest)
           | Inr d \<Rightarrow>
               (let n = unat (bh_HeadLength d) in
                if header_array < n then (Inl (Panic ''slice bounds out of range''), arr, rest)
                else case read_full n rest of
                       (Inl e, rest') \<Rightarrow> (Inl (Panic ''read''), arr, rest')
                     | (Inr heads, rest') \<Rightarrow>
                         (let arr' = heads @ drop n arr in
                          case parse_requests (bh_HeadLength d) arr' pool rest' of
                            (Inl e, rest2) \<Rightarrow> (Inl e, arr', rest2)
                          | (Inr reqs, rest2) \<Rightarrow>
                              (Inr (map (\<lambda>(i, r). (bh_Cookie d, i, r)) (enumerate 0 reqs)), arr', rest2)))))"

section \<open>Round trip of a batch\<close>

lemma batch_roundtrip:
  assumes "length (bh_Buf d) = 64"
  shows "length (batch_Encode d) = 64" "batch_Decode d0 (batch_Encode d) =
    Inr (d0\<lparr>bh_Version := bh_Version d, bh_Cookie := bh_Cookie d, bh_HeadLength := bh_HeadLength d, bh_ChkSum := bh_ChkSum d\<rparr>)"
  using assms by (simp_all add: batch_Encode_def batch_Decode_def)

definition jrequest_ok :: "jrequest \<Rightarrow> bool" where
  "jrequest_ok r \<longleftrightarrow> length (jr_Key r) < 4096 \<and>
     (case jr_Body r of None \<Rightarrow> jr_ContentLen r = 0 | Some b \<Rightarrow> b \<noteq> [] \<and> length b = unat (jr_ContentLen r))"

definition jhead_view :: "jrequest \<Rightarrow> byte \<times> byte list \<times> u32" where
  "jhead_view r = (jr_CMD r AND 0xF, jr_Key r, jr_ContentLen r)"

lemma nibbles:
  fixes c :: byte and n :: nat
  assumes "n < 16"
  shows "drop_bit 4 ((c AND 0xF) + push_bit 4 (word_of_nat n)) = (word_of_nat n :: byte)"
    and "((c AND 0xF) + push_bit 4 (word_of_nat n)) AND 0xF = c AND 0xF"
proof -
  have m: "(0xF :: byte) = mask 4" by (simp add: mask_eq_exp_minus_1)
  have disj: "(c AND 0xF) AND push_bit 4 (word_of_nat n :: byte) = 0"
    unfolding m by (rule bit_word_eqI) (auto simp: bit_simps)
  then have plus: "(c AND 0xF) + push_bit 4 (word_of_nat n) = (c AND 0xF) OR push_bit 4 (word_of_nat n :: byte)"
    by (rule disjunctive_add_eq_or)
  have "take_bit 4 n = n" using assms by (simp add: take_bit_nat_eq_self)
  then have high: "bit n i \<Longrightarrow> i < 4" for i by (metis bit_take_bit_iff)
  show "drop_bit 4 ((c AND 0xF) + push_bit 4 (word_of_nat n)) = (word_of_nat n :: byte)"
    unfolding plus unfolding m by (rule bit_word_eqI) (auto simp: bit_simps dest: high)
  show "((c AND 0xF) + push_bit 4 (word_of_nat n)) AND 0xF = c AND 0xF"
    unfolding plus unfolding m by (rule bit_word_eqI) (auto simp: bit_simps)
qed

lemma length_jrequest_Encode [simp]: "length (jrequest_Encode r) = 7 + length (jr_Key r)"
  by (simp add: jrequest_Encode_def Let_def)

lemma jflag_bits:
  "((if a then 1 else 0) OR (if b then 2 else 0)) AND (1 :: byte) \<noteq> 0 \<longleftrightarrow> a"
  "((if a then 1 else 0) OR (if b then 2 else 0)) AND (2 :: byte) \<noteq> 0 \<longleftrightarrow> b"
  by (cases a; cases b; simp)+

lemma jkey_size_Encode:
  assumes "length (jr_Key r) < 4096"
  shows "jkey_size (jrequest_Encode r @ extra) = length (jr_Key r)"
proof -
  let ?n = "length (jr_Key r)"
  have low: "unat (word_of_nat ?n :: byte) = ?n mod 256" by (simp add: unat_of_nat)
  have q: "?n div 256 < 16" using assms by (simp add: div_less_iff_less_mult)
  then have high: "unat (word_of_nat (?n div 256) :: byte) = ?n div 256" by (simp add: unat_of_nat)
  have m: "(0xF :: byte) = mask 4" by (simp add: mask_eq_exp_minus_1)
  have z: "drop_bit 4 (jr_CMD r AND 0xF) = 0" unfolding m by (simp add: drop_bit_take_bit flip: take_bit_eq_mask)
  show ?thesis
    using nibbles(1) [OF q, of "jr_CMD r"] low high z
    by (simp add: jkey_size_def jrequest_Encode_def Let_def)
qed

definition refreshed :: "jrequest \<Rightarrow> jrequest \<Rightarrow> jrequest" where
  "refreshed r0 r = r0\<lparr>jr_CMD := jr_CMD r AND 0xF, jr_compressOn := (jr_compressOn r0 \<or> jr_compressOn r),
     jr_crcOn := (jr_crcOn r0 \<or> jr_crcOn r), jr_ContentLen := jr_ContentLen r, jr_Key := jr_Key r\<rparr>"

lemma jrequest_Decode_Encode:
  assumes "length (jr_Key r) < 4096"
  shows "jrequest_Decode r0 (jrequest_Encode r @ extra) = Inr (refreshed r0 r, 7 + length (jr_Key r))"
proof -
  let ?b = "jrequest_Encode r @ extra"
  have "go_slice ?b 7 (7 + int (length (jr_Key r))) = Inr (jr_Key r)"
    by (simp add: go_slice_def) (simp add: jrequest_Encode_def Let_def)
  moreover have "?b ! 0 AND 0xF = jr_CMD r AND 0xF"
    using nibbles(2) [of "length (jr_Key r) div 256" "jr_CMD r"] assms
    by (simp add: jrequest_Encode_def Let_def and.assoc div_less_iff_less_mult)
  moreover have "?b ! 2 = (if jr_compressOn r then 1 else 0) OR (if jr_crcOn r then 2 else 0)"
    by (simp add: jrequest_Encode_def Let_def)
  moreover have "be_u32 (drop 3 ?b) = jr_ContentLen r"
    by (simp add: jrequest_Encode_def Let_def)
  ultimately show ?thesis
    using jflag_bits [of "jr_compressOn r" "jr_crcOn r"]
    by (simp add: jrequest_Decode_def jkey_size_Encode [OF assms] refreshed_def)
qed

definition body_bytes :: "jrequest \<Rightarrow> byte list" where
  "body_bytes r = (case jr_Body r of None \<Rightarrow> [] | Some bs \<Rightarrow> bs)"

text \<open>
  The object \<open>o'\<close> that the server gets for a request, in the pooled object \<open>r0\<close>: \<open>Decode\<close> sets the flags
  but never clears them, and without a body the object keeps the one it had.
\<close>

definition same_request :: "jrequest \<Rightarrow> jrequest \<Rightarrow> bool" where
  "same_request r o' \<longleftrightarrow> jr_CMD o' = jr_CMD r AND 0xF \<and> jhead_view o' = jhead_view r \<and> (jr_Body r \<noteq> None \<longrightarrow> jr_Body o' = jr_Body r)"

definition in_object :: "jrequest \<Rightarrow> jrequest \<Rightarrow> jrequest \<Rightarrow> bool" where
  "in_object r0 r o' \<longleftrightarrow> jr_compressOn o' = (jr_compressOn r0 \<or> jr_compressOn r)
     \<and> jr_crcOn o' = (jr_crcOn r0 \<or> jr_crcOn r) \<and> (jr_Body r = None \<longrightarrow> jr_Body o' = jr_Body r0)"

definition pool_object :: "jrequest list \<Rightarrow> nat \<Rightarrow> jrequest" where
  "pool_object pool i = (if i < length pool then pool ! i else new_jrequest)"

lemma next_pooled_object:
  "next_pooled new_jrequest pool = (r0, pool') \<Longrightarrow> pool_object pool 0 = r0 \<and> pool_object pool (Suc i) = pool_object pool' i"
  by (cases pool) (auto simp: pool_object_def)

lemma read_body_ok:
  assumes "jrequest_ok r" "concat ss = body_bytes r @ rest"
  obtains o' ss' where "read_body (refreshed r0 r) ss = (Inr o', ss')" "same_request r o'" "in_object r0 r o'" "concat ss' = rest"
proof (cases "jr_Body r")
  case None
  then have "read_body (refreshed r0 r) ss = (Inr (refreshed r0 r), ss)" "same_request r (refreshed r0 r)"
      "in_object r0 r (refreshed r0 r)"
    using assms(1)
    by (simp_all add: read_body_def jrequest_ok_def refreshed_def same_request_def in_object_def jhead_view_def and.assoc)
  then show ?thesis using that assms(2) None by (simp add: body_bytes_def)
next
  case (Some b)
  then have n: "jr_ContentLen r > 0" "unat (jr_ContentLen r) = length b" and ss: "concat ss = b @ rest"
    using assms by (auto simp: jrequest_ok_def body_bytes_def word_greater_zero_iff)
  obtain cs rs where cc: "copy_chunks (length b) ss = (cs, rs)" by (cases "copy_chunks (length b) ss")
  then have "concat cs = b" "concat rs = rest" using copy_chunks_spec [of "length b" ss] ss by auto
  then show ?thesis
    using that [of "(refreshed r0 r)\<lparr>jr_Body := Some b\<rparr>" rs] n cc Some
    by (simp add: read_body_def refreshed_def same_request_def in_object_def jhead_view_def and.assoc)
qed

lemma word_of_nat_nonzero: "0 < n \<Longrightarrow> n < 2 ^ 32 \<Longrightarrow> (word_of_nat n :: u32) \<noteq> 0"
  by (auto simp: word_of_nat_eq_0_iff dest: dvd_imp_le)

lemma parse_requests_ok:
  "list_all jrequest_ok rs \<Longrightarrow> sum_list (map (\<lambda>r. length (jrequest_Encode r)) rs) < 2 ^ 32 \<Longrightarrow>
     concat ss = concat (map body_bytes rs) @ rest \<Longrightarrow>
     \<exists>os ss'. parse_requests (word_of_nat (sum_list (map (\<lambda>r. length (jrequest_Encode r)) rs)))
          (concat (map jrequest_Encode rs) @ extra) pool ss = (Inr os, ss')
       \<and> list_all2 same_request rs os \<and> (\<forall>i < length rs. in_object (pool_object pool i) (rs ! i) (os ! i))
       \<and> concat ss' = rest"
proof (induction rs arbitrary: pool ss)
  case Nil
  then show ?case by (simp add: parse_requests.simps)
next
  case (Cons r rs)
  let ?n = "7 + length (jr_Key r)" and ?m = "sum_list (map (\<lambda>r. length (jrequest_Encode r)) rs)"
  have total: "?n + ?m < 2 ^ 32" using Cons.prems(2) by simp
  have nz: "(word_of_nat (?n + ?m) :: u32) \<noteq> 0" by (rule word_of_nat_nonzero [OF _ total]) simp
  have left: "(word_of_nat (?n + ?m) :: u32) - word_of_nat ?n = word_of_nat ?m" by simp
  obtain r0 pool' where p: "next_pooled new_jrequest pool = (r0, pool')" by (cases "next_pooled new_jrequest pool")
  have key: "length (jr_Key r) < 4096" using Cons.prems(1) by (simp add: jrequest_ok_def)
  obtain o1 s1 where o1: "read_body (refreshed r0 r) ss = (Inr o1, s1)" "same_request r o1" "in_object r0 r o1"
      "concat s1 = concat (map body_bytes rs) @ rest"
    using read_body_ok [of r ss "concat (map body_bytes rs) @ rest" r0] Cons.prems(1,3) by auto
  obtain os s2 where os: "parse_requests (word_of_nat ?m) (concat (map jrequest_Encode rs) @ extra) pool' s1 = (Inr os, s2)"
      "list_all2 same_request rs os" "\<forall>i < length rs. in_object (pool_object pool' i) (rs ! i) (os ! i)" "concat s2 = rest"
    using Cons.IH [of s1 pool'] Cons.prems(1) total o1(4) by auto
  let ?buf = "jrequest_Encode r @ (concat (map jrequest_Encode rs) @ extra)"
  have dec: "jrequest_Decode r0 ?buf = Inr (refreshed r0 r, ?n)" by (rule jrequest_Decode_Encode [OF key])
  have dr: "drop ?n ?buf = concat (map jrequest_Encode rs) @ extra" by simp
  have "parse_requests (word_of_nat (?n + ?m)) ?buf pool ss = (Inr (o1 # os), s2)"
    unfolding parse_requests.simps [of "word_of_nat (?n + ?m)" ?buf pool ss] p prod.case dec sum.case o1(1) dr left os(1)
    using nz by simp
  moreover have "in_object (pool_object pool i) ((r # rs) ! i) ((o1 # os) ! i)" if "i < length (r # rs)" for i
    using that o1(3) os(3) next_pooled_object [OF p] by (cases i) simp_all
  ultimately show ?case using o1(2) os(2,4) by (intro exI [of _ "o1 # os"] exI [of _ s2]) simp
qed

lemma recv_batch_ok:
  assumes "list_all jrequest_ok rs" "sum_list (map (\<lambda>r. length (jrequest_Encode r)) rs) \<le> header_array"
    and "concat ss = flush_requests cookie rs @ rest"
  shows "\<exists>os arr' ss'. recv_batch arr pool ss = (Inr (map (\<lambda>(i, r). (cookie, i, r)) (enumerate 0 os)), arr', ss')
     \<and> list_all2 same_request rs os \<and> (\<forall>i < length rs. in_object (pool_object pool i) (rs ! i) (os ! i))
     \<and> concat ss' = rest"
proof -
  let ?heads = "concat (map jrequest_Encode rs)" and ?n = "sum_list (map (\<lambda>r. length (jrequest_Encode r)) rs)"
  let ?d = "\<lparr>bh_Version = 1, bh_Cookie = cookie, bh_HeadLength = word_of_nat ?n, bh_ChkSum = 0, bh_Buf = replicate 64 0\<rparr>"
  have n: "?n < 2 ^ 32" using assms(2) by (simp add: header_array_def)
  have un: "unat (word_of_nat ?n :: u32) = ?n" using n by (simp add: unat_of_nat)
  have len: "length ?heads = ?n" by (simp add: length_concat comp_def)
  have "concat (map (\<lambda>b. case b of None \<Rightarrow> [] | Some bs \<Rightarrow> bs) (map jr_Body rs)) = concat (map body_bytes rs)"
    by (simp add: body_bytes_def [abs_def] comp_def)
  then have ss: "concat ss = batch_Encode ?d @ (?heads @ concat (map body_bytes rs) @ rest)"
    using assms(3) by (simp add: flush_requests_def batch_frame_def comp_def)
  have hdr: "length (batch_Encode ?d) = 64" by (rule batch_roundtrip) simp
  obtain s1 where s1: "read_full 64 ss = (Inr (batch_Encode ?d), s1)" "concat s1 = ?heads @ concat (map body_bytes rs) @ rest"
    by (rule read_full_exact [OF ss]) (use hdr in simp_all)
  obtain s2 where s2: "read_full ?n s1 = (Inr ?heads, s2)" "concat s2 = concat (map body_bytes rs) @ rest"
    by (rule read_full_exact [OF s1(2)]) (use len in simp_all)
  obtain os s3 where os: "parse_requests (word_of_nat ?n) (?heads @ drop ?n arr) pool s2 = (Inr os, s3)"
      "list_all2 same_request rs os" "\<forall>i < length rs. in_object (pool_object pool i) (rs ! i) (os ! i)" "concat s3 = rest"
    using parse_requests_ok [OF assms(1) n s2(2)] by blast
  have dec: "batch_Decode \<lparr>bh_Version = 0, bh_Cookie = 0, bh_HeadLength = 0, bh_ChkSum = 0, bh_Buf = batch_Encode ?d\<rparr> (batch_Encode ?d)
      = Inr \<lparr>bh_Version = 1, bh_Cookie = cookie, bh_HeadLength = word_of_nat ?n, bh_ChkSum = 0, bh_Buf = batch_Encode ?d\<rparr>"
    by (subst batch_roundtrip(2)) simp_all
  have "recv_batch arr pool ss = (Inr (map (\<lambda>(i, r). (cookie, i, r)) (enumerate 0 os)), ?heads @ drop ?n arr, s3)"
    using assms(2) os(1) by (simp add: recv_batch_def s1(1) dec un s2(1) Let_def del: length_jrequest_Encode)
  then show ?thesis using os(2-4) by blast
qed

text \<open>
  C34. A batch of requests flushed by the client under a cookie is received by the server, however the
  network cuts it and whatever the request pool and the header array hold from earlier batches, as the
  same requests in order, each with the cookie and its index, the low four bits of its command, its
  key, length and body, and its compression and checksum flags, to which the flags that the pooled
  object had are added (for a fresh object they are exactly the client's); nothing of the stream beyond
  the frame is touched. Keys may have up to 4095 bytes here, and the heads together at most the
  megabyte of the server's array.
\<close>

theorem jnet_batch_roundtrip:
  assumes "list_all jrequest_ok rs" "sum_list (map (\<lambda>r. length (jrequest_Encode r)) rs) \<le> header_array"
    and "concat ss = flush_requests cookie rs @ rest"
  shows "\<exists>os arr' ss'. recv_batch arr pool ss = (Inr (map (\<lambda>(i, r). (cookie, i, r)) (enumerate 0 os)), arr', ss')
     \<and> list_all2 same_request rs os \<and> (\<forall>i < length rs. in_object (pool_object pool i) (rs ! i) (os ! i))
     \<and> concat ss' = rest"
  using assms by (rule recv_batch_ok)

theorem jnet_batch_roundtrip_witness:
  "\<exists>o1 o2 arr ss. recv_batch [] [] [flush_requests 7
       [new_jrequest\<lparr>jr_CMD := 3, jr_Key := [49], jr_crcOn := True\<rparr>, new_jrequest\<lparr>jr_CMD := 1, jr_ContentLen := 2, jr_Body := Some [8, 9]\<rparr>]]
     = (Inr [(7, 0, o1), (7, 1, o2)], arr, ss) \<and> jr_Key o1 = [49] \<and> jr_crcOn o1 \<and> jr_Body o2 = Some [8, 9]"
proof -
  let ?rs = "[new_jrequest\<lparr>jr_CMD := 3, jr_Key := [49], jr_crcOn := True\<rparr>, new_jrequest\<lparr>jr_CMD := 1, jr_ContentLen := 2, jr_Body := Some [8, 9]\<rparr>]"
  have ok: "list_all jrequest_ok ?rs" "sum_list (map (\<lambda>r. length (jrequest_Encode r)) ?rs) \<le> header_array"
    by (simp_all add: jrequest_ok_def new_jrequest_def header_array_def)
  obtain os arr' ss' where r: "recv_batch [] [] [flush_requests 7 ?rs]
      = (Inr (map (\<lambda>(i, r). (7, i, r)) (enumerate 0 os)), arr', ss')" "list_all2 same_request ?rs os"
      "\<forall>i < length ?rs. in_object (pool_object [] i) (?rs ! i) (os ! i)"
    using jnet_batch_roundtrip [OF ok, of "[flush_requests 7 ?rs]" 7 "[]" "[]" "[]"] by auto
  then obtain o1 o2 where os: "os = [o1, o2]" "same_request (?rs ! 0) o1" "same_request (?rs ! 1) o2"
    by (auto simp: list_all2_Cons1)
  have "jr_crcOn o1" using r(3) [rule_format, of 0] os(1) by (simp add: in_object_def)
  then show ?thesis
    using r(1) os by (intro exI [of _ o1] exI [of _ o2] exI [of _ arr'] exI [of _ ss'])
      (simp add: same_request_def jhead_view_def new_jrequest_def)
qed

end
