(* ===== verification/Jnet.thy ===== *)
theory Jnet
  imports Jnet_Wire
begin

text \<open>
  The workers of \<open>pkg/net/jnet\<close>: how requests and responses are gathered into batches, the server's
  handling of a request with its pooled response objects, the client's parsing of a batch of responses
  and the completion of the calls that wait for them, and the server's pool of workers.
\<close>

section \<open>Gathering batches\<close>

text \<open>
  The submit workers of client and server: an element arrives on the channel, the heartbeat ticks, or
  nil arrives, which ends the worker. The first element of a batch is taken by the outer \<open>select\<close>,
  which counts neither it nor its length; \<open>full\<close> is the test after each further one.
\<close>

datatype 'a event = Arrive 'a | Tick | Nil_element

fun collect :: "(nat \<Rightarrow> int \<Rightarrow> bool) \<Rightarrow> ('a \<Rightarrow> u32) \<Rightarrow> 'a event list \<Rightarrow> 'a list \<Rightarrow> int \<Rightarrow> 'a list list \<times> 'a list" where
  "collect full len [] cur sz = ([], cur)"
| "collect full len (Nil_element # es) cur sz = ([], cur)"
| "collect full len (Tick # es) cur sz =
     (if cur = [] then collect full len es [] 0
      else case collect full len es [] 0 of (bs, left) \<Rightarrow> (cur # bs, left))"
| "collect full len (Arrive r # es) cur sz =
     (if cur = [] then collect full len es [r] 0
      else let cur' = cur @ [r]; sz' = sz + int (unat (len r)) in
           if full (length cur') sz'
           then (case collect full len es [] 0 of (bs, left) \<Rightarrow> (cur' # bs, left))
           else collect full len es cur' sz')"

definition MaxBatchCount :: nat where
  "MaxBatchCount = 64"

definition MaxBatchSize :: int where
  "MaxBatchSize = 1024 * 1024"

definition client_full :: "nat \<Rightarrow> int \<Rightarrow> bool" where
  "client_full n sz \<longleftrightarrow> MaxBatchCount \<le> n \<or> MaxBatchSize \<le> sz"

definition server_full :: "nat \<Rightarrow> int \<Rightarrow> bool" where
  "server_full n sz \<longleftrightarrow> MaxBatchCount < n \<or> MaxBatchSize < sz"

definition client_submitWorker :: "jrequest event list \<Rightarrow> jrequest list list \<times> jrequest list" where
  "client_submitWorker es = collect client_full jr_ContentLen es [] 0"

definition server_submitWorker :: "jresponse event list \<Rightarrow> jresponse list list \<times> jresponse list" where
  "server_submitWorker es = collect server_full js_ContentLen es [] 0"

fun arrivals :: "'a event list \<Rightarrow> 'a list" where
  "arrivals [] = []"
| "arrivals (Arrive r # es) = r # arrivals es"
| "arrivals (Tick # es) = arrivals es"
| "arrivals (Nil_element # es) = []"

text \<open>The contract of the test: no batch grows beyond a limit of at least two.\<close>

locale batcher =
  fixes full :: "nat \<Rightarrow> int \<Rightarrow> bool" and limit :: nat
  assumes full_at_limit: "limit \<le> n \<Longrightarrow> full n sz"
    and limit_two: "2 \<le> limit"
begin

lemma collect_keeps_order:
  "collect full len es cur sz = (bs, left) \<Longrightarrow> concat bs @ left = cur @ arrivals es"
proof (induction full len es cur sz arbitrary: bs left rule: collect.induct)
  case (3 full len es cur sz)
  then show ?case by (cases "cur = []") (auto split: prod.splits)
next
  case (4 full len r es cur sz)
  then show ?case by (cases "cur = []") (auto simp: Let_def split: prod.splits if_splits)
qed auto

lemma collect_bounded:
  "collect full len es cur sz = (bs, left) \<Longrightarrow> length cur < limit \<Longrightarrow>
     list_all (\<lambda>b. b \<noteq> [] \<and> length b \<le> limit) bs \<and> length left < limit"
proof (induction es arbitrary: cur sz bs left)
  case Nil
  then show ?case by simp
next
  case (Cons e es)
  have l: "(0::nat) < limit" "(1::nat) < limit" using limit_two by auto
  show ?case
  proof (cases e)
    case (Arrive r)
    show ?thesis
    proof (cases "cur = []")
      case True
      then show ?thesis using Cons.IH [of "[r]" 0 bs left] Cons.prems(1) Arrive l by simp
    next
      case False
      let ?c = "cur @ [r]" and ?s = "sz + int (unat (len r))"
      show ?thesis
      proof (cases "full (length ?c) ?s")
        case True
        obtain bs' where "collect full len es [] 0 = (bs', left)" "bs = ?c # bs'"
          using Cons.prems(1) Arrive False True by (auto simp: Let_def split: prod.splits)
        then show ?thesis using Cons.IH [of "[]" 0 bs' left] Cons.prems(2) l by simp
      next
        case nf: False
        then have "length ?c < limit" using full_at_limit not_le by blast
        then show ?thesis using Cons.IH [of ?c ?s bs left] Cons.prems(1) Arrive False nf by (simp add: Let_def)
      qed
    qed
  next
    case Tick
    show ?thesis
    proof (cases "cur = []")
      case True
      then show ?thesis using Cons.IH [of "[]" 0 bs left] Cons.prems(1) Tick l by simp
    next
      case False
      then obtain bs' where "collect full len es [] 0 = (bs', left)" "bs = cur # bs'"
        using Cons.prems(1) Tick by (auto split: prod.splits)
      then show ?thesis using Cons.IH [of "[]" 0 bs' left] Cons.prems(2) False l by simp
    qed
  next
    case Nil_element
    then show ?thesis using Cons.prems by simp
  qed
qed

end

interpretation cb: batcher client_full 64
  by unfold_locales (simp_all add: client_full_def MaxBatchCount_def)

interpretation sb: batcher server_full 65
  by unfold_locales (simp_all add: server_full_def MaxBatchCount_def)

section \<open>The server's handling of a request\<close>

text \<open>
  \<open>processRequest\<close> with the response object \<open>r0\<close> that the pool hands out, and the encoded head.
\<close>

definition processRequest :: "data_gen \<Rightarrow> jresponse \<Rightarrow> u64 \<times> nat \<times> jrequest \<Rightarrow> go_error + byte list \<times> jresponse" where
  "processRequest dg r0 q =
     (case q of (batchId, idx, req) \<Rightarrow>
       (let resp = r0\<lparr>js_Idx := word_of_nat idx, js_BatchId := batchId\<rparr>;
            get = (\<lambda>key. case dg_Get dg key of Inl e \<Rightarrow> Inl e | Inr b \<Rightarrow> Inr (b, resp));
            res = (if jr_CMD req = 0 then get ''key0''
                   else if jr_CMD req = 1 then get ''key1''
                   else if jr_CMD req = 2 then get ''key2''
                   else if jr_CMD req = 3 then get ''key3''
                   else if jr_CMD req = 4 then get ''key4''
                   else Inr ([], resp\<lparr>js_ErrorCode := 1, js_ErrorMsg := bytes_of ''invalid command''\<rparr>)) in
        case res of
          Inl e \<Rightarrow> Inl e
        | Inr (buf, resp1) \<Rightarrow>
            Inr (jresponse_Encode (resp1\<lparr>js_ContentLen := word_of_nat (length buf), js_Body := Some buf\<rparr>))))"

text \<open>
  \<open>flush\<close> of the server: the bodies follow the heads in one \<open>writev\<close>; the objects go back to the pool
  as they are.
\<close>

definition flush_responses :: "(byte list \<times> jresponse) list \<Rightarrow> byte list" where
  "flush_responses rs = batch_frame 0 (map fst rs) (map (\<lambda>r. js_Body (snd r)) rs)"

section \<open>The client's receive worker\<close>

function parse_responses :: "u32 \<Rightarrow> byte list \<Rightarrow> jresponse list \<Rightarrow> go_error + jresponse list" where
  "parse_responses left buf pool =
     (if left = 0 then Inr []
      else case next_pooled new_jresponse pool of
        (r0, pool') \<Rightarrow>
          (case jresponse_Decode r0 buf of
             Inl e \<Rightarrow> Inl e
           | Inr (r, n) \<Rightarrow>
               (case parse_responses (left - word_of_nat n) (drop n buf) pool' of
                  Inl e \<Rightarrow> Inl e
                | Inr rs \<Rightarrow> Inr (r # rs))))"
  by pat_completeness auto
termination
  by (relation "measure (\<lambda>(left, buf, pool). length buf)") (auto simp: jresponse_Decode_def split: if_splits)

declare parse_responses.simps [simp del]

definition response_array :: nat where
  "response_array = 20 * 512"

definition body_buf :: nat where
  "body_buf = 1024 * 4096"

text \<open>The bodies of the batch, in pooled buffers of 4 MiB that keep their old content behind the new.\<close>

function fetch_bodies :: "nat \<Rightarrow> byte list list \<Rightarrow> stream \<Rightarrow> (go_error + byte list list) \<times> stream" where
  "fetch_bodies left pool ss =
     (if left = 0 then (Inr [], ss)
      else case next_pooled (replicate body_buf 0) pool of
        (old, pool') \<Rightarrow>
          (let n = min left body_buf in
           case read_full n ss of
             (Inl e, rest) \<Rightarrow> (Inl (Panic ''read''), rest)
           | (Inr bs, rest) \<Rightarrow>
               (case fetch_bodies (left - n) pool' rest of
                  (Inl e, rest') \<Rightarrow> (Inl e, rest')
                | (Inr bufs, rest') \<Rightarrow> (Inr ((bs @ drop n old) # bufs), rest'))))"
  by pat_completeness auto
termination
  by (relation "measure fst") (auto simp: body_buf_def)

declare fetch_bodies.simps [simp del]

text \<open>
  The loop that hands out the bodies. A body that crosses the end of a buffer is copied into a new
  slice, which is then dropped: \<open>resp.Body\<close> stays what the pooled object had. A length of 0 panics.
\<close>

fun assign_bodies :: "byte list list \<Rightarrow> nat \<Rightarrow> nat \<Rightarrow> jresponse list \<Rightarrow> go_error + jresponse list" where
  "assign_bodies bufs off idx [] = Inr []"
| "assign_bodies bufs off idx (r # rs) =
     (let n = unat (js_ContentLen r) in
      if n = 0 then Inl (Panic '''')
      else if off + n \<le> body_buf
      then (if length bufs \<le> idx then Inl (Panic ''index out of range'')
            else let r' = r\<lparr>js_Body := Some (sub off (off + n) (bufs ! idx))\<rparr>;
                     (off', idx') = (if off + n = body_buf then (0, idx + 1) else (off + n, idx)) in
                 case assign_bodies bufs off' idx' rs of Inl e \<Rightarrow> Inl e | Inr rs' \<Rightarrow> Inr (r' # rs'))
      else (let k = body_buf - off in
            if length bufs \<le> idx + 1 then Inl (Panic ''index out of range'')
            else if body_buf < n - k then Inl (Panic ''slice bounds out of range'')
            else case assign_bodies bufs (n - k) (idx + 1) rs of Inl e \<Rightarrow> Inl e | Inr rs' \<Rightarrow> Inr (r # rs')))"

text \<open>One frame: header, heads, bodies.\<close>

definition recv_responses :: "byte list \<Rightarrow> jresponse list \<Rightarrow> byte list list \<Rightarrow> stream \<Rightarrow>
    (go_error + jresponse list) \<times> stream" where
  "recv_responses arr pool bufs ss =
     (case read_full 64 ss of
        (Inl e, rest) \<Rightarrow> (Inl (Panic ''read''), rest)
      | (Inr h, rest) \<Rightarrow>
          (case batch_Decode \<lparr>bh_Version = 0, bh_Cookie = 0, bh_HeadLength = 0, bh_ChkSum = 0, bh_Buf = h\<rparr> h of
             Inl e \<Rightarrow> (Inl e, rest)
           | Inr d \<Rightarrow>
               (let n = unat (bh_HeadLength d) in
                if response_array < n then (Inl (Panic ''slice bounds out of range''), rest)
                else case read_full n rest of
                       (Inl e, rest') \<Rightarrow> (Inl (Panic ''read''), rest')
                     | (Inr heads, rest') \<Rightarrow>
                         (case parse_responses (bh_HeadLength d) (heads @ drop n arr) pool of
                            Inl e \<Rightarrow> (Inl e, rest')
                          | Inr resps \<Rightarrow>
                              (let bodyLen = sum_list (map (\<lambda>r. unat (js_ContentLen r)) resps) in
                               case fetch_bodies (unat (word_of_nat bodyLen :: u32)) bufs rest' of
                                 (Inl e, rest2) \<Rightarrow> (Inl e, rest2)
                               | (Inr bs, rest2) \<Rightarrow> (assign_bodies bs 0 0 resps, rest2))))))"

section \<open>Completing the calls\<close>

text \<open>
  The client's queue: the batches in flight under their cookies, each with its calls in order and the
  number of responses missing, and what each call has got.
\<close>

record jcall =
  jc_resp :: "jresponse option"
  jc_done :: bool

record jqueue =
  jq_nextCookie :: u64
  jq_inflight :: "u64 \<Rightarrow> (nat list \<times> int) option"
  jq_calls :: "nat \<Rightarrow> jcall"

text \<open>The registration in \<open>IOQueue.flush\<close>.\<close>

definition register_batch :: "jqueue \<Rightarrow> nat list \<Rightarrow> u64 \<times> jqueue" where
  "register_batch q ids =
     (jq_nextCookie q, q\<lparr>jq_nextCookie := jq_nextCookie q + 1,
        jq_inflight := (jq_inflight q)(jq_nextCookie q \<mapsto> (ids, int (length ids)))\<rparr>)"

text \<open>What \<open>recvWorker\<close> does with a response: \<open>close(req.wait)\<close> of a closed channel panics.\<close>

definition complete :: "jqueue \<Rightarrow> jresponse \<Rightarrow> go_error + jqueue" where
  "complete q r =
     (case jq_inflight q (js_BatchId r) of
        None \<Rightarrow> Inr q
      | Some (ids, left) \<Rightarrow>
          if length ids \<le> unat (js_Idx r) then Inl (Panic ''index out of range'')
          else let i = ids ! unat (js_Idx r);
                   fl = (if left - 1 = 0 then (jq_inflight q)(js_BatchId r := None)
                         else (jq_inflight q)(js_BatchId r \<mapsto> (ids, left - 1))) in
               if jc_done (jq_calls q i) then Inl (Panic ''close of closed channel'')
               else Inr (q\<lparr>jq_inflight := fl, jq_calls := (jq_calls q)(i := \<lparr>jc_resp = Some r, jc_done = True\<rparr>)\<rparr>))"

fun complete_all :: "jqueue \<Rightarrow> jresponse list \<Rightarrow> go_error + jqueue" where
  "complete_all q [] = Inr q"
| "complete_all q (r # rs) = (case complete q r of Inl e \<Rightarrow> Inl e | Inr q' \<Rightarrow> complete_all q' rs)"

text \<open>
  \<open>Client.Get\<close> after its call has completed: the error text is that of the pooled response object, not
  the one received; a response without a body panics in the type assertion.
\<close>

definition jnet_Get_result :: "jresponse \<Rightarrow> go_error + byte list \<times> byte list option" where
  "jnet_Get_result r =
     (case js_Body r of
        None \<Rightarrow> Inl (Panic ''interface conversion'')
      | Some body \<Rightarrow> Inr (body, if js_ErrorCode r \<noteq> 0 then Some (js_ErrorMsg r) else None))"

section \<open>A batch of responses arrives\<close>

text \<open>
  What a response puts on the wire as its body, and what the client has for it afterwards: \<open>expect\<close>
  gives the responses the client gets, with the body except where it crosses a multiple of 4 MiB of
  the batch's bodies; there the pooled object keeps the body it had.
\<close>

definition wire_body :: "jresponse \<Rightarrow> byte list" where
  "wire_body r = (case js_Body (snd (jresponse_Encode r)) of None \<Rightarrow> [] | Some b \<Rightarrow> b)"

definition jresponse_ok :: "jresponse \<Rightarrow> bool" where
  "jresponse_ok r \<longleftrightarrow> wire_body r \<noteq> [] \<and> length (wire_body r) \<le> body_buf \<and>
     (js_ErrorCode r = 0 \<longrightarrow> unat (js_ContentLen r) = length (wire_body r))"

definition decoded :: "jresponse \<Rightarrow> jresponse \<Rightarrow> jresponse" where
  "decoded r0 r = r0\<lparr>js_BatchId := js_BatchId r, js_Idx := js_Idx r, js_ErrorCode := js_ErrorCode r,
     js_ContentLen := word_of_nat (length (wire_body r))\<rparr>"

fun parsed :: "jresponse list \<Rightarrow> jresponse list \<Rightarrow> jresponse list" where
  "parsed pool [] = []"
| "parsed pool (r # rs) = (case next_pooled new_jresponse pool of (r0, pool') \<Rightarrow> decoded r0 r # parsed pool' rs)"

fun expect :: "nat \<Rightarrow> jresponse list \<Rightarrow> jresponse list \<Rightarrow> jresponse list" where
  "expect pos pool [] = []"
| "expect pos pool (r # rs) =
     (case next_pooled new_jresponse pool of
        (r0, pool') \<Rightarrow>
          (let n = length (wire_body r) in
           (if pos mod body_buf + n \<le> body_buf then (decoded r0 r)\<lparr>js_Body := Some (wire_body r)\<rparr> else decoded r0 r)
             # expect (pos + n) pool' rs))"

lemma jresponse_Decode_Encode:
  assumes "jresponse_ok r"
  shows "jresponse_Decode r0 (fst (jresponse_Encode r) @ extra) = Inr (decoded r0 r, 20)"
    and "length (fst (jresponse_Encode r)) = 20"
proof -
  have "js_ContentLen r = word_of_nat (unat (js_ContentLen r))" by simp
  then have "js_ErrorCode r = 0 \<Longrightarrow> js_ContentLen r = word_of_nat (length (wire_body r))"
    using assms by (metis jresponse_ok_def)
  moreover have "js_ErrorCode r \<noteq> 0 \<Longrightarrow> wire_body r = js_ErrorMsg r"
    by (simp add: wire_body_def jresponse_Encode_def Let_def)
  ultimately show "jresponse_Decode r0 (fst (jresponse_Encode r) @ extra) = Inr (decoded r0 r, 20)"
    by (auto simp: jresponse_Decode_def jresponse_Encode_def Let_def decoded_def)
  show "length (fst (jresponse_Encode r)) = 20" by (simp add: jresponse_Encode_def Let_def)
qed

lemma parse_responses_ok:
  "list_all jresponse_ok rs \<Longrightarrow> 20 * length rs < 2 ^ 32 \<Longrightarrow>
     parse_responses (word_of_nat (20 * length rs)) (concat (map (\<lambda>r. fst (jresponse_Encode r)) rs) @ extra) pool
       = Inr (parsed pool rs)"
proof (induction rs arbitrary: pool)
  case Nil
  then show ?case by (simp add: parse_responses.simps)
next
  case (Cons r rs)
  obtain r0 pool' where p: "next_pooled new_jresponse pool = (r0, pool')" by (cases "next_pooled new_jresponse pool")
  let ?t = "concat (map (\<lambda>r. fst (jresponse_Encode r)) rs) @ extra"
  have ok: "jresponse_ok r" using Cons.prems(1) by simp
  have nz: "(word_of_nat (20 * length (r # rs)) :: u32) \<noteq> 0"
    by (rule word_of_nat_nonzero [OF _ Cons.prems(2)]) simp
  have left: "(word_of_nat (20 * length (r # rs)) :: u32) - word_of_nat 20 = word_of_nat (20 * length rs)" by simp
  have dr: "drop 20 (fst (jresponse_Encode r) @ ?t) = ?t" using jresponse_Decode_Encode(2) [OF ok] by simp
  have IH: "parse_responses (word_of_nat (20 * length rs)) ?t pool' = Inr (parsed pool' rs)"
    using Cons.IH [of pool'] Cons.prems by simp
  have "parse_responses (word_of_nat (20 * length (r # rs))) (fst (jresponse_Encode r) @ ?t) pool = Inr (decoded r0 r # parsed pool' rs)"
    unfolding parse_responses.simps [of "word_of_nat (20 * length (r # rs))" "fst (jresponse_Encode r) @ ?t" pool] p prod.case
      jresponse_Decode_Encode(1) [OF ok] sum.case dr left IH
    using nz by simp
  then show ?case using p by simp
qed

text \<open>The buffers hold the bodies in pieces of 4 MiB.\<close>

definition pieces :: "byte list \<Rightarrow> byte list list \<Rightarrow> bool" where
  "pieces S bufs \<longleftrightarrow> (\<forall>p < length S. p div body_buf < length bufs) \<and>
     (\<forall>i < length bufs. \<exists>junk. bufs ! i = take body_buf (drop (i * body_buf) S) @ junk)"

lemma body_buf_pos [simp]: "0 < body_buf"
  by (simp add: body_buf_def)

lemma fetch_bodies_ok:
  "concat ss = S @ rest \<Longrightarrow> \<exists>bufs ss'. fetch_bodies (length S) pool ss = (Inr bufs, ss') \<and> concat ss' = rest \<and> pieces S bufs"
proof (induction "length S" arbitrary: S pool ss rule: less_induct)
  case less
  show ?case
  proof (cases "S = []")
    case True
    then show ?thesis using less.prems by (simp add: fetch_bodies.simps [of 0] pieces_def)
  next
    case False
    let ?n = "min (length S) body_buf"
    obtain old pool' where p: "next_pooled (replicate body_buf 0) pool = (old, pool')"
      by (cases "next_pooled (replicate body_buf (0::byte)) pool")
    have "concat ss = take ?n S @ (drop ?n S @ rest)" using less.prems by (metis append_assoc append_take_drop_id)
    then obtain s1 where s1: "read_full ?n ss = (Inr (take ?n S), s1)" "concat s1 = drop ?n S @ rest"
      by (rule read_full_exact) simp
    have "length (drop ?n S) < length S" using False by (simp add: length_greater_0_conv [symmetric] del: length_greater_0_conv)
    from less.hyps [OF this s1(2), of pool'] obtain bufs ss' where
      b: "fetch_bodies (length (drop ?n S)) pool' s1 = (Inr bufs, ss')" "concat ss' = rest" "pieces (drop ?n S) bufs"
      by blast
    have eq: "fetch_bodies (length S) pool ss = (Inr ((take ?n S @ drop ?n old) # bufs), ss')"
      using False b(1) s1(1) by (simp add: fetch_bodies.simps [of "length S"] p Let_def)
    have "pieces S ((take ?n S @ drop ?n old) # bufs)"
      unfolding pieces_def
    proof (intro conjI allI impI)
      fix q assume q: "q < length S"
      show "q div body_buf < length ((take ?n S @ drop ?n old) # bufs)"
      proof (cases "q < body_buf")
        case False
        then have "(q - body_buf) div body_buf < length bufs" using b(3) q by (auto simp: pieces_def min_def split: if_splits)
        then show ?thesis using False by (simp add: le_div_geq)
      qed simp
    next
      fix i assume i: "i < length ((take ?n S @ drop ?n old) # bufs)"
      show "\<exists>junk. ((take ?n S @ drop ?n old) # bufs) ! i = take body_buf (drop (i * body_buf) S) @ junk"
      proof (cases i)
        case 0
        then show ?thesis by (simp add: min_def)
      next
        case (Suc j)
        then obtain junk where j: "bufs ! j = take body_buf (drop (j * body_buf) (drop ?n S)) @ junk"
          using b(3) i by (auto simp: pieces_def)
        have "drop (j * body_buf) (drop ?n S) = drop (i * body_buf) S"
          using Suc by (cases "length S \<le> body_buf") (simp_all add: add.commute)
        then show ?thesis using j Suc by auto
      qed
    qed
    then show ?thesis using eq b(2) by blast
  qed
qed

lemma sub_piece:
  assumes "pieces S bufs" "idx < length bufs" "off + n \<le> body_buf" "idx * body_buf + off + n \<le> length S"
  shows "sub off (off + n) (bufs ! idx) = sub (idx * body_buf + off) (idx * body_buf + off + n) S"
proof -
  define D where "D = drop (idx * body_buf) S"
  obtain junk where "bufs ! idx = take body_buf D @ junk"
    using assms(1,2) by (auto simp: pieces_def D_def)
  moreover have len: "off + n \<le> length D" using assms(4) by (simp add: D_def)
  have "take n (drop off (take body_buf D @ junk)) = take n (drop off D)"
    by (rule nth_equalityI) (use assms(3) len in \<open>auto simp: nth_append\<close>)
  ultimately show ?thesis by (simp add: sub_def D_def add.commute)
qed

lemma block_position: "x < n \<Longrightarrow> (q * n + x) mod n = x" "x < n \<Longrightarrow> (q * n + x) div n = q" for n :: nat
  by simp_all

lemma assign_bodies_ok:
  assumes "pieces (pre @ concat (map wire_body rs)) bufs" "list_all jresponse_ok rs"
  shows "assign_bodies bufs (length pre mod body_buf) (length pre div body_buf) (parsed pool rs)
     = Inr (expect (length pre) pool rs)"
  using assms
proof (induction rs arbitrary: pre pool)
  case (Cons r rs)
  let ?b = "wire_body r" and ?off = "length pre mod body_buf" and ?idx = "length pre div body_buf"
  let ?S = "pre @ concat (map wire_body (r # rs))"
  obtain r0 pool' where p: "next_pooled new_jresponse pool = (r0, pool')" by (cases "next_pooled new_jresponse pool")
  have b: "?b \<noteq> []" "length ?b \<le> body_buf" using Cons.prems(2) by (simp_all add: jresponse_ok_def)
  then have n: "unat (js_ContentLen (decoded r0 r)) = length ?b"
    by (simp add: decoded_def unat_of_nat body_buf_def)
  have IH: "assign_bodies bufs ((length pre + length ?b) mod body_buf) ((length pre + length ?b) div body_buf) (parsed pool' rs)
      = Inr (expect (length pre + length ?b) pool' rs)"
    using Cons.IH [of "pre @ ?b" pool'] Cons.prems by simp
  have pos: "?idx * body_buf + ?off = length pre" by simp
  have off: "?off < body_buf" by simp
  have "0 < length ?b" using b(1) by simp
  then have "length pre + (length ?b - 1) < length ?S" "length pre < length ?S" by (simp_all del: length_greater_0_conv)
  then have idx: "?idx < length bufs" "(length pre + (length ?b - 1)) div body_buf < length bufs"
    using Cons.prems(1) unfolding pieces_def by blast+
  show ?case
  proof (cases "?off + length ?b \<le> body_buf")
    case True
    have body: "sub ?off (?off + length ?b) (bufs ! ?idx) = ?b"
      using sub_piece [OF Cons.prems(1) idx(1) True] pos by (simp add: sub_def)
    have next_pos: "(if ?off + length ?b = body_buf then (0, ?idx + 1) else (?off + length ?b, ?idx))
        = ((length pre + length ?b) mod body_buf, (length pre + length ?b) div body_buf)"
    proof (cases "?off + length ?b = body_buf")
      case True
      have "length pre + length ?b = ?idx * body_buf + (?off + length ?b)" using pos by linarith
      then have "length pre + length ?b = (?idx + 1) * body_buf" unfolding True by simp
      then show ?thesis using True by simp
    next
      case False
      then have lt: "?off + length ?b < body_buf" using True by simp
      have e: "length pre + length ?b = ?idx * body_buf + (?off + length ?b)" using pos by linarith
      have "(length pre + length ?b) mod body_buf = ?off + length ?b" "(length pre + length ?b) div body_buf = ?idx"
        by (simp_all only: e block_position [OF lt])
      then show ?thesis using False by simp
    qed
    show ?thesis
      using IH True b(1) idx(1) body
      by (simp add: p n Let_def next_pos [unfolded Let_def] split del: if_split)
  next
    case False
    let ?k = "body_buf - ?off"
    define t where "t = length ?b - ?k"
    have sucidx: "(?idx + 1) * body_buf = ?idx * body_buf + body_buf" by simp
    have e: "length pre + length ?b = (?idx + 1) * body_buf + t"
      using pos off False unfolding sucidx t_def by linarith
    have lt: "t < body_buf" using b off unfolding t_def by linarith
    have m: "(length pre + length ?b) mod body_buf = t" "(length pre + length ?b) div body_buf = ?idx + 1"
      by (simp_all only: e block_position [OF lt])
    have t0: "0 < t" using False unfolding t_def by simp
    have e1: "length pre + (length ?b - 1) = (?idx + 1) * body_buf + (t - 1)"
      using e t0 \<open>0 < length ?b\<close> by linarith
    have lt1: "t - 1 < body_buf" using lt by simp
    have "(length pre + (length ?b - 1)) div body_buf = ?idx + 1"
      by (simp only: e1 block_position [OF lt1])
    then have "?idx + 1 < length bufs" using idx(2) by simp
    then show ?thesis
      using IH False b m lt by (simp add: p n Let_def t_def [symmetric])
  qed
qed simp

lemma recv_responses_ok:
  assumes "list_all jresponse_ok rs" "length rs \<le> 512" "sum_list (map (\<lambda>r. length (wire_body r)) rs) < 2 ^ 32"
    and "concat ss = flush_responses (map jresponse_Encode rs) @ rest"
  shows "\<exists>ss'. recv_responses arr pool bufs ss = (Inr (expect 0 pool rs), ss') \<and> concat ss' = rest"
proof -
  define N where "N = 20 * length rs"
  let ?heads = "concat (map (\<lambda>r. fst (jresponse_Encode r)) rs)" and ?bodies = "concat (map wire_body rs)"
  let ?d = "\<lparr>bh_Version = 1, bh_Cookie = 0, bh_HeadLength = word_of_nat (N), bh_ChkSum = 0, bh_Buf = replicate 64 0\<rparr>"
  have hl: "sum_list (map length (map fst (map jresponse_Encode rs))) = N"
    using assms(1) unfolding N_def by (induction rs) (simp_all add: jresponse_Decode_Encode(2))
  then have len: "length ?heads = N" by (simp add: length_concat comp_def)
  have bodies: "concat (map (\<lambda>b. case b of None \<Rightarrow> [] | Some bs \<Rightarrow> bs) (map (\<lambda>r. js_Body (snd r)) (map jresponse_Encode rs))) = ?bodies"
    by (simp add: wire_body_def [abs_def] comp_def)
  have ss: "concat ss = batch_Encode ?d @ (?heads @ ?bodies @ rest)"
    using assms(4) unfolding flush_responses_def batch_frame_def hl bodies by (simp add: comp_def)
  have small: "N < 2 ^ 32" "N \<le> response_array" using assms(2) by (simp_all add: response_array_def N_def)
  have un: "unat (word_of_nat (N) :: u32) = N" using small(1) by (simp add: unat_of_nat)
  obtain s1 where s1: "read_full 64 ss = (Inr (batch_Encode ?d), s1)" "concat s1 = ?heads @ ?bodies @ rest"
    by (rule read_full_exact [OF ss]) (simp_all add: batch_roundtrip(1))
  obtain s2 where s2: "read_full (N) s1 = (Inr ?heads, s2)" "concat s2 = ?bodies @ rest"
    by (rule read_full_exact [OF s1(2)]) (use len in simp_all)
  have dec: "batch_Decode \<lparr>bh_Version = 0, bh_Cookie = 0, bh_HeadLength = 0, bh_ChkSum = 0, bh_Buf = batch_Encode ?d\<rparr> (batch_Encode ?d)
      = Inr \<lparr>bh_Version = 1, bh_Cookie = 0, bh_HeadLength = word_of_nat (N), bh_ChkSum = 0, bh_Buf = batch_Encode ?d\<rparr>"
    by (subst batch_roundtrip(2)) simp_all
  have parse: "parse_responses (word_of_nat N) (?heads @ drop N arr) pool = Inr (parsed pool rs)"
    using parse_responses_ok [OF assms(1)] small(1) unfolding N_def by blast
  have lens: "sum_list (map (\<lambda>r. unat (js_ContentLen r)) (parsed pool rs)) = length ?bodies" for pool
    using assms(1)
    by (induction rs arbitrary: pool)
      (auto simp: decoded_def unat_of_nat jresponse_ok_def body_buf_def split: prod.splits)
  have "length ?bodies < 2 ^ 32" using assms(3) by (simp add: length_concat comp_def)
  then have total: "unat (word_of_nat (length ?bodies) :: u32) = length ?bodies" by (simp add: unat_of_nat)
  obtain bs s3 where bs: "fetch_bodies (length ?bodies) bufs s2 = (Inr bs, s3)" "concat s3 = rest" "pieces ?bodies bs"
    using fetch_bodies_ok [OF s2(2)] by blast
  have "assign_bodies bs 0 0 (parsed pool rs) = Inr (expect 0 pool rs)"
    using assign_bodies_ok [of "[]" rs bs pool] bs(3) assms(1) by simp
  then have "recv_responses arr pool bufs ss = (Inr (expect 0 pool rs), s3)"
    using small(2) by (simp add: recv_responses_def s1(1) dec un s2(1) parse lens total bs(1) Let_def)
  then show ?thesis using bs(2) by blast
qed

text \<open>
  C35. A batch of up to 512 responses with bodies of at most 4 MiB, together below 4 GiB, is received by
  the client, whatever the segmentation and the pools' old content, as the same responses in order; the
  body of each is the one sent unless it lies across a multiple of 4 MiB in the sequence of bodies, in
  which case the client is handed whatever body the pooled object last had, or none.
\<close>

theorem jnet_bodies_unless_straddling:
  assumes "list_all jresponse_ok rs" "length rs \<le> 512" "sum_list (map (\<lambda>r. length (wire_body r)) rs) < 2 ^ 32"
    and "concat ss = flush_responses (map jresponse_Encode rs) @ rest"
  shows "\<exists>ss'. recv_responses arr pool bufs ss = (Inr (expect 0 pool rs), ss') \<and> concat ss' = rest"
  using assms by (rule recv_responses_ok)

definition small_response :: jresponse where
  "small_response = new_jresponse\<lparr>js_BatchId := 7, js_Idx := 1, js_ContentLen := 2, js_Body := Some [10, 20]\<rparr>"

theorem jnet_bodies_unless_straddling_witness:
  "\<exists>ss'. recv_responses [] [] [] [flush_responses [jresponse_Encode small_response]] = (Inr [small_response], ss')
     \<and> concat ss' = []"
proof -
  have w: "wire_body small_response = [10, 20]"
    by (simp add: wire_body_def jresponse_Encode_def small_response_def new_jresponse_def Let_def)
  have ok: "list_all jresponse_ok [small_response]"
    by (simp add: jresponse_ok_def w) (simp add: small_response_def new_jresponse_def body_buf_def)
  have e: "expect 0 [] [small_response] = [small_response]"
    by (simp add: w Let_def decoded_def) (simp add: small_response_def new_jresponse_def body_buf_def)
  have "\<exists>ss'. recv_responses [] [] [] [flush_responses [jresponse_Encode small_response]]
      = (Inr (expect 0 [] [small_response]), ss') \<and> concat ss' = []"
    by (rule jnet_bodies_unless_straddling [OF ok]) (simp_all add: w)
  then show ?thesis by (simp only: e)
qed

section \<open>The calls of a batch\<close>

lemma complete_all_ok:
  assumes "jq_inflight q c = Some (ids, int (length ids) - int k)" "k + length rs \<le> length ids" "distinct ids"
    and "\<forall>r \<in> set rs. js_BatchId r = c \<and> unat (js_Idx r) < length ids \<and> \<not> jc_done (jq_calls q (ids ! unat (js_Idx r)))"
    and "distinct (map js_Idx rs)"
  shows "\<exists>q2. complete_all q rs = Inr q2 \<and> jq_nextCookie q2 = jq_nextCookie q \<and>
     (\<forall>r \<in> set rs. jq_calls q2 (ids ! unat (js_Idx r)) = \<lparr>jc_resp = Some r, jc_done = True\<rparr>) \<and>
     (\<forall>i. i \<notin> (\<lambda>r. ids ! unat (js_Idx r)) ` set rs \<longrightarrow> jq_calls q2 i = jq_calls q i) \<and>
     jq_inflight q2 = (if rs = [] then jq_inflight q else (jq_inflight q)(c :=
        if k + length rs = length ids then None else Some (ids, int (length ids) - int (k + length rs))))"
  using assms
proof (induction rs arbitrary: q k)
  case (Cons r rs)
  let ?i = "ids ! unat (js_Idx r)" and ?last = "k + 1 = length ids"
  have r: "js_BatchId r = c" "unat (js_Idx r) < length ids" "\<not> jc_done (jq_calls q ?i)" using Cons.prems(4) by auto
  define q1 where "q1 = q\<lparr>jq_inflight := (if ?last then (jq_inflight q)(c := None)
      else (jq_inflight q)(c \<mapsto> (ids, int (length ids) - int (k + 1)))),
    jq_calls := (jq_calls q)(?i := \<lparr>jc_resp = Some r, jc_done = True\<rparr>)\<rparr>"
  have "(int (length ids) - int k - 1 = 0) = ?last" by linarith
  then have step: "complete q r = Inr q1"
    using Cons.prems(1) r by (auto simp: complete_def q1_def Let_def diff_diff_eq add.commute)
  show ?case
  proof (cases "rs = []")
    case True
    then show ?thesis using step by (auto simp: q1_def fun_eq_iff)
  next
    case False
    then have nl: "\<not> ?last" using Cons.prems(2) by (cases rs) auto
    have sep: "ids ! unat (js_Idx s) \<noteq> ?i" if "s \<in> set rs" for s
    proof -
      have "js_Idx s \<noteq> js_Idx r" using Cons.prems(5) imageI [OF that, of js_Idx] by auto
      then have "unat (js_Idx s) \<noteq> unat (js_Idx r)" using unsigned_word_eqI by blast
      then show ?thesis using Cons.prems(3,4) that by (simp add: nth_eq_iff_index_eq)
    qed
    have i1: "jq_inflight q1 c = Some (ids, int (length ids) - int (k + 1))" using nl by (simp add: q1_def)
    have c1: "\<forall>s \<in> set rs. js_BatchId s = c \<and> unat (js_Idx s) < length ids \<and> \<not> jc_done (jq_calls q1 (ids ! unat (js_Idx s)))"
      using Cons.prems(4) sep by (simp add: q1_def)
    have le: "k + 1 + length rs \<le> length ids" and d: "distinct (map js_Idx rs)" using Cons.prems(2,5) by simp_all
    obtain q2 where q2: "complete_all q1 rs = Inr q2" "jq_nextCookie q2 = jq_nextCookie q1"
      "\<forall>s \<in> set rs. jq_calls q2 (ids ! unat (js_Idx s)) = \<lparr>jc_resp = Some s, jc_done = True\<rparr>"
      "\<forall>i. i \<notin> (\<lambda>r. ids ! unat (js_Idx r)) ` set rs \<longrightarrow> jq_calls q2 i = jq_calls q1 i"
      "jq_inflight q2 = (jq_inflight q1)(c := if k + 1 + length rs = length ids then None
         else Some (ids, int (length ids) - int (k + 1 + length rs)))"
      using Cons.IH [OF i1 le Cons.prems(3) c1 d] unfolding if_not_P [OF False] by blast
    have "?i \<notin> (\<lambda>r. ids ! unat (js_Idx r)) ` set rs" using sep by force
    then have own: "jq_calls q2 ?i = \<lparr>jc_resp = Some r, jc_done = True\<rparr>" using q2(4) by (simp add: q1_def)
    show ?thesis
    proof (rule exI [of _ q2], intro conjI)
      show "complete_all q (r # rs) = Inr q2" using step q2(1) by simp
      show "jq_nextCookie q2 = jq_nextCookie q" using q2(2) by (simp add: q1_def)
      show "\<forall>s \<in> set (r # rs). jq_calls q2 (ids ! unat (js_Idx s)) = \<lparr>jc_resp = Some s, jc_done = True\<rparr>"
        using own q2(3) by simp
      show "\<forall>i. i \<notin> (\<lambda>r. ids ! unat (js_Idx r)) ` set (r # rs) \<longrightarrow> jq_calls q2 i = jq_calls q i"
        using q2(4) by (simp add: q1_def)
      show "jq_inflight q2 = (if r # rs = [] then jq_inflight q else (jq_inflight q)(c :=
          if k + length (r # rs) = length ids then None else Some (ids, int (length ids) - int (k + length (r # rs)))))"
        using q2(5) nl by (simp add: q1_def)
    qed
  qed
qed simp

lemma complete_registered:
  assumes "register_batch q ids = (c, q1)" "distinct ids" "\<forall>i \<in> set ids. \<not> jc_done (jq_calls q i)"
    and "rs \<noteq> []" "\<forall>r \<in> set rs. js_BatchId r = c \<and> unat (js_Idx r) < length ids" "distinct (map js_Idx rs)"
  shows "\<exists>q2. complete_all q1 rs = Inr q2 \<and>
     (\<forall>r \<in> set rs. jq_calls q2 (ids ! unat (js_Idx r)) = \<lparr>jc_resp = Some r, jc_done = True\<rparr>) \<and>
     (\<forall>i. i \<notin> (\<lambda>r. ids ! unat (js_Idx r)) ` set rs \<longrightarrow> jq_calls q2 i = jq_calls q i) \<and>
     jq_inflight q2 = (jq_inflight q)(c :=
        if length rs = length ids then None else Some (ids, int (length ids) - int (length rs)))"
proof -
  have q1: "c = jq_nextCookie q" "jq_inflight q1 = (jq_inflight q)(c \<mapsto> (ids, int (length ids)))" "jq_calls q1 = jq_calls q"
    using assms(1) by (auto simp: register_batch_def)
  have "(\<lambda>r. unat (js_Idx r)) ` set rs \<subseteq> {..<length ids}" using assms(5) by auto
  moreover have "card ((\<lambda>r. unat (js_Idx r)) ` set rs) = length rs"
  proof -
    have "inj_on unat A" for A :: "u32 set" by (rule inj_onI) (rule unsigned_word_eqI)
    then have "distinct (map unat (map js_Idx rs))" using assms(6) distinct_map by blast
    then have "card (set (map unat (map js_Idx rs))) = length rs" using distinct_card by fastforce
    then show ?thesis by (simp add: image_image)
  qed
  ultimately have le: "length rs \<le> length ids" by (metis card_lessThan card_mono finite_lessThan)
  have i: "jq_inflight q1 c = Some (ids, int (length ids) - int 0)" by (simp add: q1)
  have le0: "0 + length rs \<le> length ids" using le by simp
  have nd: "\<forall>r \<in> set rs. js_BatchId r = c \<and> unat (js_Idx r) < length ids \<and> \<not> jc_done (jq_calls q1 (ids ! unat (js_Idx r)))"
    using assms(3,5) by (simp add: q1(3))
  show ?thesis
    using complete_all_ok [OF i le0 assms(2) nd assms(6)]
    unfolding if_not_P [OF assms(4)] q1(2,3) fun_upd_upd add_0 by blast
qed

text \<open>
  After a batch of calls is registered under the next cookie, its responses may arrive in any order:
  as long as each carries the cookie and an index of its own, no channel is closed twice, every response
  completes exactly the call at its index, every other call and batch is left alone, and the batch is
  forgotten when its last response arrives and not before.
\<close>

theorem jnet_calls_complete_once:
  assumes "register_batch q ids = (c, q1)" "distinct ids" "\<forall>i \<in> set ids. \<not> jc_done (jq_calls q i)"
    and "rs \<noteq> []" "\<forall>r \<in> set rs. js_BatchId r = c \<and> unat (js_Idx r) < length ids" "distinct (map js_Idx rs)"
  shows "\<exists>q2. complete_all q1 rs = Inr q2 \<and>
     (\<forall>r \<in> set rs. jq_calls q2 (ids ! unat (js_Idx r)) = \<lparr>jc_resp = Some r, jc_done = True\<rparr>) \<and>
     (\<forall>i. i \<notin> (\<lambda>r. ids ! unat (js_Idx r)) ` set rs \<longrightarrow> jq_calls q2 i = jq_calls q i) \<and>
     jq_inflight q2 = (jq_inflight q)(c :=
        if length rs = length ids then None else Some (ids, int (length ids) - int (length rs)))"
  using assms by (rule complete_registered)

theorem jnet_calls_complete_once_witness:
  "\<exists>q1 q2. register_batch \<lparr>jq_nextCookie = 7, jq_inflight = Map.empty, jq_calls = (\<lambda>i. \<lparr>jc_resp = None, jc_done = False\<rparr>)\<rparr> [4, 9] = (7, q1) \<and>
     complete_all q1 [small_response, small_response\<lparr>js_Idx := 0\<rparr>] = Inr q2 \<and>
     jc_resp (jq_calls q2 9) = Some small_response \<and> \<not> jc_done (jq_calls q2 5) \<and> jq_inflight q2 7 = None"
proof -
  let ?q = "\<lparr>jq_nextCookie = 7, jq_inflight = Map.empty, jq_calls = (\<lambda>i. \<lparr>jc_resp = None, jc_done = False\<rparr>)\<rparr>"
  obtain q1 where q1: "register_batch ?q [4, 9] = (7, q1)" by (simp add: register_batch_def)
  have b: "js_BatchId small_response = 7" "js_Idx small_response = 1" by (simp_all add: small_response_def)
  have "\<exists>q2. complete_all q1 [small_response, small_response\<lparr>js_Idx := 0\<rparr>] = Inr q2 \<and>
     (\<forall>r \<in> set [small_response, small_response\<lparr>js_Idx := 0\<rparr>]. jq_calls q2 ([4, 9] ! unat (js_Idx r)) = \<lparr>jc_resp = Some r, jc_done = True\<rparr>) \<and>
     (\<forall>i. i \<notin> (\<lambda>r. [4, 9] ! unat (js_Idx r)) ` set [small_response, small_response\<lparr>js_Idx := 0\<rparr>] \<longrightarrow> jq_calls q2 i = jq_calls ?q i) \<and>
     jq_inflight q2 = (jq_inflight ?q)(7 :=
        if length [small_response, small_response\<lparr>js_Idx := 0\<rparr>] = length [4, 9::nat] then None
        else Some ([4, 9], int (length [4, 9::nat]) - int (length [small_response, small_response\<lparr>js_Idx := 0\<rparr>])))"
    by (rule jnet_calls_complete_once [OF q1]) (simp_all add: b)
  then show ?thesis using q1 by (auto simp: b)
qed

definition command_key :: "byte \<Rightarrow> string" where
  "command_key c = (if c = 0 then ''key0'' else if c = 1 then ''key1'' else if c = 2 then ''key2'' else if c = 3 then ''key3'' else ''key4'')"

lemma processRequest_block:
  assumes "jr_CMD req < 5"
  shows "processRequest dg r0 (c, i, req) = (case dg_Get dg (command_key (jr_CMD req)) of Inl e \<Rightarrow> Inl e
      | Inr b \<Rightarrow> Inr (jresponse_Encode (r0\<lparr>js_Idx := word_of_nat i, js_BatchId := c,
          js_ContentLen := word_of_nat (length b), js_Body := Some b\<rparr>)))"
proof -
  have "jr_CMD req \<in> {0, 1, 2, 3, 4}"
  proof -
    have "unat (jr_CMD req) < 5" using assms by (simp add: word_less_nat_alt)
    then have "unat (jr_CMD req) \<in> {0, 1, 2, 3, 4}" by auto
    then have "\<exists>n. jr_CMD req = word_of_nat n \<and> n \<in> {0, 1, 2, 3, 4}"
      by (intro exI [of _ "unat (jr_CMD req)"]) (simp del: insert_iff)
    then show ?thesis by auto
  qed
  then show ?thesis
    by (elim insertE emptyE) (simp_all add: processRequest_def command_key_def Let_def split: sum.split)
qed

text \<open>
  A response object that went back to the pool with an error keeps it: whatever the next request
  that uses it asks for, it is answered with the old error, its message in place of the data. With a clean
  object a command below 5 is answered with the stored block and no error.
\<close>

theorem jnet_error_sticks:
  assumes "processRequest dg r0 (c, i, req) = Inr (head, resp)" "jr_CMD req < 5"
  shows "(js_ErrorCode r0 \<noteq> 0 \<longrightarrow> be_u32 (drop 12 head) = js_ErrorCode r0 \<and> js_Body resp = Some (js_ErrorMsg r0)) \<and>
     (js_ErrorCode r0 = 0 \<longrightarrow> be_u32 (drop 12 head) = 0 \<and>
        (\<exists>b. dg_Get dg (command_key (jr_CMD req)) = Inr b \<and> js_Body resp = Some b))"
proof -
  note p = processRequest_block [OF assms(2), of dg r0 c i]
  obtain b where b: "dg_Get dg (command_key (jr_CMD req)) = Inr b" using assms(1) p by (cases "dg_Get dg (command_key (jr_CMD req))") auto
  show ?thesis
    using assms(1) unfolding p b by (cases "js_ErrorCode r0 = 0") (auto simp: jresponse_Encode_def)
qed

theorem jnet_error_sticks_witness:
  "\<exists>h1 r1 h2 r2. processRequest \<lparr>dg_Get = (\<lambda>k. Inr [10, 20]), dg_GetReadCloser = undefined, dg_GetSize = undefined\<rparr>
       new_jresponse (7, 0, new_jrequest\<lparr>jr_CMD := 9\<rparr>) = Inr (h1, r1) \<and>
     processRequest \<lparr>dg_Get = (\<lambda>k. Inr [10, 20]), dg_GetReadCloser = undefined, dg_GetSize = undefined\<rparr>
       r1 (8, 0, new_jrequest\<lparr>jr_CMD := 2\<rparr>) = Inr (h2, r2) \<and>
     be_u32 (drop 12 h2) = 1 \<and> js_Body r2 = Some (bytes_of ''invalid command'')"
proof -
  define dg where "dg = \<lparr>dg_Get = (\<lambda>k. Inr [10, 20 :: byte]), dg_GetReadCloser = undefined, dg_GetSize = undefined\<rparr>"
  obtain h1 r1 where 1: "processRequest dg new_jresponse (7, 0, new_jrequest\<lparr>jr_CMD := 9\<rparr>) = Inr (h1, r1)"
      "js_ErrorCode r1 = 1" "js_ErrorMsg r1 = bytes_of ''invalid command''"
    by (simp add: processRequest_def new_jresponse_def new_jrequest_def jresponse_Encode_def Let_def)
  have "processRequest dg r1 (8, 0, new_jrequest\<lparr>jr_CMD := 2\<rparr>)
      = Inr (jresponse_Encode (r1\<lparr>js_Idx := 0, js_BatchId := 8, js_ContentLen := 2, js_Body := Some [10, 20]\<rparr>))"
    by (simp add: processRequest_def new_jrequest_def dg_def)
  then obtain h2 r2 where 2: "processRequest dg r1 (8, 0, new_jrequest\<lparr>jr_CMD := 2\<rparr>) = Inr (h2, r2)"
    by (metis surj_pair)
  then show ?thesis
    using jnet_error_sticks [OF 2] 1 unfolding dg_def by (auto simp: new_jrequest_def)
qed

end
