(* ===== verification/Jnet_Serve.thy ===== *)
theory Jnet_Serve
  imports Jnet "HOL-Library.Multiset"
begin

text \<open>
  A batch of \<open>jnet\<close> calls from end to end: the client registers and flushes it, the server receives it and
  its workers handle the requests in any order with pooled response objects, the responses travel in one
  or several frames, and the client's receive worker completes the calls.
\<close>

section \<open>The client's receive worker, frame by frame\<close>

text \<open>
  The loop of \<open>recvWorker\<close> for the next \<open>n\<close> frames; \<open>pools\<close> gives for each the old content of the header
  array and what the pools of response objects and body buffers hand out.
\<close>

fun recvWorker :: "nat \<Rightarrow> (nat \<Rightarrow> byte list \<times> jresponse list \<times> byte list list) \<Rightarrow> jqueue \<Rightarrow> stream \<Rightarrow>
    go_error + jqueue \<times> stream" where
  "recvWorker 0 pools q ss = Inr (q, ss)"
| "recvWorker (Suc n) pools q ss =
     (case pools n of
        (arr, pool, bufs) \<Rightarrow>
          (case recv_responses arr pool bufs ss of
             (Inl e, ss') \<Rightarrow> Inl e
           | (Inr rs, ss') \<Rightarrow>
               (case complete_all q rs of
                  Inl e \<Rightarrow> Inl e
                | Inr q' \<Rightarrow> recvWorker n pools q' ss')))"

lemma complete_all_append:
  "complete_all q (xs @ ys) = (case complete_all q xs of Inl e \<Rightarrow> Inl e | Inr q' \<Rightarrow> complete_all q' ys)"
  by (induction xs arbitrary: q) (auto split: sum.splits)

text \<open>What the client has for a response whose body does not cross two buffers.\<close>

definition delivered :: "jresponse \<Rightarrow> jresponse \<Rightarrow> bool" where
  "delivered r g \<longleftrightarrow> js_Idx g = js_Idx r \<and> js_BatchId g = js_BatchId r \<and> js_ErrorCode g = js_ErrorCode r
     \<and> js_Body g = Some (wire_body r)"

lemma expect_delivers:
  "n dvd body_buf \<Longrightarrow> n dvd pos \<Longrightarrow> \<forall>r \<in> set rs. length (wire_body r) = n \<Longrightarrow>
     list_all2 delivered rs (expect pos pool rs)"
proof (induction rs arbitrary: pos pool)
  case (Cons r rs)
  have "pos mod body_buf + n \<le> body_buf"
  proof (cases "n = 0")
    case False
    obtain k where k: "body_buf = n * k" using Cons.prems(1) by blast
    have "n dvd pos mod body_buf" using Cons.prems(1,2) by (simp add: dvd_mod)
    then obtain j where j: "pos mod body_buf = n * j" by blast
    have "n * j < n * k" using j k mod_less_divisor [of body_buf pos] by (simp add: body_buf_def)
    then have "n * (j + 1) \<le> n * k" by (intro mult_le_mono2) simp
    then show ?thesis using j k by simp
  qed (simp add: body_buf_def less_imp_le)
  then show ?case using Cons by (auto simp: delivered_def decoded_def Let_def split: prod.splits)
qed simp

lemma recvWorker_frames:
  assumes "\<forall>f \<in> set frames. list_all jresponse_ok f \<and> length f \<le> 512 \<and> length f * n < 2 ^ 32"
    and "n dvd body_buf" "\<forall>r \<in> set (concat frames). length (wire_body r) = n"
    and "concat ss = concat (map (\<lambda>f. flush_responses (map jresponse_Encode f)) frames) @ rest"
  shows "\<exists>got ss'. concat ss' = rest \<and> list_all2 delivered (concat frames) got \<and>
     (\<forall>q. recvWorker (length frames) pools q ss =
        (case complete_all q got of Inl e \<Rightarrow> Inl e | Inr q' \<Rightarrow> Inr (q', ss')))"
  using assms(1,3,4)
proof (induction frames arbitrary: ss)
  case Nil
  then show ?case by (intro exI [of _ "[]"] exI [of _ ss]) simp
next
  case (Cons f frames)
  obtain arr pool bufs where p: "pools (length frames) = (arr, pool, bufs)" by (cases "pools (length frames)")
  have "map (\<lambda>r. length (wire_body r)) f = replicate (length f) n" using Cons.prems(2) by (simp add: map_replicate_const [symmetric])
  then have "sum_list (map (\<lambda>r. length (wire_body r)) f) < 2 ^ 32" using Cons.prems(1) by (simp add: sum_list_replicate)
  then obtain s1 where s1: "recv_responses arr pool bufs ss = (Inr (expect 0 pool f), s1)"
      "concat s1 = concat (map (\<lambda>f. flush_responses (map jresponse_Encode f)) frames) @ rest"
    using recv_responses_ok [of f ss _ arr pool bufs] Cons.prems(1,3) by auto
  obtain got ss' where g: "concat ss' = rest" "list_all2 delivered (concat frames) got"
      "\<And>q. recvWorker (length frames) pools q s1 = (case complete_all q got of Inl e \<Rightarrow> Inl e | Inr q' \<Rightarrow> Inr (q', ss'))"
    using Cons.IH [OF _ _ s1(2)] Cons.prems(1,2) by auto
  have "list_all2 delivered f (expect 0 pool f)" using Cons.prems(2) by (intro expect_delivers [OF assms(2)]) auto
  then show ?case
    using g by (intro exI [of _ "expect 0 pool f @ got"] exI [of _ ss'])
      (auto simp: p s1(1) complete_all_append list_all2_appendI split: sum.splits)
qed

section \<open>The server's answers\<close>

text \<open>The response object for a request of the batch, in an object without an old error.\<close>

definition served :: "byte list \<Rightarrow> u64 \<times> nat \<times> jrequest \<Rightarrow> jresponse \<Rightarrow> jresponse" where
  "served b q r0 = (case q of (c, i, req) \<Rightarrow>
     r0\<lparr>js_Idx := word_of_nat i, js_BatchId := c, js_ContentLen := word_of_nat (length b), js_Body := Some b\<rparr>)"

definition block_ok :: "byte list \<Rightarrow> bool" where
  "block_ok b \<longleftrightarrow> b \<noteq> [] \<and> length b \<le> body_buf \<and> length b dvd body_buf"

lemma served_response:
  assumes "block_ok b" "js_ErrorCode r0 = 0"
  shows "wire_body (served b q r0) = b" "jresponse_ok (served b q r0)"
proof -
  have "length b < 2 ^ 32" using assms(1) by (simp add: block_ok_def body_buf_def)
  then show "wire_body (served b q r0) = b" "jresponse_ok (served b q r0)"
    using assms by (auto simp: served_def wire_body_def jresponse_ok_def jresponse_Encode_def block_ok_def unat_of_nat
        split: prod.splits)
qed

text \<open>The workers take the received requests in some order, each with some clean pooled object.\<close>

definition handled :: "data_gen \<Rightarrow> (u64 \<times> nat \<times> jrequest) list \<Rightarrow> jresponse list \<Rightarrow> (byte list \<times> jresponse) list \<Rightarrow> bool" where
  "handled dg batch objects outs \<longleftrightarrow>
     (\<exists>order. mset order = mset batch \<and> length objects = length order \<and> list_all (\<lambda>r. js_ErrorCode r = 0) objects
        \<and> map2 (processRequest dg) objects order = map Inr outs)"

lemma handled_served:
  assumes "handled dg batch objects outs" "\<forall>(c, i, req) \<in> set batch. jr_CMD req < 5 \<and> dg_Get dg (command_key (jr_CMD req)) = Inr b"
    and "block_ok b"
  shows "\<exists>rs. outs = map jresponse_Encode rs \<and> list_all jresponse_ok rs \<and> (\<forall>r \<in> set rs. wire_body r = b \<and> js_ErrorCode r = 0)
     \<and> mset (map (\<lambda>r. (js_BatchId r, js_Idx r)) rs) = mset (map (\<lambda>(c, i, req). (c, word_of_nat i)) batch)"
proof -
  obtain order where o: "mset order = mset batch" "length objects = length order" "list_all (\<lambda>r. js_ErrorCode r = 0) objects"
      "map2 (processRequest dg) objects order = map Inr outs"
    using assms(1) by (auto simp: handled_def)
  have set: "set order = set batch" using o(1) by (rule mset_eq_setD)
  define rs where "rs = map2 (\<lambda>r0 q. served b q r0) objects order"
  have p: "processRequest dg r0 q = Inr (jresponse_Encode (served b q r0))" if "q \<in> set order" for r0 q
  proof -
    obtain c i req where q: "q = (c, i, req)" by (cases q)
    then have "jr_CMD req < 5" "dg_Get dg (command_key (jr_CMD req)) = Inr b" using that assms(2) set by auto
    then show ?thesis using processRequest_block [of req dg r0 c i] by (simp add: q served_def)
  qed
  have "map2 (processRequest dg) objects order = map2 (\<lambda>r0 q. Inr (jresponse_Encode (served b q r0))) objects order"
    using p by (intro map_cong refl) (auto dest: set_zip_rightD)
  then have "map (Inr :: _ \<Rightarrow> go_error + _) outs = map Inr (map jresponse_Encode rs)" unfolding o(4) rs_def by (simp add: comp_def case_prod_unfold)
  then have outs: "outs = map jresponse_Encode rs" by (rule map_injective) (simp add: inj_def)
  have sv: "\<exists>r0 q. r = served b q r0 \<and> js_ErrorCode r0 = 0" if "r \<in> set rs" for r
    using that o(3) unfolding rs_def list_all_iff by (force dest: set_zip_leftD)
  have "map (\<lambda>r. (js_BatchId r, js_Idx r)) rs = map (\<lambda>(c, i, req). (c, word_of_nat i)) order"
    using o(2) unfolding rs_def by (induction objects order rule: list_induct2) (auto simp: served_def split: prod.splits)
  then have m: "mset (map (\<lambda>r. (js_BatchId r, js_Idx r)) rs) = mset (map (\<lambda>(c, i, req). (c, word_of_nat i)) batch)"
    using o(1) by simp
  have "list_all jresponse_ok rs" "\<forall>r \<in> set rs. wire_body r = b \<and> js_ErrorCode r = 0"
    using sv served_response [OF assms(3)] by (force simp: list_all_iff served_def split: prod.splits)+
  then show ?thesis using outs m by blast
qed

section \<open>From the callers and back\<close>

lemma concat_map_split: "concat fs = map f xs \<Longrightarrow> \<exists>gs. concat gs = xs \<and> fs = map (map f) gs"
proof (induction fs arbitrary: xs)
  case Nil
  then show ?case by (intro exI [of _ "[]"]) simp
next
  case (Cons x fs)
  then obtain us vs where u: "xs = us @ vs" "x = map f us" "concat fs = map f vs"
    by (auto simp: map_eq_append_conv append_eq_map_conv)
  then obtain gs where "concat gs = vs" "fs = map (map f) gs" using Cons.IH by blast
  then show ?case using u by (intro exI [of _ "us # gs"]) simp
qed

text \<open>The identities of the responses, from those of the batch.\<close>

lemma identities:
  assumes "mset (map (\<lambda>r. (js_BatchId r, js_Idx r)) rs) = mset (map (\<lambda>(c, i, req). (c, word_of_nat i)) (map (\<lambda>(i, r). (cookie, i, r)) (enumerate 0 os)))"
    and "length os = n" "n \<le> 64"
  shows "\<forall>r \<in> set rs. js_BatchId r = cookie \<and> unat (js_Idx r) < n" "distinct (map js_Idx rs)" "length rs = n"
    and "\<forall>j < n. \<exists>r \<in> set rs. unat (js_Idx r) = j"
proof -
  have "map (\<lambda>(c, i, req). (c, word_of_nat i)) (map (\<lambda>(i, r). (cookie, i, r)) (enumerate 0 os))
      = map (\<lambda>i. (cookie, word_of_nat i :: u32)) [0..<n]"
    using assms(2) by (simp add: list_eq_iff_nth_eq nth_enumerate_eq)
  then have m: "mset (map (\<lambda>r. (js_BatchId r, js_Idx r)) rs) = mset (map (\<lambda>i. (cookie, word_of_nat i)) [0..<n])"
    using assms(1) by simp
  have un: "unat (word_of_nat i :: u32) = i" if "i < n" for i using that assms(3) by (simp add: unat_of_nat take_bit_nat_eq_self)
  have "set (map (\<lambda>r. (js_BatchId r, js_Idx r)) rs) = (\<lambda>i. (cookie, word_of_nat i)) ` {0..<n}"
    using mset_eq_setD [OF m] by simp
  then have s: "(\<lambda>r. (js_BatchId r, js_Idx r)) ` set rs = (\<lambda>i. (cookie, word_of_nat i)) ` {0..<n}" by simp
  show "\<forall>r \<in> set rs. js_BatchId r = cookie \<and> unat (js_Idx r) < n"
  proof
    fix r assume "r \<in> set rs"
    then have "(js_BatchId r, js_Idx r) \<in> (\<lambda>i. (cookie, word_of_nat i)) ` {0..<n}" unfolding s [symmetric] by (rule imageI)
    then show "js_BatchId r = cookie \<and> unat (js_Idx r) < n" using un by auto
  qed
  show "\<forall>j < n. \<exists>r \<in> set rs. unat (js_Idx r) = j"
  proof (intro allI impI)
    fix j assume j: "j < n"
    then have "(cookie, word_of_nat j) \<in> (\<lambda>r. (js_BatchId r, js_Idx r)) ` set rs" unfolding s by simp
    then show "\<exists>r \<in> set rs. unat (js_Idx r) = j" using un [OF j] by auto
  qed
  have "image_mset snd (mset (map (\<lambda>r. (js_BatchId r, js_Idx r)) rs)) = image_mset snd (mset (map (\<lambda>i. (cookie, word_of_nat i :: u32)) [0..<n]))"
    by (simp only: m)
  then have mi: "mset (map js_Idx rs) = mset (map word_of_nat [0..<n])"
    by (simp only: mset_map [symmetric] map_map comp_def snd_conv)
  have "inj_on (word_of_nat :: nat \<Rightarrow> u32) {0..<n}" using un by (intro inj_on_inverseI [where g = unat]) simp
  then have "distinct (map (word_of_nat :: nat \<Rightarrow> u32) [0..<n])" by (simp add: distinct_map)
  then show "distinct (map js_Idx rs)" using mset_eq_imp_distinct_iff [OF mi] by simp
  show "length rs = n" using mset_eq_length [OF mi] by simp
qed

text \<open>
  C15. A batch of up to 64 calls for one block, whose size divides 4 MiB as all five do, is served: the
  server receives its requests from any segmentation; in whatever order its workers handle them, with
  whatever clean objects from the pool, and however the responses are cut into frames, the client's receive
  worker completes every call with exactly the block and no error, forgets the batch, and leaves the rest
  of both streams untouched.
\<close>

theorem jnet_batch_served:
  assumes reg: "register_batch q ids = (cookie, q1)" "distinct ids" "\<forall>i \<in> set ids. \<not> jc_done (jq_calls q i)"
    and ids: "ids \<noteq> []" "length ids \<le> 64" "length reqs = length ids"
    and reqs: "list_all jrequest_ok reqs" "sum_list (map (\<lambda>r. length (jrequest_Encode r)) reqs) \<le> header_array"
      "\<forall>r \<in> set reqs. jr_CMD r AND 0xF = cmd \<and> cmd < 5"
    and dg: "dg_Get dg (command_key cmd) = Inr b" "block_ok b"
    and ss: "concat ss = flush_requests cookie reqs @ rest"
  shows "\<exists>batch arr' ss'. recv_batch arr pool ss = (Inr batch, arr', ss') \<and> concat ss' = rest \<and>
    (\<forall>objects frames ss2 rest2 pools.
       handled dg batch objects (concat frames) \<and> concat ss2 = concat (map flush_responses frames) @ rest2 \<longrightarrow>
       (\<exists>q2 ss3. recvWorker (length frames) pools q1 ss2 = Inr (q2, ss3) \<and> concat ss3 = rest2
          \<and> jq_inflight q2 = (jq_inflight q)(cookie := None)
          \<and> (\<forall>i \<in> set ids. \<exists>r. jq_calls q2 i = \<lparr>jc_resp = Some r, jc_done = True\<rparr> \<and> jnet_Get_result r = Inr (b, None))))"
proof -
  obtain os arr' ss' where os: "recv_batch arr pool ss = (Inr (map (\<lambda>(i, r). (cookie, i, r)) (enumerate 0 os)), arr', ss')"
      "list_all2 same_request reqs os" "concat ss' = rest"
    using recv_batch_ok [OF reqs(1,2) ss] by blast
  let ?batch = "map (\<lambda>(i, r). (cookie, i, r)) (enumerate 0 os)" and ?n = "length ids"
  have n: "length os = ?n" using os(2) ids(3) by (simp add: list_all2_lengthD [symmetric])
  have cmds: "\<forall>(c, i, req) \<in> set ?batch. jr_CMD req < 5 \<and> dg_Get dg (command_key (jr_CMD req)) = Inr b"
  proof -
    have "jr_CMD req = cmd" if "req \<in> set os" for req
    proof -
      obtain r where "r \<in> set reqs" "same_request r req"
        using os(2) \<open>req \<in> set os\<close> by (metis in_set_conv_nth list_all2_conv_all_nth)
      then show ?thesis using reqs(3) by (simp add: same_request_def)
    qed
    moreover have "cmd < 5" using reqs(3) ids(1,3) by (cases reqs) auto
    ultimately show ?thesis using dg(1) by (auto simp: in_set_enumerate_eq)
  qed
  show ?thesis
  proof (rule exI [of _ ?batch], rule exI [of _ arr'], rule exI [of _ ss'], intro conjI os(1,3) allI impI, elim conjE)
    fix objects frames ss2 rest2 pools
    assume h: "handled dg ?batch objects (concat frames)" and s2: "concat ss2 = concat (map flush_responses frames) @ rest2"
    obtain rs where rs: "concat frames = map jresponse_Encode rs" "list_all jresponse_ok rs"
        "\<forall>r \<in> set rs. wire_body r = b \<and> js_ErrorCode r = 0"
        "mset (map (\<lambda>r. (js_BatchId r, js_Idx r)) rs) = mset (map (\<lambda>(c, i, req). (c, word_of_nat i)) ?batch)"
      using handled_served [OF h cmds dg(2)] by blast
    note id = identities [OF rs(4) n ids(2)]
    obtain fs where fs: "concat fs = rs" "frames = map (map jresponse_Encode) fs" using concat_map_split [OF rs(1)] by blast
    have "list_all jresponse_ok f \<and> length f \<le> 512 \<and> length f * length b < 2 ^ 32" if "f \<in> set fs" for f
    proof -
      have sub: "set f \<subseteq> set rs" "length f \<le> 64"
        using that fs(1) id(3) ids(2) member_le_sum_list [of "length f" "map length fs"] by (auto simp: length_concat)
      have "length b \<le> 4194304" using dg(2) by (simp add: block_ok_def body_buf_def)
      then have "length f * length b \<le> 64 * 4194304" using sub(2) by (rule mult_le_mono [rotated])
      then show ?thesis using sub rs(2) by (auto simp: list_all_iff)
    qed
    moreover have "concat ss2 = concat (map (\<lambda>f. flush_responses (map jresponse_Encode f)) fs) @ rest2"
      using s2 by (simp add: fs(2) comp_def)
    ultimately obtain got ss3 where g: "concat ss3 = rest2" "list_all2 delivered rs got"
        "\<And>q. recvWorker (length fs) pools q ss2 = (case complete_all q got of Inl e \<Rightarrow> Inl e | Inr q' \<Rightarrow> Inr (q', ss3))"
      using recvWorker_frames [of fs "length b" ss2 rest2 pools] dg(2) rs(3) fs(1) by (auto simp: block_ok_def)
    have same: "map (\<lambda>r. (js_BatchId r, js_Idx r)) got = map (\<lambda>r. (js_BatchId r, js_Idx r)) rs"
      using g(2) by (induction rs got rule: list_all2_induct) (simp_all add: delivered_def)
    have body: "\<forall>r \<in> set got. js_Body r = Some b \<and> js_ErrorCode r = 0"
      using g(2) rs(3) by (induction rs got rule: list_all2_induct) (auto simp: delivered_def)
    note gid = identities [OF rs(4) [folded same] n ids(2)]
    have "got \<noteq> []" using gid(3) ids(1) by auto
    then obtain q2 where q2: "complete_all q1 got = Inr q2"
        "\<forall>r \<in> set got. jq_calls q2 (ids ! unat (js_Idx r)) = \<lparr>jc_resp = Some r, jc_done = True\<rparr>"
        "jq_inflight q2 = (jq_inflight q)(cookie := None)"
      using complete_registered [OF reg _ gid(1,2)] gid(3) by auto
    have "\<exists>r. jq_calls q2 i = \<lparr>jc_resp = Some r, jc_done = True\<rparr> \<and> jnet_Get_result r = Inr (b, None)" if "i \<in> set ids" for i
    proof -
      obtain j where j: "i = ids ! j" "j < ?n" using \<open>i \<in> set ids\<close> by (auto simp: in_set_conv_nth)
      then obtain r where "r \<in> set got" "unat (js_Idx r) = j" using gid(4) by blast
      then show ?thesis using q2(2) body j(1) by (auto simp: jnet_Get_result_def)
    qed
    then show "\<exists>q2 ss3. recvWorker (length frames) pools q1 ss2 = Inr (q2, ss3) \<and> concat ss3 = rest2
          \<and> jq_inflight q2 = (jq_inflight q)(cookie := None)
          \<and> (\<forall>i \<in> set ids. \<exists>r. jq_calls q2 i = \<lparr>jc_resp = Some r, jc_done = True\<rparr> \<and> jnet_Get_result r = Inr (b, None))"
      using g(1,3) q2(1,3) by (intro exI [of _ q2] exI [of _ ss3]) (simp add: fs(2))
  qed
qed

definition two_callers :: jqueue where
  "two_callers = \<lparr>jq_nextCookie = 7, jq_inflight = Map.empty, jq_calls = (\<lambda>i. \<lparr>jc_resp = None, jc_done = False\<rparr>)\<rparr>"

definition two_requests :: "jrequest list" where
  "two_requests = [new_jrequest\<lparr>jr_CMD := 2, jr_Key := [49]\<rparr>, new_jrequest\<lparr>jr_CMD := 2\<rparr>]"

definition two_bytes :: data_gen where
  "two_bytes = \<lparr>dg_Get = (\<lambda>k. Inr [10, 20]), dg_GetReadCloser = (\<lambda>k. Inr [10, 20]), dg_GetSize = (\<lambda>k. 2)\<rparr>"

theorem jnet_batch_served_witness:
  "\<exists>batch arr ss outs q2 ss3. recv_batch [] [] [flush_requests 7 two_requests] = (Inr batch, arr, ss) \<and>
     handled two_bytes batch [new_jresponse, new_jresponse] outs \<and>
     recvWorker 2 (\<lambda>n. ([], [], [])) (snd (register_batch two_callers [4, 9])) (map (\<lambda>out. flush_responses [out]) outs) = Inr (q2, ss3) \<and>
     (\<forall>i \<in> {4, 9}. \<exists>r. jc_resp (jq_calls q2 i) = Some r \<and> jnet_Get_result r = Inr ([10, 20], None))"
proof -
  have reg: "register_batch two_callers [4, 9] = (7, snd (register_batch two_callers [4, 9]))"
    by (simp add: register_batch_def two_callers_def)
  have ok: "list_all jrequest_ok two_requests" "sum_list (map (\<lambda>r. length (jrequest_Encode r)) two_requests) \<le> header_array"
      "\<forall>r \<in> set two_requests. jr_CMD r AND 0xF = 2 \<and> (2 :: byte) < 5"
    by (simp_all add: two_requests_def jrequest_ok_def new_jrequest_def header_array_def)
  have ss: "concat [flush_requests 7 two_requests] = flush_requests 7 two_requests @ []" by simp
  have dg: "dg_Get two_bytes (command_key 2) = Inr [10, 20]" "block_ok [10, 20]"
    by (simp_all add: two_bytes_def block_ok_def body_buf_def flip: numeral_2_eq_2)
  have idle: "\<forall>i \<in> set [4, 9]. \<not> jc_done (jq_calls two_callers i)" by (simp add: two_callers_def)
  obtain os arr ss' where os: "recv_batch [] [] [flush_requests 7 two_requests] = (Inr (map (\<lambda>(i, r). (7, i, r)) (enumerate 0 os)), arr, ss')"
      "list_all2 same_request two_requests os"
    using recv_batch_ok [OF ok(1,2) ss] by blast
  obtain o1 o2 where o: "os = [o1, o2]" "jr_CMD o1 = 2" "jr_CMD o2 = 2"
    using os(2) by (auto simp: two_requests_def list_all2_Cons1 same_request_def new_jrequest_def)
  let ?batch = "[(7, 0, o1), (7, 1, o2)]"
  have p: "processRequest two_bytes new_jresponse (7, i, o') = Inr (jresponse_Encode (served [10, 20] (7, i, o') new_jresponse))"
    if "jr_CMD o' = 2" for i o'
    using processRequest_block [of o' two_bytes new_jresponse 7 i] that by (simp add: two_bytes_def served_def)
  let ?outs = "[jresponse_Encode (served [10, 20] (7, 1, o2) new_jresponse), jresponse_Encode (served [10, 20] (7, 0, o1) new_jresponse)]"
  have clean: "js_ErrorCode new_jresponse = 0" by (simp add: new_jresponse_def)
  have h: "handled two_bytes ?batch [new_jresponse, new_jresponse] (concat (map (\<lambda>out. [out]) ?outs))"
    unfolding handled_def
    by (rule exI [of _ "[(7, 1, o2), (7, 0, o1)]"]) (simp add: p o(2,3) clean)
  have bt: "recv_batch [] [] [flush_requests 7 two_requests] = (Inr ?batch, arr, ss')" using os(1) o(1) by simp
  have len: "[4, 9 :: nat] \<noteq> []" "length [4, 9 :: nat] \<le> 64" "length two_requests = length [4, 9 :: nat]"
    by (simp_all add: two_requests_def)
  have d: "distinct [4, 9 :: nat]" by simp
  from jnet_batch_served [OF reg d idle len ok dg ss, of "[]" "[]"]
  obtain batch arr0 ss0 where b: "recv_batch [] [] [flush_requests 7 two_requests] = (Inr batch, arr0, ss0)"
    and all: "\<forall>objects frames ss2 rest2 pools.
       handled two_bytes batch objects (concat frames) \<and> concat ss2 = concat (map flush_responses frames) @ rest2 \<longrightarrow>
       (\<exists>q2 ss3. recvWorker (length frames) pools (snd (register_batch two_callers [4, 9])) ss2 = Inr (q2, ss3) \<and> concat ss3 = rest2
          \<and> jq_inflight q2 = (jq_inflight two_callers)(7 := None)
          \<and> (\<forall>i \<in> set [4, 9]. \<exists>r. jq_calls q2 i = \<lparr>jc_resp = Some r, jc_done = True\<rparr> \<and> jnet_Get_result r = Inr ([10, 20], None)))"
    by blast
  have "batch = ?batch" using b bt by simp
  then obtain q2 ss3 where q2: "recvWorker (length (map (\<lambda>out. [out]) ?outs)) (\<lambda>n. ([], [], [])) (snd (register_batch two_callers [4, 9]))
        (map (\<lambda>out. flush_responses [out]) ?outs) = Inr (q2, ss3)"
      "\<forall>i \<in> set [4, 9]. \<exists>r. jq_calls q2 i = \<lparr>jc_resp = Some r, jc_done = True\<rparr> \<and> jnet_Get_result r = Inr ([10, 20], None)"
    using all [rule_format, of "[new_jresponse, new_jresponse]" "map (\<lambda>out. [out]) ?outs"
        "map (\<lambda>out. flush_responses [out]) ?outs" "[]" "\<lambda>n. ([], [], [])"] h by (auto simp: comp_def)
  have "recvWorker 2 (\<lambda>n. ([], [], [])) (snd (register_batch two_callers [4, 9])) (map (\<lambda>out. flush_responses [out]) ?outs) = Inr (q2, ss3)"
    using q2(1) by (simp add: numeral_2_eq_2)
  moreover have "\<forall>i \<in> {4, 9}. \<exists>r. jc_resp (jq_calls q2 i) = Some r \<and> jnet_Get_result r = Inr ([10, 20], None)"
    using q2(2) by auto
  moreover have "handled two_bytes ?batch [new_jresponse, new_jresponse] ?outs" using h by simp
  ultimately show ?thesis using bt by blast
qed

end
