(* ===== verification/Jnet_Queue.thy ===== *)
theory Jnet_Queue
  imports Jnet_Serve
begin

text \<open>
  The client of \<open>pkg/net/jnet\<close> with all that runs concurrently in it: any number of callers of \<open>Get\<close>, the
  channel between them and the worker that gathers batches, the ticks of the heartbeat, the worker that
  receives responses, and \<open>Close\<close>. The actions are functions on the state, \<open>jnet_step\<close> interleaves them.

  A request object comes from a pool and goes back to it when its call returns; objects are numbers, and
  \<open>jq_calls\<close> says for each what its response and its channel are. Logging is left out.
\<close>

section \<open>State\<close>

text \<open>
  \<open>jx_trying\<close>: objects whose callers are in the loop of \<open>submit\<close> before the send; \<open>jx_completed\<close>: those whose
  channel is closed and whose callers have not returned. \<open>jx_sent\<close> and \<open>jx_answered\<close> are history: the batches
  written, newest first, and the responses received, by cookie and index.
\<close>

record jclient =
  jx_q :: jqueue
  jx_compressOn :: bool
  jx_crcOn :: bool
  jx_pool :: "nat list"
  jx_next :: nat
  jx_req :: "nat \<Rightarrow> jrequest"
  jx_trying :: "nat list"
  jx_chan :: "nat list"
  jx_cur :: "nat list"
  jx_size :: int
  jx_completed :: "nat list"
  jx_closed :: bool
  jx_wire :: "byte list"
  jx_sent :: "(u64 \<times> nat list) list"
  jx_answered :: "(u64 \<times> nat) list"

definition jnet_chan_size :: nat where
  "jnet_chan_size = 2048"

text \<open>\<open>NewIOQueue\<close> and \<open>NewClient\<close>; \<open>dialErr\<close> is what dialling gives.\<close>

definition jnet_NewIOQueue :: "go_error option \<Rightarrow> go_error + jqueue" where
  "jnet_NewIOQueue dialErr =
     (case dialErr of
        Some e \<Rightarrow> Inl e
      | None \<Rightarrow> Inr \<lparr>jq_nextCookie = 0, jq_inflight = Map.empty, jq_calls = (\<lambda>i. \<lparr>jc_resp = None, jc_done = False\<rparr>)\<rparr>)"

definition jnet_NewClient :: "go_error option \<Rightarrow> bool \<Rightarrow> bool \<Rightarrow> go_error + jclient" where
  "jnet_NewClient dialErr compressOn crcOn =
     (case jnet_NewIOQueue dialErr of
        Inl e \<Rightarrow> Inl e
      | Inr q \<Rightarrow> Inr \<lparr>jx_q = q,
          jx_compressOn = compressOn, jx_crcOn = crcOn, jx_pool = [], jx_next = 0, jx_req = (\<lambda>i. new_jrequest),
          jx_trying = [], jx_chan = [], jx_cur = [], jx_size = 0, jx_completed = [], jx_closed = False,
          jx_wire = [], jx_sent = [], jx_answered = []\<rparr>)"

section \<open>The actions\<close>

text \<open>
  \<open>Get\<close> up to the send: an object of the pool (\<open>pick\<close>: \<open>sync.Pool\<close> may give any, or none) gets the
  request, the client's flags and a new channel; what the pooled object held otherwise stays.
\<close>

definition jnet_Get_start :: "jclient \<Rightarrow> byte \<Rightarrow> byte list \<Rightarrow> nat option \<Rightarrow> jclient" where
  "jnet_Get_start c cmd key pick =
     (let (i, c1) = (case pick of
            Some j \<Rightarrow> if j < length (jx_pool c)
                then (jx_pool c ! j, c\<lparr>jx_pool := take j (jx_pool c) @ drop (Suc j) (jx_pool c)\<rparr>)
                else (jx_next c, c\<lparr>jx_next := Suc (jx_next c), jx_req := (jx_req c)(jx_next c := new_jrequest)\<rparr>)
          | None \<Rightarrow> (jx_next c, c\<lparr>jx_next := Suc (jx_next c), jx_req := (jx_req c)(jx_next c := new_jrequest)\<rparr>)) in
      c1\<lparr>jx_req := (jx_req c1)(i := (jx_req c1 i)\<lparr>jr_CMD := cmd, jr_Key := key,
             jr_compressOn := jx_compressOn c, jr_crcOn := jx_crcOn c\<rparr>),
         jx_q := (jx_q c1)\<lparr>jq_calls := (jq_calls (jx_q c1))(i := \<lparr>jc_resp = jc_resp (jq_calls (jx_q c1) i), jc_done = False\<rparr>)\<rparr>,
         jx_trying := i # jx_trying c1\<rparr>)"

text \<open>The send in \<open>submit\<close>: with a full channel the caller tries again at once.\<close>

definition jnet_submit :: "jclient \<Rightarrow> nat \<Rightarrow> jclient option" where
  "jnet_submit c i =
     (if length (jx_chan c) < jnet_chan_size
      then Some (c\<lparr>jx_trying := remove1 i (jx_trying c), jx_chan := jx_chan c @ [i]\<rparr>) else None)"

text \<open>
  \<open>flush\<close> of the gathered batch: registered under the next cookie, then written; an error of the
  connection is returned and the worker panics.
\<close>

definition jnet_flush :: "jclient \<Rightarrow> go_error + jclient" where
  "jnet_flush c =
     (case register_batch (jx_q c) (jx_cur c) of
        (cookie, q) \<Rightarrow>
          if jx_closed c then Inl (Panic ''use of closed network connection'')
          else Inr (c\<lparr>jx_q := q, jx_cur := [], jx_size := 0,
                 jx_wire := jx_wire c @ flush_requests cookie (map (jx_req c) (jx_cur c)),
                 jx_sent := (cookie, jx_cur c) # jx_sent c\<rparr>))"

text \<open>\<open>submitWorker\<close>: the first request of a batch, the further ones, and the tick that ends it.\<close>

definition jnet_take :: "jclient \<Rightarrow> (go_error + jclient) option" where
  "jnet_take c =
     (case jx_chan c of
        [] \<Rightarrow> None
      | i # rest \<Rightarrow>
          (let c1 = c\<lparr>jx_chan := rest, jx_cur := jx_cur c @ [i]\<rparr> in
           if jx_cur c = [] then Some (Inr c1)
           else (let c2 = c1\<lparr>jx_size := jx_size c + int (unat (jr_ContentLen (jx_req c i)))\<rparr> in
                 if client_full (length (jx_cur c2)) (jx_size c2) then Some (jnet_flush c2) else Some (Inr c2))))"

definition jnet_tick :: "jclient \<Rightarrow> (go_error + jclient) option" where
  "jnet_tick c = (if jx_cur c = [] then None else Some (jnet_flush c))"

text \<open>
  \<open>recvWorker\<close> with one response, whose body is what the loop that hands out bodies has left in the object.
  A response without content panics before it is looked up. The history remembers which response came; the
  caller whose channel is closed will return.
\<close>

definition jnet_recv :: "jclient \<Rightarrow> jresponse \<Rightarrow> go_error + jclient" where
  "jnet_recv c r =
     (if jx_closed c then Inl (Panic ''read'')
      else if js_ContentLen r = 0 then Inl (Panic '''')
      else case complete (jx_q c) r of
        Inl e \<Rightarrow> Inl e
      | Inr q \<Rightarrow> Inr (c\<lparr>jx_q := q, jx_answered := (js_BatchId r, unat (js_Idx r)) # jx_answered c,
          jx_completed := (case jq_inflight (jx_q c) (js_BatchId r) of
              None \<Rightarrow> [] | Some (ids, left) \<Rightarrow> [ids ! unat (js_Idx r)]) @ jx_completed c\<rparr>))"

text \<open>
  The rest of \<open>submit\<close> and \<open>Get\<close>: the object goes back to the pool, and a response whose object holds no
  body panics in the caller.
\<close>

definition jnet_return :: "jclient \<Rightarrow> nat \<Rightarrow> go_error + jclient \<times> byte list \<times> byte list option" where
  "jnet_return c i =
     (case jc_resp (jq_calls (jx_q c) i) of
        None \<Rightarrow> Inl (Panic ''nil pointer dereference'')
      | Some r \<Rightarrow>
          (case jnet_Get_result r of
             Inl e \<Rightarrow> Inl e
           | Inr res \<Rightarrow> Inr (c\<lparr>jx_completed := remove1 i (jx_completed c), jx_pool := i # jx_pool c\<rparr>, res)))"

definition jnet_Close :: "jclient \<Rightarrow> jclient" where
  "jnet_Close c = c\<lparr>jx_closed := True\<rparr>"

text \<open>A response that a server owes: to a request it was sent and has not answered.\<close>

definition owed :: "jclient \<Rightarrow> u64 \<Rightarrow> nat \<Rightarrow> bool" where
  "owed c cookie idx \<longleftrightarrow> (\<exists>ids. (cookie, ids) \<in> set (jx_sent c) \<and> idx < length ids) \<and> (cookie, idx) \<notin> set (jx_answered c)"

inductive jnet_step :: "jclient \<Rightarrow> jclient \<Rightarrow> bool" where
  get: "jnet_step c (jnet_Get_start c cmd key pick)"
| submit: "i \<in> set (jx_trying c) \<Longrightarrow> jnet_submit c i = Some c' \<Longrightarrow> jnet_step c c'"
| take: "jnet_take c = Some (Inr c') \<Longrightarrow> jnet_step c c'"
| tick: "jnet_tick c = Some (Inr c') \<Longrightarrow> jnet_step c c'"
| recv: "owed c (js_BatchId r) (unat (js_Idx r)) \<Longrightarrow> jnet_recv c r = Inr c' \<Longrightarrow> jnet_step c c'"
| return: "i \<in> set (jx_completed c) \<Longrightarrow> jnet_return c i = Inr (c', res) \<Longrightarrow> jnet_step c c'"
| close: "jnet_step c (jnet_Close c)"

inductive jnet_reach :: "jclient \<Rightarrow> bool" where
  start: "jnet_NewClient None z crc = Inr c \<Longrightarrow> jnet_reach c"
| step: "jnet_reach c \<Longrightarrow> jnet_step c c' \<Longrightarrow> jnet_reach c'"

section \<open>Where an object is\<close>

text \<open>The objects of a batch whose responses are missing, and of all batches.\<close>

definition missing :: "(u64 \<times> nat) list \<Rightarrow> u64 \<times> nat list \<Rightarrow> nat list" where
  "missing ans b = map (\<lambda>i. snd b ! i) (filter (\<lambda>i. (fst b, i) \<notin> set ans) [0..<length (snd b)])"

definition outstanding :: "jclient \<Rightarrow> nat list" where
  "outstanding c = concat (map (missing (jx_answered c)) (jx_sent c))"

definition places :: "jclient \<Rightarrow> nat list" where
  "places c = jx_pool c @ jx_trying c @ jx_chan c @ jx_cur c @ outstanding c @ jx_completed c"

definition inflight_ok :: "jclient \<Rightarrow> u64 \<times> nat list \<Rightarrow> bool" where
  "inflight_ok c b \<longleftrightarrow> snd b \<noteq> [] \<and> length (snd b) \<le> 64 \<and> jq_inflight (jx_q c) (fst b) =
     (if missing (jx_answered c) b = [] then None else Some (snd b, int (length (missing (jx_answered c) b))))"

text \<open>
  Every object is in one place; the channels of those that wait are open; the table of batches in flight says
  what is missing; and the cookies are the numbers of the batches.
\<close>

definition jnet_inv :: "jclient \<Rightarrow> bool" where
  "jnet_inv c \<longleftrightarrow> distinct (places c) \<and> (\<forall>i \<in> set (places c). i < jx_next c)
     \<and> (\<forall>i \<in> set (jx_trying c @ jx_chan c @ jx_cur c @ outstanding c). \<not> jc_done (jq_calls (jx_q c) i))
     \<and> (\<forall>i \<in> set (jx_completed c). jc_done (jq_calls (jx_q c) i))
     \<and> length (jx_cur c) < 64
     \<and> jq_nextCookie (jx_q c) = word_of_nat (length (jx_sent c))
     \<and> map fst (jx_sent c) = map word_of_nat (rev [0..<length (jx_sent c)])
     \<and> fst ` set (jx_answered c) \<subseteq> fst ` set (jx_sent c)
     \<and> list_all (inflight_ok c) (jx_sent c)"

lemma missing_answered:
  assumes "i < length ids" "(k, i) \<notin> set ans"
  shows "mset (missing ans (k, ids)) = add_mset (ids ! i) (mset (missing ((k, i) # ans) (k, ids)))"
proof -
  let ?xs = "filter (\<lambda>j. (k, j) \<notin> set ans) [0..<length ids]"
  have "filter (\<lambda>j. (k, j) \<notin> set ((k, i) # ans)) [0..<length ids] = filter (\<lambda>j. i \<noteq> j) ?xs"
    unfolding filter_filter by (rule filter_cong) auto
  also have "\<dots> = remove1 i ?xs" by (simp add: distinct_remove1_removeAll removeAll_filter_not_eq)
  finally have "mset ?xs = add_mset i (mset (filter (\<lambda>j. (k, j) \<notin> set ((k, i) # ans)) [0..<length ids]))"
    using assms by simp
  then show ?thesis by (simp add: missing_def)
qed

lemma missing_other: "k \<noteq> fst b \<Longrightarrow> missing ((k, i) # ans) b = missing ans b"
  by (auto simp: missing_def cong: filter_cong)

lemma missing_fresh: "fst b \<notin> fst ` set ans \<Longrightarrow> missing ans b = snd b"
proof -
  assume a: "fst b \<notin> fst ` set ans"
  have "filter (\<lambda>i. (fst b, i) \<notin> set ans) [0..<length (snd b)] = [0..<length (snd b)]"
    using a by (intro filter_True) force
  then show ?thesis by (simp add: missing_def map_nth)
qed

lemma sent_split:
  assumes inv: "jnet_inv c" and b: "(k, ids) \<in> set (jx_sent c)" and n: "length (jx_sent c) \<le> 2 ^ 64"
  shows "\<exists>A B. jx_sent c = A @ (k, ids) # B \<and> k \<notin> fst ` set A \<and> k \<notin> fst ` set B"
proof -
  have "inj_on (word_of_nat :: nat \<Rightarrow> u64) {0..<length (jx_sent c)}"
    using n by (intro inj_onI) (auto simp: word_of_nat_eq_iff take_bit_nat_eq_self)
  then have "distinct (map (word_of_nat :: nat \<Rightarrow> u64) (rev [0..<length (jx_sent c)]))" by (simp add: distinct_map)
  moreover have "map fst (jx_sent c) = map word_of_nat (rev [0..<length (jx_sent c)])" using inv by (simp add: jnet_inv_def)
  ultimately have d: "distinct (map fst (jx_sent c))" by simp
  obtain A B where AB: "jx_sent c = A @ (k, ids) # B" using split_list [OF b] by blast
  then show ?thesis using d by auto
qed

text \<open>An owed response: its batch is in the table, its object waits.\<close>

lemma owed_waits:
  assumes inv: "jnet_inv c" and o: "owed c k i" and n: "length (jx_sent c) \<le> 2 ^ 64"
  shows "\<exists>ids. (k, ids) \<in> set (jx_sent c) \<and> i < length ids \<and> ids ! i \<in> set (outstanding c)
     \<and> jq_inflight (jx_q c) k = Some (ids, int (length (missing (jx_answered c) (k, ids))))
     \<and> \<not> jc_done (jq_calls (jx_q c) (ids ! i))"
proof -
  obtain ids where b: "(k, ids) \<in> set (jx_sent c)" "i < length ids" "(k, i) \<notin> set (jx_answered c)"
    using o by (auto simp: owed_def)
  have "ids ! i \<in> set (missing (jx_answered c) (k, ids))" using b(2,3) by (force simp: missing_def)
  moreover from this have "missing (jx_answered c) (k, ids) \<noteq> []" by auto
  moreover have "inflight_ok c (k, ids)" using inv b(1) by (simp add: jnet_inv_def list_all_iff)
  moreover have "ids ! i \<in> set (outstanding c)" using calculation(1) b(1) by (force simp: outstanding_def)
  moreover have "\<not> jc_done (jq_calls (jx_q c) (ids ! i))" using inv calculation(4) by (simp add: jnet_inv_def)
  ultimately show ?thesis using b by (auto simp: inflight_ok_def)
qed

lemma jnet_inv_moved:
  assumes inv: "jnet_inv c" and p: "mset (places c') = mset (places c)" and q: "jx_q c' = jx_q c" "jx_next c' = jx_next c"
      "jx_sent c' = jx_sent c" "jx_answered c' = jx_answered c"
    and w: "set (jx_trying c' @ jx_chan c' @ jx_cur c') \<subseteq> set (jx_trying c @ jx_chan c @ jx_cur c)"
      "set (jx_completed c') \<subseteq> set (jx_completed c)" "length (jx_cur c') < 64"
  shows "jnet_inv c'"
proof -
  have out: "outstanding c' = outstanding c" by (simp add: outstanding_def q)
  have d: "distinct (places c')" "set (places c') = set (places c)"
    using inv mset_eq_imp_distinct_iff [OF p] mset_eq_setD [OF p] by (simp_all add: jnet_inv_def)
  have "inflight_ok c' = inflight_ok c" by (simp add: fun_eq_iff inflight_ok_def q)
  then show ?thesis using inv w d unfolding jnet_inv_def out q by auto
qed

lemma jnet_get_inv: "jnet_inv c \<Longrightarrow> jnet_inv (jnet_Get_start c cmd key pick)"
proof -
  assume inv: "jnet_inv c"
  let ?c' = "jnet_Get_start c cmd key pick"
  obtain i pool nx where s: "jx_pool ?c' = pool" "jx_next ?c' = nx" "jx_trying ?c' = i # jx_trying c" "jx_chan ?c' = jx_chan c"
      "jx_cur ?c' = jx_cur c" "jx_completed ?c' = jx_completed c" "jx_sent ?c' = jx_sent c" "jx_answered ?c' = jx_answered c"
      "jq_inflight (jx_q ?c') = jq_inflight (jx_q c)" "jq_nextCookie (jx_q ?c') = jq_nextCookie (jx_q c)"
      "jq_calls (jx_q ?c') = (jq_calls (jx_q c))(i := \<lparr>jc_resp = jc_resp (jq_calls (jx_q c) i), jc_done = False\<rparr>)"
      "(mset (jx_pool c) = add_mset i (mset pool) \<and> nx = jx_next c) \<or> (pool = jx_pool c \<and> i = jx_next c \<and> nx = Suc i)"
  proof (cases "\<exists>j. pick = Some j \<and> j < length (jx_pool c)")
    case True
    then obtain j where j: "pick = Some j" "j < length (jx_pool c)" by blast
    have "jx_pool c = take j (jx_pool c) @ jx_pool c ! j # drop (Suc j) (jx_pool c)" using j(2) by (simp add: id_take_nth_drop)
    then have "mset (jx_pool c) = mset (take j (jx_pool c) @ jx_pool c ! j # drop (Suc j) (jx_pool c))" by simp
    then have "mset (jx_pool c) = add_mset (jx_pool c ! j) (mset (take j (jx_pool c) @ drop (Suc j) (jx_pool c)))" by simp
    with j show ?thesis
      by (intro that [of "take j (jx_pool c) @ drop (Suc j) (jx_pool c)" "jx_next c" "jx_pool c ! j"])
        (simp_all add: jnet_Get_start_def Let_def)
  next
    case False
    then show ?thesis
      by (intro that [of "jx_pool c" "Suc (jx_next c)" "jx_next c"])
        (auto simp: jnet_Get_start_def Let_def split: option.splits)
  qed
  have out: "outstanding ?c' = outstanding c" by (simp add: outstanding_def s)
  have inf: "inflight_ok ?c' = inflight_ok c" by (simp add: fun_eq_iff inflight_ok_def s)
  have lt: "\<forall>x \<in> set (places c). x < jx_next c" and d: "distinct (places c)" using inv by (simp_all add: jnet_inv_def)
  have places: "mset (places ?c') = (if i = jx_next c then add_mset i (mset (places c)) else mset (places c))
     \<and> (i = jx_next c \<or> i \<in> set (jx_pool c)) \<and> nx = (if i = jx_next c then Suc i else jx_next c)"
    using s(12)
  proof
    assume a: "mset (jx_pool c) = add_mset i (mset pool) \<and> nx = jx_next c"
    then have "i \<in># mset (jx_pool c)" by simp
    then have ip: "i \<in> set (jx_pool c)" by simp
    then have "i < jx_next c" using lt by (simp add: places_def)
    then show ?thesis using a ip by (simp add: places_def s(1,3-6) out)
  qed (simp add: places_def s(1,3-6) out)
  have free: "i \<notin> set (jx_trying c @ jx_chan c @ jx_cur c @ outstanding c @ jx_completed c)"
    using places d lt by (auto simp: places_def)
  have dist: "distinct (places ?c')" "\<forall>x \<in> set (places ?c'). x < nx"
  proof -
    have "mset (places ?c') = mset (if i = jx_next c then i # places c else places c)" using places by simp
    then have "distinct (places ?c') = distinct (if i = jx_next c then i # places c else places c)"
      "set (places ?c') = set (if i = jx_next c then i # places c else places c)"
      using mset_eq_imp_distinct_iff mset_eq_setD by blast+
    then show "distinct (places ?c')" "\<forall>x \<in> set (places ?c'). x < nx" using d lt places by (auto split: if_splits)
  qed
  show ?thesis
    unfolding jnet_inv_def out inf s(2-11)
  proof (intro conjI)
    show "\<forall>x \<in> set ((i # jx_trying c) @ jx_chan c @ jx_cur c @ outstanding c). \<not> jc_done
        (((jq_calls (jx_q c))(i := \<lparr>jc_resp = jc_resp (jq_calls (jx_q c) i), jc_done = False\<rparr>)) x)"
      using inv by (auto simp: jnet_inv_def)
    show "\<forall>x \<in> set (jx_completed c). jc_done
        (((jq_calls (jx_q c))(i := \<lparr>jc_resp = jc_resp (jq_calls (jx_q c) i), jc_done = False\<rparr>)) x)"
      using inv free by (auto simp: jnet_inv_def)
  qed (use dist inv in \<open>simp_all add: jnet_inv_def\<close>)
qed

lemma jnet_submit_inv:
  assumes inv: "jnet_inv c" and i: "i \<in> set (jx_trying c)" and c': "jnet_submit c i = Some c'"
  shows "jnet_inv c'"
proof (rule jnet_inv_moved [OF inv])
  have c: "c' = c\<lparr>jx_trying := remove1 i (jx_trying c), jx_chan := jx_chan c @ [i]\<rparr>"
    using c' by (simp add: jnet_submit_def split: if_splits)
  show "mset (places c') = mset (places c)"
    using i by (simp add: c places_def outstanding_def)
  show "set (jx_trying c' @ jx_chan c' @ jx_cur c') \<subseteq> set (jx_trying c @ jx_chan c @ jx_cur c)"
    using i set_remove1_subset [of i "jx_trying c"] by (auto simp: c)
qed (use c' inv in \<open>auto simp: jnet_submit_def jnet_inv_def split: if_splits\<close>)

text \<open>Writing a batch moves its requests to the table, under a cookie not used before.\<close>

lemma jnet_flush_inv:
  assumes d: "distinct (places c)" "\<forall>i \<in> set (places c). i < jx_next c"
      "\<forall>i \<in> set (jx_trying c @ jx_chan c @ jx_cur c @ outstanding c). \<not> jc_done (jq_calls (jx_q c) i)"
      "\<forall>i \<in> set (jx_completed c). jc_done (jq_calls (jx_q c) i)"
    and sent: "jq_nextCookie (jx_q c) = word_of_nat (length (jx_sent c))"
      "map fst (jx_sent c) = map word_of_nat (rev [0..<length (jx_sent c)])"
      "fst ` set (jx_answered c) \<subseteq> fst ` set (jx_sent c)" "list_all (inflight_ok c) (jx_sent c)"
    and cur: "jx_cur c \<noteq> []" "length (jx_cur c) \<le> 64" and n: "length (jx_sent c) < 2 ^ 64"
    and c': "jnet_flush c = Inr c'"
  shows "jnet_inv c' \<and> mset (outstanding c') = mset (jx_cur c) + mset (outstanding c)"
proof -
  let ?k = "jq_nextCookie (jx_q c)"
  have s: "jx_q c' = (jx_q c)\<lparr>jq_nextCookie := ?k + 1, jq_inflight := (jq_inflight (jx_q c))(?k \<mapsto> (jx_cur c, int (length (jx_cur c))))\<rparr>"
      "jx_cur c' = []" "jx_sent c' = (?k, jx_cur c) # jx_sent c" "jx_answered c' = jx_answered c" "jx_pool c' = jx_pool c"
      "jx_trying c' = jx_trying c" "jx_chan c' = jx_chan c" "jx_completed c' = jx_completed c" "jx_next c' = jx_next c"
    using c' by (auto simp: jnet_flush_def register_batch_def split: if_splits)
  have kn: "?k \<notin> fst ` set (jx_sent c)"
  proof -
    have "fst ` set (jx_sent c) = word_of_nat ` {0..<length (jx_sent c)}"
      using arg_cong [OF sent(2), of set] by simp
    moreover have "word_of_nat m \<noteq> (word_of_nat (length (jx_sent c)) :: u64)" if "m < length (jx_sent c)" for m
    proof -
      have "take_bit 64 m = m" "take_bit 64 (length (jx_sent c)) = length (jx_sent c)"
        using n that by (intro take_bit_nat_eq_self; simp)+
      then show ?thesis using that by (simp add: word_of_nat_eq_iff)
    qed
    ultimately show ?thesis by (force simp: sent(1))
  qed
  then have fresh: "missing (jx_answered c) (?k, jx_cur c) = jx_cur c"
    using missing_fresh [of "(?k, jx_cur c)" "jx_answered c"] sent(3) by auto
  have old: "\<forall>b \<in> set (jx_sent c). fst b \<noteq> ?k" using kn by (metis imageI)
  have out: "outstanding c' = jx_cur c @ outstanding c" by (simp add: outstanding_def s fresh)
  have places: "mset (places c') = mset (places c)" by (simp add: places_def s out)
  have dist: "distinct (places c')" "set (places c') = set (places c)"
    using d(1) mset_eq_imp_distinct_iff [OF places] mset_eq_setD [OF places] by simp_all
  have "inflight_ok c' b" if "b \<in> set (jx_sent c)" for b
    using sent(4) old that by (auto simp: list_all_iff inflight_ok_def s)
  moreover have "inflight_ok c' (?k, jx_cur c)" using cur by (simp add: inflight_ok_def s fresh)
  ultimately have inf: "list_all (inflight_ok c') (jx_sent c')" by (simp add: s list_all_iff)
  have "map fst (jx_sent c') = map word_of_nat (rev [0..<length (jx_sent c')])"
    using sent(1,2) by (simp add: s)
  then show ?thesis
    using d(2-4) dist inf sent(1,3) unfolding jnet_inv_def out by (auto simp: s)
qed

lemma jnet_take_inv:
  assumes inv: "jnet_inv c" and n: "length (jx_sent c) < 2 ^ 64" and c': "jnet_take c = Some (Inr c')"
  shows "jnet_inv c' \<and> length (jx_chan c) = Suc (length (jx_chan c')) \<and> jx_trying c' = jx_trying c
    \<and> jx_completed c' = jx_completed c \<and> jx_closed c' = jx_closed c
    \<and> (outstanding c' = outstanding c \<and> length (jx_cur c') = Suc (length (jx_cur c)) \<and> jx_sent c' = jx_sent c
       \<or> jx_cur c' = [] \<and> length (outstanding c') = length (outstanding c) + Suc (length (jx_cur c))
         \<and> length (jx_sent c') = Suc (length (jx_sent c)))"
proof -
  obtain i rest where ch: "jx_chan c = i # rest" using c' by (auto simp: jnet_take_def split: list.splits)
  let ?c1 = "c\<lparr>jx_chan := rest, jx_cur := jx_cur c @ [i]\<rparr>"
  let ?c2 = "?c1\<lparr>jx_size := jx_size c + int (unat (jr_ContentLen (jx_req c i)))\<rparr>"
  have moved: "jnet_inv x" if "x = ?c1 \<or> x = ?c2" "length (jx_cur x) < 64" for x
  proof (rule jnet_inv_moved [OF inv])
    show "mset (places x) = mset (places c)" using that(1) ch by (auto simp: places_def outstanding_def)
  qed (use that ch in auto)
  have cur: "length (jx_cur c) < 64" using inv by (simp add: jnet_inv_def)
  consider (first) "jx_cur c = []" "c' = ?c1" | (more) "jx_cur c \<noteq> []" "\<not> client_full (length (jx_cur ?c2)) (jx_size ?c2)" "c' = ?c2"
    | (full) "jx_cur c \<noteq> []" "jnet_flush ?c2 = Inr c'"
    using c' ch by (auto simp: jnet_take_def Let_def split: if_splits)
  then show ?thesis
  proof cases
    case first
    then show ?thesis using moved [of c'] ch by (simp add: outstanding_def)
  next
    case more
    then have "length (jx_cur c') < 64" by (simp add: client_full_def MaxBatchCount_def)
    then show ?thesis using moved [of c'] more(3) ch by (simp add: outstanding_def)
  next
    case full
    have pl: "mset (places ?c2) = mset (places c)" using ch by (simp add: places_def outstanding_def)
    have out: "outstanding ?c2 = outstanding c" by (simp add: outstanding_def)
    have inf: "inflight_ok ?c2 = inflight_ok c" by (simp add: fun_eq_iff inflight_ok_def)
    have d: "distinct (places ?c2)" "\<forall>x \<in> set (places ?c2). x < jx_next ?c2"
      using inv mset_eq_imp_distinct_iff [OF pl] mset_eq_setD [OF pl] by (simp_all add: jnet_inv_def)
    have w: "\<forall>x \<in> set (jx_trying ?c2 @ jx_chan ?c2 @ jx_cur ?c2 @ outstanding ?c2). \<not> jc_done (jq_calls (jx_q ?c2) x)"
      "\<forall>x \<in> set (jx_completed ?c2). jc_done (jq_calls (jx_q ?c2) x)"
      using inv ch unfolding out by (auto simp: jnet_inv_def)
    have se: "list_all (inflight_ok ?c2) (jx_sent ?c2)"
      unfolding inf using inv by (simp add: jnet_inv_def)
    have f: "jnet_inv c' \<and> mset (outstanding c') = mset (jx_cur ?c2) + mset (outstanding ?c2)"
      by (rule jnet_flush_inv [OF d w _ _ _ se _ _ _ full(2)]) (use inv cur n in \<open>simp_all add: jnet_inv_def\<close>)
    then have "length (outstanding c') = length (jx_cur ?c2) + length (outstanding c)"
      unfolding out by (metis size_mset size_union)
    then show ?thesis using f full(2) ch by (auto simp: jnet_flush_def register_batch_def split: if_splits)
  qed
qed

lemma jnet_tick_inv:
  assumes inv: "jnet_inv c" and n: "length (jx_sent c) < 2 ^ 64" and c': "jnet_tick c = Some (Inr c')"
  shows "jnet_inv c' \<and> jx_trying c' = jx_trying c \<and> jx_chan c' = jx_chan c \<and> jx_cur c' = [] \<and> jx_cur c \<noteq> []
    \<and> jx_completed c' = jx_completed c \<and> jx_closed c' = jx_closed c
    \<and> length (outstanding c') = length (outstanding c) + length (jx_cur c) \<and> length (jx_sent c') = Suc (length (jx_sent c))"
proof -
  have ne: "jx_cur c \<noteq> []" and fl: "jnet_flush c = Inr c'" using c' by (auto simp: jnet_tick_def split: if_splits)
  have f: "jnet_inv c' \<and> mset (outstanding c') = mset (jx_cur c) + mset (outstanding c)"
    by (rule jnet_flush_inv [OF _ _ _ _ _ _ _ _ ne _ n fl]) (use inv in \<open>simp_all add: jnet_inv_def\<close>)
  then have "length (outstanding c') = length (jx_cur c) + length (outstanding c)" by (metis size_mset size_union)
  then show ?thesis using f ne fl by (auto simp: jnet_flush_def register_batch_def split: if_splits)
qed

text \<open>An owed response completes the call it belongs to.\<close>

lemma jnet_recv_inv:
  assumes inv: "jnet_inv c" and o: "owed c (js_BatchId r) (unat (js_Idx r))" and n: "length (jx_sent c) \<le> 2 ^ 64"
    and open_: "\<not> jx_closed c" and content: "js_ContentLen r \<noteq> 0"
  shows "\<exists>c' ids. jnet_recv c r = Inr c' \<and> (js_BatchId r, ids) \<in> set (jx_sent c) \<and> unat (js_Idx r) < length ids
    \<and> ids ! unat (js_Idx r) \<in> set (outstanding c)
    \<and> jq_calls (jx_q c') = (jq_calls (jx_q c))(ids ! unat (js_Idx r) := \<lparr>jc_resp = Some r, jc_done = True\<rparr>)
    \<and> jx_completed c' = ids ! unat (js_Idx r) # jx_completed c \<and> jnet_inv c'
    \<and> mset (outstanding c) = add_mset (ids ! unat (js_Idx r)) (mset (outstanding c'))
    \<and> jx_trying c' = jx_trying c \<and> jx_chan c' = jx_chan c \<and> jx_cur c' = jx_cur c \<and> jx_sent c' = jx_sent c
    \<and> jx_closed c' = jx_closed c"
proof -
  let ?k = "js_BatchId r" and ?i = "unat (js_Idx r)"
  obtain ids where ids: "(?k, ids) \<in> set (jx_sent c)" "?i < length ids" "ids ! ?i \<in> set (outstanding c)"
      "jq_inflight (jx_q c) ?k = Some (ids, int (length (missing (jx_answered c) (?k, ids))))"
      "\<not> jc_done (jq_calls (jx_q c) (ids ! ?i))"
    using owed_waits [OF inv o n] by blast
  let ?o = "ids ! ?i" and ?ans = "(?k, ?i) # jx_answered c" and ?m = "missing (jx_answered c) (?k, ids)"
  have notans: "(?k, ?i) \<notin> set (jx_answered c)" using o by (simp add: owed_def)
  note ma = missing_answered [OF ids(2) notans]
  have len: "length ?m = Suc (length (missing ?ans (?k, ids)))" using arg_cong [OF ma, of size] by simp
  define fl where "fl = (if int (length ?m) - 1 = 0 then (jq_inflight (jx_q c))(?k := None)
      else (jq_inflight (jx_q c))(?k \<mapsto> (ids, int (length ?m) - 1)))"
  define c' where "c' = c\<lparr>jx_q := (jx_q c)\<lparr>jq_inflight := fl,
        jq_calls := (jq_calls (jx_q c))(?o := \<lparr>jc_resp = Some r, jc_done = True\<rparr>)\<rparr>,
      jx_answered := ?ans, jx_completed := ?o # jx_completed c\<rparr>"
  have recv: "jnet_recv c r = Inr c'"
    using ids(2,4,5) open_ content by (simp add: jnet_recv_def complete_def Let_def c'_def fl_def)
  obtain A B where AB: "jx_sent c = A @ (?k, ids) # B" "?k \<notin> fst ` set A" "?k \<notin> fst ` set B"
    using sent_split [OF inv ids(1) n] by blast
  have other: "missing ?ans b = missing (jx_answered c) b" if "b \<in> set A \<union> set B" for b
    using AB(2,3) that by (intro missing_other) auto
  have out: "mset (outstanding c) = add_mset ?o (mset (outstanding c'))"
    using other ma by (simp add: outstanding_def c'_def AB(1) cong: map_cong)
  have pl: "mset (places c') = mset (places c)" using out by (simp add: places_def c'_def)
  have d: "distinct (places c')" "set (places c') = set (places c)"
    using inv mset_eq_imp_distinct_iff [OF pl] mset_eq_setD [OF pl] by (simp_all add: jnet_inv_def)
  have o': "?o \<notin> set (jx_trying c @ jx_chan c @ jx_cur c @ outstanding c' @ jx_completed c)"
    using d(1) by (auto simp: places_def c'_def)
  have sub: "set (outstanding c') \<subseteq> set (outstanding c)" using arg_cong [OF out, of set_mset] by auto
  have inf: "inflight_ok c' b" if "b \<in> set (jx_sent c)" for b
  proof (cases "fst b = ?k")
    case True
    then have "b = (?k, ids)" using that AB by (auto simp: image_iff)
    then show ?thesis
      using inv that len by (auto simp: jnet_inv_def list_all_iff inflight_ok_def c'_def fl_def)
  next
    case False
    then show ?thesis
      using inv that missing_other [of ?k b ?i "jx_answered c"]
      by (auto simp: jnet_inv_def list_all_iff inflight_ok_def c'_def fl_def)
  qed
  have "jnet_inv c'"
    unfolding jnet_inv_def
  proof (intro conjI)
    show "list_all (inflight_ok c') (jx_sent c')" using inf by (simp add: list_all_iff c'_def)
    show "\<forall>i \<in> set (jx_trying c' @ jx_chan c' @ jx_cur c' @ outstanding c'). \<not> jc_done (jq_calls (jx_q c') i)"
      using inv o' sub by (auto simp: jnet_inv_def c'_def)
    show "fst ` set (jx_answered c') \<subseteq> fst ` set (jx_sent c')"
      using inv rev_image_eqI [OF ids(1), of ?k fst] by (simp add: jnet_inv_def c'_def)
  qed (use inv d in \<open>auto simp: jnet_inv_def c'_def\<close>)
  then show ?thesis using recv ids out by (intro exI [of _ c'] exI [of _ ids]) (simp add: c'_def)
qed

lemma jnet_return_Inr:
  "jnet_return c i = Inr (c', res) \<longleftrightarrow> c' = c\<lparr>jx_completed := remove1 i (jx_completed c), jx_pool := i # jx_pool c\<rparr>
     \<and> (\<exists>r. jc_resp (jq_calls (jx_q c) i) = Some r \<and> jnet_Get_result r = Inr res)"
  by (auto simp: jnet_return_def split: option.splits sum.splits)

lemma jnet_return_inv:
  "jnet_inv c \<Longrightarrow> i \<in> set (jx_completed c) \<Longrightarrow> jnet_return c i = Inr (c', res) \<Longrightarrow> jnet_inv c'"
  by (rule jnet_inv_moved) (use set_remove1_subset [of i "jx_completed c"] in
      \<open>auto simp: jnet_return_Inr places_def outstanding_def jnet_inv_def\<close>)

lemma jnet_start_inv: "jnet_NewClient None z crc = Inr c \<Longrightarrow> jnet_inv c"
  by (auto simp: jnet_NewClient_def jnet_NewIOQueue_def jnet_inv_def places_def outstanding_def)

lemma jnet_step_sent: "jnet_step c c' \<Longrightarrow> length (jx_sent c) \<le> length (jx_sent c')"
  by (cases rule: jnet_step.cases)
    (auto simp: jnet_Get_start_def jnet_submit_def jnet_take_def jnet_tick_def jnet_flush_def jnet_recv_def
      jnet_return_Inr jnet_Close_def Let_def split: option.splits if_splits list.splits prod.splits sum.splits)

lemma jnet_step_inv:
  assumes step: "jnet_step c c'" and inv: "jnet_inv c" and n: "length (jx_sent c') < 2 ^ 64"
  shows "jnet_inv c'"
proof -
  have lt: "length (jx_sent c) < 2 ^ 64" using jnet_step_sent [OF step] n by simp
  show ?thesis
    using step
  proof cases
    case (recv r)
    then have "\<not> jx_closed c" "js_ContentLen r \<noteq> 0" by (auto simp: jnet_recv_def split: if_splits)
    then show ?thesis using jnet_recv_inv [OF inv recv(1)] lt recv(2) by fastforce
  next
    case close
    show ?thesis
      unfolding close jnet_Close_def
      by (rule jnet_inv_moved [OF inv]) (use inv in \<open>auto simp: places_def outstanding_def jnet_inv_def\<close>)
  qed (auto intro: jnet_get_inv [OF inv] jnet_submit_inv [OF inv] jnet_return_inv [OF inv]
        dest: jnet_take_inv [OF inv lt] jnet_tick_inv [OF inv lt])
qed

lemma jnet_reach_inv: "jnet_reach c \<Longrightarrow> length (jx_sent c) < 2 ^ 64 \<Longrightarrow> jnet_inv c"
proof (induction rule: jnet_reach.induct)
  case (step c c')
  then show ?case using jnet_step_inv [OF step(2)] jnet_step_sent [OF step(2)] by simp
qed (rule jnet_start_inv)

section \<open>What the client guarantees\<close>

text \<open>
  C12. Every response with content reaches its own caller, once: from any state that callers, workers, heartbeat
  and server can bring about before 2^64 batches have been sent, a response to a request that was sent and not
  yet answered completes the one call at its index in the batch with its cookie: that call is waiting, its
  channel is closed for the first time, it gets this response, and no other call is touched. A response
  without content panics instead, whoever waits for it. No object is ever in two places, so a pooled request
  is not given out while a batch, the channel or a caller holds it.
\<close>

theorem jnet_response_reaches_caller:
  assumes reach: "jnet_reach c" and n: "length (jx_sent c) < 2 ^ 64" and open_: "\<not> jx_closed c"
    and o: "owed c (js_BatchId r) (unat (js_Idx r))"
  shows "distinct (places c) \<and> (if js_ContentLen r = 0 then jnet_recv c r = Inl (Panic '''')
    else \<exists>c' ids. jnet_recv c r = Inr c' \<and> (js_BatchId r, ids) \<in> set (jx_sent c)
    \<and> ids ! unat (js_Idx r) \<in> set (outstanding c) \<and> \<not> jc_done (jq_calls (jx_q c) (ids ! unat (js_Idx r)))
    \<and> jq_calls (jx_q c') = (jq_calls (jx_q c))(ids ! unat (js_Idx r) := \<lparr>jc_resp = Some r, jc_done = True\<rparr>)
    \<and> jx_completed c' = ids ! unat (js_Idx r) # jx_completed c \<and> jnet_reach c')"
proof -
  have inv: "jnet_inv c" by (rule jnet_reach_inv [OF reach n])
  show ?thesis
  proof (cases "js_ContentLen r = 0")
    case True
    then show ?thesis using inv open_ by (simp add: jnet_inv_def jnet_recv_def)
  next
    case False
    obtain c' ids where c': "jnet_recv c r = Inr c'" "(js_BatchId r, ids) \<in> set (jx_sent c)"
        "ids ! unat (js_Idx r) \<in> set (outstanding c)"
        "jq_calls (jx_q c') = (jq_calls (jx_q c))(ids ! unat (js_Idx r) := \<lparr>jc_resp = Some r, jc_done = True\<rparr>)"
        "jx_completed c' = ids ! unat (js_Idx r) # jx_completed c"
      using jnet_recv_inv [OF inv o _ open_ False] n by auto
    have "\<not> jc_done (jq_calls (jx_q c) (ids ! unat (js_Idx r)))" "distinct (places c)"
      using inv c'(3) by (simp_all add: jnet_inv_def)
    moreover have "jnet_reach c'" by (rule jnet_reach.step [OF reach jnet_step.recv [OF o c'(1)]])
    ultimately show ?thesis using c' False by auto
  qed
qed

text \<open>What is left to do before every caller has returned, and the steps that reduce it.\<close>

definition jnet_work :: "jclient \<Rightarrow> nat" where
  "jnet_work c = 5 * length (jx_trying c) + 4 * length (jx_chan c) + 3 * length (jx_cur c)
     + 2 * length (outstanding c) + length (jx_completed c)"

definition unsent :: "jclient \<Rightarrow> nat" where
  "unsent c = length (jx_trying c) + length (jx_chan c) + length (jx_cur c)"

lemma remove1_length: "x \<in> set xs \<Longrightarrow> Suc (length (remove1 x xs)) = length xs"
  by (simp add: length_remove1) (metis Suc_pred length_pos_if_in_set)

text \<open>The calls that have their response and can take its body.\<close>

definition bodies_there :: "jclient \<Rightarrow> bool" where
  "bodies_there c \<longleftrightarrow> (\<forall>i \<in> set (jx_completed c). \<exists>r b. jc_resp (jq_calls (jx_q c) i) = Some r \<and> js_Body r = Some b)"

lemma bodies_there_same:
  "jq_calls (jx_q c') = jq_calls (jx_q c) \<Longrightarrow> set (jx_completed c') \<subseteq> set (jx_completed c) \<Longrightarrow> bodies_there c \<Longrightarrow> bodies_there c'"
  by (auto simp: bodies_there_def)

lemma jnet_moves_calls:
  "jnet_tick c = Some (Inr c') \<Longrightarrow> jq_calls (jx_q c') = jq_calls (jx_q c) \<and> jx_completed c' = jx_completed c"
  "jnet_take c = Some (Inr c') \<Longrightarrow> jq_calls (jx_q c') = jq_calls (jx_q c) \<and> jx_completed c' = jx_completed c"
  "jnet_submit c i = Some c' \<Longrightarrow> jq_calls (jx_q c') = jq_calls (jx_q c) \<and> jx_completed c' = jx_completed c"
  by (auto simp: jnet_tick_def jnet_take_def jnet_submit_def jnet_flush_def register_batch_def Let_def
      split: list.splits if_splits)

lemma jnet_progress:
  assumes inv: "jnet_inv c" and open_: "\<not> jx_closed c" and n: "length (jx_sent c) + unsent c < 2 ^ 64" and w: "jnet_work c \<noteq> 0"
    and b: "bodies_there c"
  shows "\<exists>c'. jnet_step c c' \<and> jnet_work c' < jnet_work c \<and> jnet_inv c' \<and> \<not> jx_closed c'
    \<and> length (jx_sent c') + unsent c' < 2 ^ 64 \<and> bodies_there c'"
proof -
  have lt: "length (jx_sent c) < 2 ^ 64" and le: "length (jx_sent c) \<le> 2 ^ 64" using n by simp_all
  consider (ret) i where "i \<in> set (jx_completed c)" | (answer) i where "i \<in> set (outstanding c)"
    | (cur) "jx_cur c \<noteq> []" | (chan) "jx_cur c = []" "jx_chan c \<noteq> []" | (again) i where "i \<in> set (jx_trying c)" "jx_chan c = []"
  proof -
    have "jx_completed c \<noteq> [] \<or> outstanding c \<noteq> [] \<or> jx_cur c \<noteq> [] \<or> jx_chan c \<noteq> [] \<or> jx_trying c \<noteq> []"
      using w by (auto simp: jnet_work_def)
    then show thesis using that by (metis list.set_intros(1) neq_Nil_conv)
  qed
  then show ?thesis
  proof cases
    case ret
    obtain r body where r: "jc_resp (jq_calls (jx_q c) i) = Some r" "js_Body r = Some body"
      using b ret by (auto simp: bodies_there_def)
    then obtain c' res where c': "jnet_return c i = Inr (c', res)" by (simp add: jnet_return_def jnet_Get_result_def)
    have "bodies_there c'"
      by (rule bodies_there_same [OF _ _ b])
        (use c' set_remove1_subset [of i "jx_completed c"] in \<open>auto simp: jnet_return_Inr\<close>)
    moreover have "jnet_work c' < jnet_work c" "jx_sent c' = jx_sent c" "unsent c' = unsent c" "jx_closed c' = jx_closed c"
      using c' remove1_length [OF ret] by (auto simp: jnet_work_def outstanding_def jnet_return_Inr unsent_def)
    ultimately show ?thesis using jnet_step.return [OF ret c'] jnet_return_inv [OF inv ret c'] open_ n by metis
  next
    case answer
    then obtain k ids j where k: "(k, ids) \<in> set (jx_sent c)" "j < length ids" "(k, j) \<notin> set (jx_answered c)"
      by (auto simp: outstanding_def missing_def)
    have "length ids \<le> 64" using inv k(1) by (auto simp: jnet_inv_def list_all_iff inflight_ok_def)
    then have j: "unat (word_of_nat j :: u32) = j" using k(2) by (simp add: unat_of_nat)
    define r where "r = new_jresponse\<lparr>js_BatchId := k, js_Idx := word_of_nat j, js_ContentLen := 1, js_Body := Some [0]\<rparr>"
    have o: "owed c (js_BatchId r) (unat (js_Idx r))" using k j by (auto simp: owed_def r_def)
    have cl: "js_ContentLen r \<noteq> 0" by (simp add: r_def)
    obtain c' o' where c': "jnet_recv c r = Inr c'" "jx_completed c' = o' # jx_completed c" "jnet_inv c'"
        "mset (outstanding c) = add_mset o' (mset (outstanding c'))" "jx_trying c' = jx_trying c" "jx_chan c' = jx_chan c"
        "jx_cur c' = jx_cur c" "jx_sent c' = jx_sent c" "jx_closed c' = jx_closed c"
        "jq_calls (jx_q c') = (jq_calls (jx_q c))(o' := \<lparr>jc_resp = Some r, jc_done = True\<rparr>)"
      using jnet_recv_inv [OF inv o le open_ cl] by blast
    have "js_Body r = Some [0]" by (simp add: r_def)
    then have "bodies_there c'" using b c'(2,10) by (auto simp: bodies_there_def)
    have "length (outstanding c) = Suc (length (outstanding c'))" using arg_cong [OF c'(4), of size] by simp
    then have "jnet_work c' < jnet_work c" "unsent c' = unsent c" using c' by (simp_all add: jnet_work_def unsent_def)
    then show ?thesis using \<open>bodies_there c'\<close> jnet_step.recv [OF o c'(1)] c' open_ n by metis
  next
    case cur
    obtain c' where c': "jnet_tick c = Some (Inr c')" using cur open_ by (simp add: jnet_tick_def jnet_flush_def register_batch_def)
    note t = jnet_tick_inv [OF inv lt c']
    have "length (jx_cur c) > 0" using cur by simp
    then have "jnet_work c' < jnet_work c" "length (jx_sent c') + unsent c' \<le> length (jx_sent c) + unsent c"
      using t by (simp_all add: jnet_work_def unsent_def del: length_greater_0_conv)
    moreover have "bodies_there c'" using bodies_there_same [OF _ _ b] jnet_moves_calls(1) [OF c'] by simp
    ultimately show ?thesis using jnet_step.tick [OF c'] t open_ n by (metis order_le_less_trans)
  next
    case chan
    then obtain c' where c': "jnet_take c = Some (Inr c')" by (auto simp: jnet_take_def neq_Nil_conv Let_def)
    note t = jnet_take_inv [OF inv lt c']
    have "jnet_work c' < jnet_work c" "length (jx_sent c') + unsent c' \<le> length (jx_sent c) + unsent c"
      using t chan(1) by (auto simp: jnet_work_def unsent_def)
    moreover have "bodies_there c'" using bodies_there_same [OF _ _ b] jnet_moves_calls(2) [OF c'] by simp
    ultimately show ?thesis using jnet_step.take [OF c'] t open_ n by (metis order_le_less_trans)
  next
    case again
    obtain c' where c': "jnet_submit c i = Some c'" using again(2) by (simp add: jnet_submit_def jnet_chan_size_def)
    have "jnet_work c' < jnet_work c" "unsent c' = unsent c" "jx_sent c' = jx_sent c" "jx_closed c' = jx_closed c"
      using c' remove1_length [OF again(1)] by (auto simp: jnet_submit_def jnet_work_def unsent_def outstanding_def split: if_splits)
    moreover have "bodies_there c'" using bodies_there_same [OF _ _ b] jnet_moves_calls(3) [OF c'] by simp
    ultimately show ?thesis using jnet_step.submit [OF again(1) c'] jnet_submit_inv [OF inv again(1) c'] open_ n by metis
  qed
qed

lemma jnet_drains:
  "jnet_inv c \<Longrightarrow> \<not> jx_closed c \<Longrightarrow> length (jx_sent c) + unsent c < 2 ^ 64 \<Longrightarrow> bodies_there c \<Longrightarrow>
     \<exists>c'. jnet_step\<^sup>*\<^sup>* c c' \<and> jnet_work c' = 0 \<and> jnet_inv c'"
proof (induction "jnet_work c" arbitrary: c rule: less_induct)
  case less
  show ?case
  proof (cases "jnet_work c = 0")
    case False
    obtain c1 where "jnet_step c c1" "jnet_work c1 < jnet_work c" "jnet_inv c1" "\<not> jx_closed c1"
        "length (jx_sent c1) + unsent c1 < 2 ^ 64" "bodies_there c1"
      using jnet_progress [OF less(2-4) False less(5)] by blast
    then show ?thesis using less(1) [of c1] by (metis converse_rtranclp_into_rtranclp)
  qed (use less(2) in blast)
qed

text \<open>
  C13. No caller is stuck: from every state the client can be in before \<open>Close\<close> in which no response has lost its
  body, callers, workers, ticks and a server that answers what it was sent with content can go on until every call has returned: nothing is left with a
  caller, in the channel, in the batch being gathered or in the table of batches in flight, although the
  channel is bounded, a caller before a full channel only tries again, and an incomplete batch waits for a tick.
\<close>

theorem jnet_calls_return:
  assumes "jnet_reach c" "\<not> jx_closed c" "length (jx_sent c) + unsent c < 2 ^ 64" "bodies_there c"
  shows "\<exists>c'. jnet_step\<^sup>*\<^sup>* c c' \<and> jx_trying c' = [] \<and> jx_chan c' = [] \<and> jx_cur c' = [] \<and> outstanding c' = []
    \<and> jx_completed c' = [] \<and> (\<forall>b \<in> set (jx_sent c'). jq_inflight (jx_q c') (fst b) = None)"
proof -
  have "jnet_inv c" using jnet_reach_inv [OF assms(1)] assms(3) by simp
  from jnet_drains [OF this assms(2-4)] obtain c' where c': "jnet_step\<^sup>*\<^sup>* c c'" "jnet_work c' = 0" "jnet_inv c'" by blast
  then have "outstanding c' = []" by (simp add: jnet_work_def)
  then have "missing (jx_answered c') b = []" if "b \<in> set (jx_sent c')" for b using that by (simp add: outstanding_def)
  then have "jq_inflight (jx_q c') (fst b) = None" if "b \<in> set (jx_sent c')" for b
    using c'(3) that by (auto simp: jnet_inv_def list_all_iff inflight_ok_def)
  then show ?thesis using c'(1,2) by (intro exI [of _ c']) (auto simp: jnet_work_def)
qed

text \<open>
  Nothing else is needed to end a process than to end a connection: the receive workers of both sides panic when
  fewer than 64 bytes of a header come, so a client that closes takes itself and the server down.
\<close>

lemma jnet_disconnect_panics:
  assumes "length (concat ss) < 64"
  shows "\<exists>rest. recv_responses arr pool bufs ss = (Inl (Panic ''read''), rest)"
    and "\<exists>arr' rest. recv_batch arr reqs ss = (Inl (Panic ''read''), arr', rest)"
    and "jnet_recv (jnet_Close c) r = Inl (Panic ''read'')"
  using assms by (auto simp: recv_responses_def recv_batch_def jnet_recv_def jnet_Close_def read_full_def Let_def)

section \<open>A call on its way\<close>

definition way_started :: jclient where
  "way_started = jnet_Get_start (projr (jnet_NewClient None False True)) 2 [] None"

definition way_queued :: jclient where
  "way_queued = the (jnet_submit way_started 0)"

definition way_taken :: jclient where
  "way_taken = projr (the (jnet_take way_queued))"

definition way_sent :: jclient where
  "way_sent = projr (the (jnet_tick way_taken))"

lemmas way_defs = way_started_def way_queued_def way_taken_def way_sent_def jnet_NewClient_def jnet_NewIOQueue_def jnet_Get_start_def
  jnet_submit_def jnet_take_def jnet_tick_def jnet_flush_def register_batch_def jnet_chan_size_def Let_def

lemma way_reach: "jnet_reach way_started" "jnet_reach way_sent"
proof -
  have "jnet_reach (projr (jnet_NewClient None False True))" by (rule jnet_reach.start [of False True]) (simp add: jnet_NewClient_def jnet_NewIOQueue_def)
  then show 1: "jnet_reach way_started" unfolding way_started_def by (rule jnet_reach.step) (rule jnet_step.get)
  have "jnet_reach way_queued" by (rule jnet_reach.step [OF 1 jnet_step.submit [of 0]]) (simp_all add: way_defs)
  then have "jnet_reach way_taken" by (rule jnet_reach.step [OF _ jnet_step.take]) (simp add: way_defs)
  then show "jnet_reach way_sent" by (rule jnet_reach.step [OF _ jnet_step.tick]) (simp add: way_defs)
qed

definition way_response :: jresponse where
  "way_response = new_jresponse\<lparr>js_ContentLen := 2, js_Body := Some [10, 20]\<rparr>"

theorem jnet_response_reaches_caller_witness:
  "\<exists>c'. jnet_recv way_sent way_response = Inr c' \<and> jx_completed c' = [0]
     \<and> jq_calls (jx_q c') 0 = \<lparr>jc_resp = Some way_response, jc_done = True\<rparr>"
proof -
  have s: "length (jx_sent way_sent) < 2 ^ 64" "\<not> jx_closed way_sent" "jx_sent way_sent = [(0, [0])]" "jx_completed way_sent = []"
    by (simp_all add: way_defs)
  have r: "js_BatchId way_response = 0" "js_Idx way_response = 0" "js_ContentLen way_response \<noteq> 0"
    by (simp_all add: way_response_def new_jresponse_def)
  have o: "owed way_sent (js_BatchId way_response) (unat (js_Idx way_response))"
    by (simp add: owed_def s(3) r) (simp add: way_defs)
  show ?thesis using jnet_response_reaches_caller [OF way_reach(2) s(1,2) o] s(3,4) r by auto
qed

theorem jnet_calls_return_witness:
  "\<exists>c'. jnet_step\<^sup>*\<^sup>* way_started c' \<and> jx_trying c' = [] \<and> jx_trying way_started = [0]"
proof -
  have "\<not> jx_closed way_started" "length (jx_sent way_started) + unsent way_started < 2 ^ 64" "jx_trying way_started = [0]"
      "bodies_there way_started"
    by (simp_all add: way_defs unsent_def bodies_there_def)
  with jnet_calls_return [OF way_reach(1)] show ?thesis by auto
qed

end
