(* ===== verification/Body_Buffers.thy ===== *)
theory Body_Buffers
  imports Jnet "HOL-Library.Multiset"
begin

text \<open>
  The reference counted body buffers of \<open>common/response.go\<close> and their use: the \<open>Get\<close> of \<open>perf\<close> and
  \<open>tcpsendfile\<close>, \<open>response.Read\<close> of \<open>tcppool\<close>, \<open>recvWorker\<close> of \<open>jnet\<close>, and the benchmark loop of
  \<open>cmd/rpcbench\<close>, which drops the reference it was given. Buffers are numbered in the order they are
  made; every \<open>Release\<close> of the program puts the buffer back into the pool it came from.
\<close>

section \<open>Buffers and their pool\<close>

text \<open>
  \<open>bf_ref\<close> is the atomic 32-bit counter of a buffer, \<open>bf_pool\<close> what the \<open>sync.Pool\<close> holds. Two fields are
  history: \<open>bf_held\<close> the references callers still have to drop, and \<open>bf_waiting\<close> the buffers that the
  responses of the batch \<open>recvWorker\<close> works on are yet to be given (\<open>None\<close>: the body crosses two buffers).
\<close>

record buffers =
  bf_ref :: "nat \<Rightarrow> u32"
  bf_pool :: "nat list"
  bf_next :: nat
  bf_held :: "nat list"
  bf_waiting :: "nat option list"

definition no_buffers :: buffers where
  "no_buffers = \<lparr>bf_ref = (\<lambda>b. 0), bf_pool = [], bf_next = 0, bf_held = [], bf_waiting = []\<rparr>"

definition bb_Inc :: "nat \<Rightarrow> buffers \<Rightarrow> buffers" where
  "bb_Inc b s = s\<lparr>bf_ref := (bf_ref s)(b := bf_ref s b + 1)\<rparr>"

definition bb_Dec :: "nat \<Rightarrow> buffers \<Rightarrow> buffers" where
  "bb_Dec b s =
     (let r = bf_ref s b - 1; s' = s\<lparr>bf_ref := (bf_ref s)(b := r)\<rparr> in
      if r = 0 then s'\<lparr>bf_pool := b # bf_pool s'\<rparr> else s')"

text \<open>\<open>Pool.Get\<close> gives any buffer the pool holds, here the \<open>i\<close>-th, or a new one.\<close>

definition bf_Get :: "nat \<Rightarrow> buffers \<Rightarrow> nat \<times> buffers" where
  "bf_Get i s =
     (if i < length (bf_pool s)
      then (bf_pool s ! i, s\<lparr>bf_pool := take i (bf_pool s) @ drop (Suc i) (bf_pool s)\<rparr>)
      else (bf_next s, s\<lparr>bf_next := Suc (bf_next s)\<rparr>))"

text \<open>
  A buffer for one response: \<open>Get\<close> of \<open>perf\<close> and \<open>tcpsendfile\<close>, and \<open>response.Read\<close> of \<open>tcppool\<close> for a
  payload that is not compressed. For a compressed one \<open>Read\<close> takes a second buffer to unpack into, and
  the first is left to the garbage collector.
\<close>

definition hold :: "nat \<Rightarrow> buffers \<Rightarrow> buffers" where
  "hold b s = (bb_Inc b s)\<lparr>bf_held := b # bf_held s\<rparr>"

definition plain_body :: "nat \<Rightarrow> buffers \<Rightarrow> buffers" where
  "plain_body i s = (case bf_Get i s of (b, s1) \<Rightarrow> hold b s1)"

definition packed_body :: "nat \<Rightarrow> nat \<Rightarrow> buffers \<Rightarrow> buffers" where
  "packed_body i j s = (case bf_Get i s of (b, s1) \<Rightarrow> plain_body j s1)"

text \<open>A payload that turns out to be an error text, or fails to arrive, leaves its buffer unused.\<close>

definition failed_body :: "nat \<Rightarrow> buffers \<Rightarrow> buffers" where
  "failed_body i s = snd (bf_Get i s)"

text \<open>The benchmark loop: \<open>res.BB.Dec()\<close>.\<close>

definition drop_body :: "nat \<Rightarrow> buffers \<Rightarrow> buffers" where
  "drop_body b s = bb_Dec b (s\<lparr>bf_held := remove1 b (bf_held s)\<rparr>)"

inductive buf_step :: "buffers \<Rightarrow> buffers \<Rightarrow> bool" where
  plain: "buf_step s (plain_body i s)"
| packed: "buf_step s (packed_body i j s)"
| failed: "buf_step s (failed_body i s)"
| dropped: "b \<in> set (bf_held s) \<Longrightarrow> buf_step s (drop_body b s)"

inductive buf_reach :: "buffers \<Rightarrow> bool" where
  start: "buf_reach no_buffers"
| step: "buf_reach s \<Longrightarrow> buf_step s s' \<Longrightarrow> buf_reach s'"

section \<open>One buffer, one response\<close>

definition buf_inv :: "buffers \<Rightarrow> bool" where
  "buf_inv s \<longleftrightarrow> distinct (bf_pool s @ bf_held s) \<and> (\<forall>b \<in> set (bf_pool s @ bf_held s). b < bf_next s)
     \<and> (\<forall>b. bf_ref s b = (if b \<in> set (bf_held s) then 1 else 0))"

lemma bf_Get_inv:
  assumes "bf_Get i s = (b, s')" "buf_inv s"
  shows "buf_inv s'" and "b \<notin> set (bf_pool s') \<union> set (bf_held s')" and "b < bf_next s'"
proof -
  have "buf_inv s' \<and> b \<notin> set (bf_pool s') \<union> set (bf_held s') \<and> b < bf_next s'"
  proof (cases "i < length (bf_pool s)")
    case True
    have "mset (bf_pool s) = mset (bf_pool s ! i # take i (bf_pool s) @ drop (Suc i) (bf_pool s))"
      using id_take_nth_drop [OF True] by (metis append_Cons mset_append union_mset_add_mset_right mset.simps(2))
    then have m: "mset (bf_pool s @ bf_held s) =
        mset (bf_pool s ! i # (take i (bf_pool s) @ drop (Suc i) (bf_pool s)) @ bf_held s)" by simp
    show ?thesis
      using assms True mset_eq_imp_distinct_iff [OF m] mset_eq_setD [OF m]
      by (auto simp: bf_Get_def buf_inv_def)
  next
    case False
    then show ?thesis using assms by (auto simp: bf_Get_def buf_inv_def less_Suc_eq)
  qed
  then show "buf_inv s'" "b \<notin> set (bf_pool s') \<union> set (bf_held s')" "b < bf_next s'" by simp_all
qed

lemma hold_inv: "buf_inv s \<Longrightarrow> b \<notin> set (bf_pool s) \<union> set (bf_held s) \<Longrightarrow> b < bf_next s \<Longrightarrow> buf_inv (hold b s)"
  by (auto simp: buf_inv_def hold_def bb_Inc_def)

lemma plain_body_inv: "buf_inv s \<Longrightarrow> buf_inv (plain_body i s)"
  by (auto simp: plain_body_def split: prod.splits intro!: hold_inv dest: bf_Get_inv)

lemma drop_body_inv: "buf_inv s \<Longrightarrow> b \<in> set (bf_held s) \<Longrightarrow> buf_inv (drop_body b s)"
  by (auto simp: buf_inv_def drop_body_def bb_Dec_def Let_def)

lemma buf_reach_inv: "buf_reach s \<Longrightarrow> buf_inv s"
proof (induction rule: buf_reach.induct)
  case start
  then show ?case by (simp add: buf_inv_def no_buffers_def)
next
  case (step s s')
  have get: "buf_inv (snd (bf_Get i s))" for i by (rule bf_Get_inv(1) [OF surjective_pairing step.IH])
  from step(2) show ?case
    by cases (use step.IH get in \<open>auto simp: packed_body_def failed_body_def case_prod_unfold
        intro: plain_body_inv drop_body_inv\<close>)
qed

lemma count_distinct: "distinct xs \<Longrightarrow> count_list xs x = (if x \<in> set xs then 1 else 0)"
  by (induction xs) auto

text \<open>
  C20. The pooled buffer that a caller of \<open>perf\<close> or \<open>tcppool\<close> holds, or that \<open>tcpsendfile\<close> attaches to its
  response (whose body is the package-wide \<open>staticBuf\<close>, not this buffer), is nobody else's:
  however calls interleave, it is not in the pool, no other call holds it, the next \<open>Get\<close> does not hand it
  out, and dropping the reference puts it back exactly once.
\<close>

theorem held_buffers_are_exclusive:
  assumes "buf_reach s" "b \<in> set (bf_held s)"
  shows "count_list (bf_held s) b = 1 \<and> b \<notin> set (bf_pool s) \<and> fst (bf_Get i s) \<noteq> b
     \<and> bf_ref s b = 1 \<and> count_list (bf_pool (drop_body b s)) b = 1"
proof -
  have i: "buf_inv s" by (rule buf_reach_inv [OF assms(1)])
  have "count_list (bf_held s) b = 1"
    using i assms(2) by (simp add: buf_inv_def count_distinct)
  moreover have "b \<notin> set (bf_pool s)" "bf_ref s b = 1" "b < bf_next s"
    using i assms(2) by (auto simp: buf_inv_def)
  moreover have "fst (bf_Get i s) \<noteq> b"
    using \<open>b \<notin> set (bf_pool s)\<close> \<open>b < bf_next s\<close> by (auto simp: bf_Get_def)
  ultimately show ?thesis by (simp add: drop_body_def bb_Dec_def)
qed

theorem held_buffers_are_exclusive_witness:
  "count_list (bf_held (packed_body 0 0 (plain_body 0 no_buffers))) 2 = 1 \<and>
   bf_ref (packed_body 0 0 (plain_body 0 no_buffers)) 2 = 1"
proof -
  have "buf_reach (packed_body 0 0 (plain_body 0 no_buffers))"
    by (rule buf_reach.step [OF buf_reach.step [OF buf_reach.start buf_step.plain] buf_step.packed])
  moreover have "(2::nat) \<in> set (bf_held (packed_body 0 0 (plain_body 0 no_buffers)))" by code_simp
  ultimately show ?thesis using held_buffers_are_exclusive [of _ 2 0] by blast
qed

section \<open>One buffer, a batch of responses\<close>

text \<open>
  \<open>recvWorker\<close> of \<open>jnet\<close>: the buffers of a batch, and for each response the buffer its body lies in
  (the loop of \<open>assign_bodies\<close> with the lengths alone).
\<close>

fun take_buffers :: "nat list \<Rightarrow> buffers \<Rightarrow> nat list \<times> buffers" where
  "take_buffers [] s = ([], s)"
| "take_buffers (i # is') s = (case bf_Get i s of (b, s1) \<Rightarrow> case take_buffers is' s1 of (bs, s2) \<Rightarrow> (b # bs, s2))"

fun body_targets :: "nat \<Rightarrow> nat \<Rightarrow> nat list \<Rightarrow> nat option list" where
  "body_targets off idx [] = []"
| "body_targets off idx (n # ns) =
     (if off + n \<le> body_buf
      then Some idx # (if off + n = body_buf then body_targets 0 (idx + 1) ns else body_targets (off + n) idx ns)
      else None # body_targets (n - (body_buf - off)) (idx + 1) ns)"

definition jnet_fetch :: "nat list \<Rightarrow> nat list \<Rightarrow> buffers \<Rightarrow> buffers" where
  "jnet_fetch choices lens s =
     (case take_buffers choices s of
        (bs, s1) \<Rightarrow> s1\<lparr>bf_waiting := map (map_option (\<lambda>i. bs ! i)) (body_targets 0 0 lens)\<rparr>)"

text \<open>
  The next response gets its body and is handed to its caller, whose \<open>Get\<close> returns \<open>resp.bdBuf\<close>. A body
  that crosses two buffers leaves \<open>bdBuf\<close> what the pooled response object had, \<open>stale\<close>.
\<close>

definition jnet_assign :: "nat option \<Rightarrow> buffers \<Rightarrow> buffers" where
  "jnet_assign stale s =
     (case bf_waiting s of
        [] \<Rightarrow> s
      | Some b # ws \<Rightarrow> (hold b s)\<lparr>bf_waiting := ws\<rparr>
      | None # ws \<Rightarrow> s\<lparr>bf_waiting := ws,
          bf_held := (case stale of None \<Rightarrow> bf_held s | Some b \<Rightarrow> b # bf_held s)\<rparr>)"

lemma body_targets_one:
  "off + sum_list lens \<le> body_buf \<Longrightarrow> list_all (\<lambda>n. 0 < n) lens \<Longrightarrow>
     body_targets off idx lens = replicate (length lens) (Some idx)"
proof (induction lens arbitrary: off)
  case (Cons n ns)
  show ?case
  proof (cases "off + n = body_buf")
    case True
    then have "ns = []" using Cons.prems by (cases ns) auto
    then show ?thesis using True by simp
  next
    case False
    then show ?thesis using Cons.IH [of "off + n"] Cons.prems by simp
  qed
qed simp

lemma length_le_sum: "list_all (\<lambda>n. 0 < n) lens \<Longrightarrow> length lens \<le> sum_list lens" for lens :: "nat list"
  by (induction lens) auto

lemma hold_sel [simp]:
  "bf_pool (hold b s) = bf_pool s" "bf_ref (hold b s) = (bf_ref s)(b := bf_ref s b + 1)"
  "bf_held (hold b s) = b # bf_held s" "bf_next (hold b s) = bf_next s" "bf_waiting (hold b s) = bf_waiting s"
  by (simp_all add: hold_def bb_Inc_def)

lemma assign_all:
  "bf_waiting s = replicate n (Some b) \<Longrightarrow>
     bf_ref ((jnet_assign None ^^ n) s) b = bf_ref s b + word_of_nat n \<and>
     bf_pool ((jnet_assign None ^^ n) s) = bf_pool s"
proof (induction n arbitrary: s)
  case (Suc n)
  have "bf_waiting (jnet_assign None s) = replicate n (Some b)" "bf_pool (jnet_assign None s) = bf_pool s"
      "bf_ref (jnet_assign None s) b = bf_ref s b + 1"
    using Suc.prems by (simp_all add: jnet_assign_def)
  then show ?case using Suc.IH [of "jnet_assign None s"] by (simp add: funpow_swap1)
qed simp

lemma drop_body_early: "bf_ref s b \<noteq> 1 \<Longrightarrow>
    bf_pool (drop_body b s) = bf_pool s \<and> bf_ref (drop_body b s) b = bf_ref s b - 1"
  by (simp add: drop_body_def bb_Dec_def Let_def)

lemma drop_body_last: "bf_ref s b = 1 \<Longrightarrow> bf_pool (drop_body b s) = b # bf_pool s"
  by (simp add: drop_body_def bb_Dec_def)

lemma word_of_nat_pos: "0 < n \<Longrightarrow> n < 2 ^ 32 \<Longrightarrow> (word_of_nat n :: u32) \<noteq> 0"
proof
  assume n: "0 < n" "n < 2 ^ 32" and z: "(word_of_nat n :: u32) = 0"
  have "unat (word_of_nat n :: u32) = n" using n by (simp add: unat_of_nat take_bit_nat_eq_self)
  then show False unfolding z using n by simp
qed

lemma drop_all:
  "bf_ref s b = word_of_nat n \<Longrightarrow> 0 < n \<Longrightarrow> n < 2 ^ 32 \<Longrightarrow>
     bf_pool ((drop_body b ^^ n) s) = b # bf_pool s"
proof (induction n arbitrary: s)
  case (Suc n)
  show ?case
  proof (cases "n = 0")
    case True
    then show ?thesis using Suc.prems by (simp add: drop_body_last)
  next
    case False
    have "word_of_nat (Suc n) \<noteq> (1 :: u32)"
      using Suc.prems(3) False word_of_nat_pos [of n] by simp
    then have "bf_pool (drop_body b s) = bf_pool s" "bf_ref (drop_body b s) b = word_of_nat n"
      using drop_body_early [of s b] Suc.prems(1) by auto
    then show ?thesis using Suc.IH [of "drop_body b s"] Suc.prems(3) False by (simp add: funpow_swap1)
  qed
qed simp

text \<open>
  C23. The responses of a \<open>jnet\<close> batch share a buffer, and each takes its reference only when it is handed
  out. If all are handed out before the first caller drops its reference, the buffer goes back to the pool
  once. If the first caller is quicker, it goes back while the other responses still wait for their
  bodies, and the next \<open>Get\<close> hands out the same memory.
\<close>

theorem jnet_batch_shares_buffer:
  assumes "bf_Get i s = (b, s0)" "bf_ref s b = 0" "b \<notin> set (bf_pool s0)"
    and "2 \<le> length lens" "list_all (\<lambda>n. 0 < n) lens" "sum_list lens \<le> body_buf"
  shows "count_list (bf_pool ((drop_body b ^^ length lens) ((jnet_assign None ^^ length lens) (jnet_fetch [i] lens s)))) b = 1
     \<and> bf_waiting (drop_body b (jnet_assign None (jnet_fetch [i] lens s))) = replicate (length lens - 1) (Some b)
     \<and> fst (bf_Get 0 (drop_body b (jnet_assign None (jnet_fetch [i] lens s)))) = b"
proof -
  let ?n = "length lens"
  obtain m where m: "?n = Suc m" using assms(4) by (cases ?n) auto
  have "?n \<le> body_buf" using length_le_sum [OF assms(5)] assms(6) by linarith
  then have n: "0 < ?n" "?n < 2 ^ 32" using assms(4) by (auto simp: body_buf_def)
  have r: "bf_ref s0 = bf_ref s" using assms(1) by (auto simp: bf_Get_def split: if_splits)
  have f: "jnet_fetch [i] lens s = s0\<lparr>bf_waiting := replicate ?n (Some b)\<rparr>"
    using assms(1) body_targets_one [of 0 lens 0] assms(5,6) by (simp add: jnet_fetch_def)
  let ?s = "s0\<lparr>bf_waiting := replicate ?n (Some b)\<rparr>"
  have "bf_pool ((drop_body b ^^ ?n) ((jnet_assign None ^^ ?n) ?s)) = b # bf_pool s0"
    using assign_all [of ?s ?n b] drop_all [of "(jnet_assign None ^^ ?n) ?s" b ?n] n assms(2) r by simp
  then have all: "count_list (bf_pool ((drop_body b ^^ ?n) ((jnet_assign None ^^ ?n) ?s))) b = 1"
    using assms(3) by simp
  have one: "jnet_assign None ?s = (hold b ?s)\<lparr>bf_waiting := replicate m (Some b)\<rparr>"
    using m by (simp add: jnet_assign_def)
  have "bf_pool (drop_body b (jnet_assign None ?s)) = b # bf_pool s0"
    unfolding one using assms(2) r by (subst drop_body_last) simp_all
  moreover have "bf_waiting (drop_body b (jnet_assign None ?s)) = replicate m (Some b)"
    unfolding one by (simp add: drop_body_def bb_Dec_def Let_def)
  ultimately show ?thesis using all m by (simp add: f bf_Get_def)
qed

theorem jnet_batch_shares_buffer_witness:
  "fst (bf_Get 0 (drop_body 0 (jnet_assign None (jnet_fetch [0] [131072, 131072] no_buffers)))) = 0"
  using jnet_batch_shares_buffer [of 0 no_buffers 0 "no_buffers\<lparr>bf_next := 1\<rparr>" "[131072, 131072]"]
  by (simp add: bf_Get_def no_buffers_def body_buf_def)

end
