(* ===== verification/Work_Pool.thy ===== *)
theory Work_Pool
  imports Net_Prelude "HOL-Library.Multiset"
begin

text \<open>
  The worker pool of \<open>pkg/net/jnet/pool.go\<close>: a worker is a goroutine with a channel of its own, and the
  pool keeps a stack of the workers that wait. \<open>Submit\<close> sends to the worker on top, or starts a new one;
  a worker that has handled a request puts itself back on the stack and waits on its channel. The channels
  are unbuffered and never closed and no nil is sent, so a worker never ends and \<open>sync.Pool\<close> always makes
  a fresh entry.
\<close>

section \<open>The pool and its steps\<close>

text \<open>
  Entries are numbers. \<open>wp_sending\<close> holds the submitters that are blocked in the send to the worker they
  took, \<open>wp_working\<close> the workers inside \<open>processRequest\<close>, \<open>wp_handled\<close> the history.
\<close>

record 'r work_pool =
  wp_ready :: "nat list"
  wp_sending :: "(nat \<times> 'r) list"
  wp_working :: "(nat \<times> 'r) list"
  wp_entries :: nat
  wp_handled :: "'r list"

definition NewWorkerPool :: "'r work_pool" where
  "NewWorkerPool = \<lparr>wp_ready = [], wp_sending = [], wp_working = [], wp_entries = 0, wp_handled = []\<rparr>"

definition wp_Submit :: "'r \<Rightarrow> 'r work_pool \<Rightarrow> 'r work_pool" where
  "wp_Submit r p =
     (if length (wp_ready p) > 0
      then p\<lparr>wp_ready := butlast (wp_ready p), wp_sending := wp_sending p @ [(last (wp_ready p), r)]\<rparr>
      else p\<lparr>wp_entries := wp_entries p + 1, wp_working := wp_working p @ [(wp_entries p, r)]\<rparr>)"

text \<open>The two halves of the loop in \<open>WorkFunc\<close>: the receive, which needs the worker at its channel,
  and the end of \<open>processRequest\<close> with the return to the stack.\<close>

definition wp_receive :: "nat \<Rightarrow> 'r \<Rightarrow> 'r work_pool \<Rightarrow> 'r work_pool option" where
  "wp_receive e r p =
     (if (e, r) \<in> set (wp_sending p) \<and> e \<notin> set (map fst (wp_working p))
      then Some (p\<lparr>wp_sending := remove1 (e, r) (wp_sending p), wp_working := wp_working p @ [(e, r)]\<rparr>)
      else None)"

definition wp_finish :: "nat \<Rightarrow> 'r \<Rightarrow> 'r work_pool \<Rightarrow> 'r work_pool option" where
  "wp_finish e r p =
     (if (e, r) \<in> set (wp_working p)
      then Some (p\<lparr>wp_working := remove1 (e, r) (wp_working p), wp_ready := wp_ready p @ [e], wp_handled := wp_handled p @ [r]\<rparr>)
      else None)"

inductive wp_run :: "'r work_pool \<Rightarrow> 'r list \<Rightarrow> 'r work_pool \<Rightarrow> bool" where
  wp_start: "wp_run p [] p"
| wp_submit: "wp_run p rs p' \<Longrightarrow> wp_run p (rs @ [r]) (wp_Submit r p')"
| wp_recv: "wp_run p rs p' \<Longrightarrow> wp_receive e r p' = Some p'' \<Longrightarrow> wp_run p rs p''"
| wp_end: "wp_run p rs p' \<Longrightarrow> wp_finish e r p' = Some p'' \<Longrightarrow> wp_run p rs p''"

text \<open>A step of a worker, without another request being submitted.\<close>

inductive wp_work :: "'r work_pool \<Rightarrow> 'r work_pool \<Rightarrow> bool" where
  work_receive: "wp_receive e r p = Some p' \<Longrightarrow> wp_work p p'"
| work_finish: "wp_finish e r p = Some p' \<Longrightarrow> wp_work p p'"

section \<open>Every request is handled once\<close>

text \<open>Each entry is in exactly one place, and each request submitted too.\<close>

definition wp_inv :: "'r list \<Rightarrow> 'r work_pool \<Rightarrow> bool" where
  "wp_inv rs p \<longleftrightarrow>
     mset (wp_ready p @ map fst (wp_sending p) @ map fst (wp_working p)) = mset [0..<wp_entries p] \<and>
     mset (wp_handled p @ map snd (wp_sending p) @ map snd (wp_working p)) = mset rs"

lemma mset_map_member: "x \<in> set xs \<Longrightarrow> mset (map f xs) = add_mset (f x) (mset (map f (remove1 x xs)))"
  by (metis image_mset_add_mset insert_DiffM mset_map mset_remove1 set_mset_mset)

lemma mset_butlast_last: "xs \<noteq> [] \<Longrightarrow> mset xs = add_mset (last xs) (mset (butlast xs))"
  by (metis append_butlast_last_id mset.simps(2) mset_append mset_single_iff_right union_mset_add_mset_right add_mset_add_single)

lemma wp_inv_Submit: "wp_inv rs p \<Longrightarrow> wp_inv (rs @ [r]) (wp_Submit r p)"
  using mset_butlast_last [of "wp_ready p"] by (auto simp: wp_inv_def wp_Submit_def simp del: mset_upt)

lemma wp_inv_receive: "wp_inv rs p \<Longrightarrow> wp_receive e r p = Some p' \<Longrightarrow> wp_inv rs p'"
  using mset_map_member [of "(e, r)" "wp_sending p" fst] mset_map_member [of "(e, r)" "wp_sending p" snd]
  by (auto simp: wp_inv_def wp_receive_def simp del: mset_map mset_remove1 split: if_splits)

lemma wp_inv_finish: "wp_inv rs p \<Longrightarrow> wp_finish e r p = Some p' \<Longrightarrow> wp_inv rs p'"
  using mset_map_member [of "(e, r)" "wp_working p" fst] mset_map_member [of "(e, r)" "wp_working p" snd]
  by (auto simp: wp_inv_def wp_finish_def simp del: mset_map mset_remove1 split: if_splits)

lemma wp_run_inv: "wp_run p rs p' \<Longrightarrow> p = NewWorkerPool \<Longrightarrow> wp_inv rs p'"
proof (induction rule: wp_run.induct)
  case (wp_start p)
  then show ?case by (simp add: wp_inv_def NewWorkerPool_def)
qed (auto intro: wp_inv_Submit wp_inv_receive wp_inv_finish)

text \<open>From any state the workers alone can finish: a blocked submitter's worker is always at its channel.\<close>

lemma wp_work_inv: "wp_work p p' \<Longrightarrow> wp_inv rs p \<Longrightarrow> wp_inv rs p'"
  by (cases rule: wp_work.cases) (auto intro: wp_inv_receive wp_inv_finish)

definition wp_left :: "'r work_pool \<Rightarrow> nat" where
  "wp_left p = 2 * length (wp_sending p) + length (wp_working p)"

lemma wp_progress: "wp_left p \<noteq> 0 \<Longrightarrow> \<exists>p'. wp_work p p' \<and> wp_left p' < wp_left p"
proof (cases "wp_working p")
  case (Cons w ws)
  obtain e r where w: "w = (e, r)" by (cases w)
  then obtain p' where p': "wp_finish e r p = Some p'" "p' = p\<lparr>wp_working := ws, wp_ready := wp_ready p @ [e], wp_handled := wp_handled p @ [r]\<rparr>"
    using Cons by (simp add: wp_finish_def)
  then show ?thesis using Cons by (intro exI [of _ p'] conjI work_finish [OF p'(1)]) (simp add: wp_left_def)
next
  case nw: Nil
  assume "wp_left p \<noteq> 0"
  then obtain e r ws where w: "wp_sending p = (e, r) # ws" using nw by (cases "wp_sending p") (auto simp: wp_left_def)
  then obtain p' where p': "wp_receive e r p = Some p'" "p' = p\<lparr>wp_sending := ws, wp_working := [(e, r)]\<rparr>"
    using nw by (simp add: wp_receive_def)
  then show ?thesis using w nw by (intro exI [of _ p'] conjI work_receive [OF p'(1)]) (simp add: wp_left_def)
qed

lemma wp_can_finish: "wp_inv rs p \<Longrightarrow> \<exists>p'. wp_work\<^sup>*\<^sup>* p p' \<and> wp_inv rs p' \<and> wp_left p' = 0"
proof (induction "wp_left p" arbitrary: p rule: less_induct)
  case less
  show ?case
  proof (cases "wp_left p = 0")
    case False
    then obtain p1 where p1: "wp_work p p1" "wp_left p1 < wp_left p" using wp_progress by blast
    then show ?thesis using less.hyps [OF p1(2) wp_work_inv [OF p1(1) less.prems]] by (meson converse_rtranclp_into_rtranclp)
  qed (use less.prems in blast)
qed

text \<open>
  C36. Whatever the order in which requests are submitted and workers run, no worker is sent to by two
  submitters or given a request while it has one, no request is handled twice, and from that very state
  the workers by themselves can go on until each request submitted has been handled.
\<close>

theorem workers_handle_each_request_once:
  assumes "wp_run NewWorkerPool rs p"
  shows "distinct (map fst (wp_sending p @ wp_working p)) \<and>
     mset (wp_handled p) \<subseteq># mset rs \<and>
     (\<exists>p'. wp_work\<^sup>*\<^sup>* p p' \<and> mset (wp_handled p') = mset rs)"
proof -
  have inv: "wp_inv rs p" by (rule wp_run_inv [OF assms refl])
  then have "distinct (wp_ready p @ map fst (wp_sending p) @ map fst (wp_working p))"
    unfolding wp_inv_def using mset_eq_imp_distinct_iff distinct_upt by blast
  moreover have "mset (wp_handled p) \<subseteq># mset rs"
    using inv unfolding wp_inv_def by (metis mset_append mset_subset_eq_add_left)
  moreover obtain p' where "wp_work\<^sup>*\<^sup>* p p'" "wp_inv rs p'" "wp_left p' = 0"
    using wp_can_finish [OF inv] by blast
  ultimately show ?thesis by (auto simp: wp_inv_def wp_left_def)
qed

theorem workers_handle_each_request_once_witness:
  "\<exists>p p'. wp_run NewWorkerPool ''abc'' p \<and> distinct (map fst (wp_sending p @ wp_working p)) \<and> wp_sending p = [(0, CHR ''c'')] \<and>
     wp_work\<^sup>*\<^sup>* p p' \<and> mset (wp_handled p') = mset ''abc''"
proof -
  define p1 where "p1 = \<lparr>wp_ready = [], wp_sending = [], wp_working = [(0::nat, CHR ''a''), (1, CHR ''b'')], wp_entries = 2, wp_handled = []\<rparr>"
  define p2 where "p2 = \<lparr>wp_ready = [0], wp_sending = [], wp_working = [(1::nat, CHR ''b'')], wp_entries = 2, wp_handled = ''a''\<rparr>"
  have "wp_run NewWorkerPool ''ab'' (wp_Submit (CHR ''b'') (wp_Submit (CHR ''a'') NewWorkerPool))"
    using wp_submit [OF wp_submit [OF wp_start, of NewWorkerPool "CHR ''a''"], of "CHR ''b''"] by simp
  then have "wp_run NewWorkerPool ''ab'' p1" by (simp add: wp_Submit_def NewWorkerPool_def p1_def numeral_2_eq_2)
  then have "wp_run NewWorkerPool ''ab'' p2" by (rule wp_end [where e = 0 and r = "CHR ''a''"]) (simp add: wp_finish_def p1_def p2_def)
  then have run: "wp_run NewWorkerPool ''abc'' (wp_Submit (CHR ''c'') p2)"
    using wp_submit [of NewWorkerPool "''ab''" p2 "CHR ''c''"] by simp
  have "wp_sending (wp_Submit (CHR ''c'') p2) = [(0, CHR ''c'')]" by (simp add: wp_Submit_def p2_def)
  then show ?thesis using run workers_handle_each_request_once [OF run] by blast
qed

end
