(* ===== verification/Block_Wire.thy ===== *)
theory Block_Wire
  imports Net_Prelude
begin

text \<open>
  The request and response formats of the plain block servers (\<open>tcppool\<close>, \<open>quic\<close>, \<open>gonet\<close>,
  \<open>tcpsendfile\<close> under \<open>pkg/net\<close>): a header of two or three bytes and the key, and a header of twelve
  bytes with the payload, its original size and its checksum. LZ4 is a parameter (record \<open>lz4\<close>);
  \<open>hash/crc32\<close> is defined bit by bit.
\<close>

section \<open>Requests\<close>

record block_request =
  br_CMD :: byte
  br_Key :: "byte list"
  br_compressOn :: bool
  br_crcOn :: bool

definition new_block_request :: block_request where
  "new_block_request = \<lparr>br_CMD = 0, br_Key = [], br_compressOn = False, br_crcOn = False\<rparr>"

text \<open>
  \<open>Write\<close> fills the 256-byte array of the request and writes the front of it. The first byte holds
  the command and the high bits of the key's length; \<open>flags\<close> says whether a byte of flags follows.
\<close>

definition request_buf :: nat where
  "request_buf = 256"

definition head_size :: "bool \<Rightarrow> nat" where
  "head_size flags = (if flags then 3 else 2)"

definition request_head :: "bool \<Rightarrow> block_request \<Rightarrow> byte list" where
  "request_head flags r =
     (let n = length (br_Key r);
          b0 = br_CMD r AND 0xF;
          b2 = (if br_compressOn r then 1 else 0) OR (if br_crcOn r then 2 else 0) in
      [if n > 255 then b0 + push_bit 4 (word_of_nat (n div 256)) else b0, word_of_nat n]
        @ (if flags then [b2] else []))"

definition put_request :: "bool \<Rightarrow> block_request \<Rightarrow> go_error + byte list" where
  "put_request flags r =
     (let head = request_head flags r;
          buf = fst (go_copy (head @ replicate (request_buf - head_size flags) 0) (head_size flags) (br_Key r)) in
      go_slice buf 0 (int (length (br_Key r)) + int (head_size flags)))"

text \<open>
  \<open>Read\<close> reads the header, then the key into the front of the same array. The flags are only ever
  switched on, so the request must be a new one.
\<close>

definition key_size_of :: "byte list \<Rightarrow> nat" where
  "key_size_of h = unat (h ! 1) + unat (drop_bit 4 (h ! 0)) * 256"

definition set_flags :: "byte \<Rightarrow> block_request \<Rightarrow> block_request" where
  "set_flags b r = r\<lparr>br_compressOn := (br_compressOn r \<or> b AND 1 \<noteq> 0), br_crcOn := (br_crcOn r \<or> b AND 2 \<noteq> 0)\<rparr>"

definition get_request_head :: "bool \<Rightarrow> byte list \<Rightarrow> block_request \<Rightarrow> block_request" where
  "get_request_head flags h r =
     (let r1 = r\<lparr>br_CMD := h ! 0 AND 0x0F\<rparr> in if flags then set_flags (h ! 2) r1 else r1)"

definition get_request :: "bool \<Rightarrow> block_request \<Rightarrow> stream \<Rightarrow> (go_error + block_request) \<times> stream" where
  "get_request flags r ss =
     (case read_full (head_size flags) ss of
        (Inl e, rest) \<Rightarrow> (Inl e, rest)
      | (Inr h, rest) \<Rightarrow>
          (if key_size_of h > request_buf then (Inl (Panic ''slice bounds out of range''), rest)
           else case read_full (key_size_of h) rest of
                  (Inl e, rest') \<Rightarrow> (Inl e, rest')
                | (Inr key, rest') \<Rightarrow> (Inr ((get_request_head flags h r)\<lparr>br_Key := key\<rparr>), rest')))"

text \<open>The four packages' copies; the last has no flags.\<close>

definition tcppool_request_Write :: "block_request \<Rightarrow> go_error + byte list" where
  "tcppool_request_Write = put_request True"

definition tcppool_request_Read :: "block_request \<Rightarrow> stream \<Rightarrow> (go_error + block_request) \<times> stream" where
  "tcppool_request_Read = get_request True"

definition quic_request_Write :: "block_request \<Rightarrow> go_error + byte list" where
  "quic_request_Write = put_request True"

definition quic_request_Read :: "block_request \<Rightarrow> stream \<Rightarrow> (go_error + block_request) \<times> stream" where
  "quic_request_Read = get_request True"

definition gonet_request_Write :: "block_request \<Rightarrow> go_error + byte list" where
  "gonet_request_Write = put_request True"

definition sendfile_request_Write :: "block_request \<Rightarrow> go_error + byte list" where
  "sendfile_request_Write = put_request False"

definition sendfile_request_Read :: "block_request \<Rightarrow> stream \<Rightarrow> (go_error + block_request) \<times> stream" where
  "sendfile_request_Read = get_request False"

text \<open>
  \<open>gonet\<close> decodes a frame that the event loop hands over. \<open>spare\<close> is what lies between the frame's
  length and its capacity, which bounds \<open>buf[3:3+size]\<close>.
\<close>

definition gonet_decode :: "block_request \<Rightarrow> byte list \<Rightarrow> byte list \<Rightarrow> go_error + block_request" where
  "gonet_decode r frame spare =
     (if length frame < 3 then Inl (Panic ''index out of range'')
      else case go_slice (frame @ spare) 3 (3 + int (key_size_of frame)) of
             Inl e \<Rightarrow> Inl e
           | Inr key \<Rightarrow> Inr ((get_request_head True frame r)\<lparr>br_Key := key\<rparr>))"

subsection \<open>Round trip\<close>

lemma length_request_head [simp]: "length (request_head flags r) = head_size flags"
  by (simp add: request_head_def head_size_def Let_def)

lemma put_request_eq:
  "put_request flags r =
     (if length (br_Key r) + head_size flags \<le> request_buf then Inr (request_head flags r @ br_Key r)
      else Inl (Panic ''slice bounds out of range''))"
proof (cases "length (br_Key r) + head_size flags \<le> request_buf")
  case True
  then have "fst (go_copy (request_head flags r @ replicate (request_buf - head_size flags) 0) (head_size flags) (br_Key r))
      = request_head flags r @ br_Key r @ replicate (request_buf - head_size flags - length (br_Key r)) 0"
    by (simp add: go_copy_fits)
  then show ?thesis
    using True by (simp add: put_request_def go_slice_def Let_def nat_add_distrib)
next
  case False
  have "head_size flags \<le> request_buf" by (simp add: head_size_def request_buf_def)
  with False show ?thesis by (simp add: put_request_def go_slice_def Let_def)
qed

text \<open>What the format can carry: the low four bits of the command, a key that fits the array.\<close>

definition request_ok :: "bool \<Rightarrow> block_request \<Rightarrow> bool" where
  "request_ok flags r \<longleftrightarrow> length (br_Key r) + head_size flags \<le> request_buf"

definition carried :: "bool \<Rightarrow> block_request \<Rightarrow> block_request" where
  "carried flags r = (let r1 = r\<lparr>br_CMD := br_CMD r AND 0xF\<rparr> in
     if flags then r1 else r1\<lparr>br_compressOn := False, br_crcOn := False\<rparr>)"

definition request_wire :: "bool \<Rightarrow> block_request \<Rightarrow> byte list" where
  "request_wire flags r = request_head flags r @ br_Key r"

lemma cmd_high_bits: "drop_bit 4 (c AND 0xF) = 0" for c :: byte
proof -
  have "(0xF :: byte) = mask 4" by (simp add: mask_eq_exp_minus_1)
  then show ?thesis by (simp flip: take_bit_eq_mask)
qed

lemma flag_bits:
  "((if a then 1 else 0) OR (if b then 2 else 0)) AND (1 :: byte) \<noteq> 0 \<longleftrightarrow> a"
  "((if a then 1 else 0) OR (if b then 2 else 0)) AND (2 :: byte) \<noteq> 0 \<longleftrightarrow> b"
  by (cases a; cases b; simp)+

lemma request_head_key:
  assumes "request_ok flags r"
  shows "key_size_of (request_head flags r) = length (br_Key r)"
proof -
  have n: "length (br_Key r) \<le> 255" using assms by (simp add: request_ok_def head_size_def request_buf_def split: if_splits)
  then have "unat (word_of_nat (length (br_Key r)) :: byte) = length (br_Key r)"
    by (simp add: unat_of_nat)
  with n show ?thesis by (simp add: key_size_of_def request_head_def Let_def cmd_high_bits)
qed

lemma request_head_get:
  assumes "request_ok flags r"
  shows "(get_request_head flags (request_head flags r) new_block_request)\<lparr>br_Key := br_Key r\<rparr> = carried flags r"
proof -
  have n: "\<not> length (br_Key r) > 255" using assms by (simp add: request_ok_def head_size_def request_buf_def split: if_splits)
  show ?thesis
    using flag_bits [of "br_compressOn r" "br_crcOn r"] n
    by (cases flags)
      (simp_all add: get_request_head_def request_head_def Let_def set_flags_def carried_def new_block_request_def and.assoc)
qed

lemma get_request_ok:
  assumes ok: "request_ok flags r" and ss: "concat ss = request_wire flags r @ rest"
  obtains ss' where "get_request flags new_block_request ss = (Inr (carried flags r), ss')" "concat ss' = rest"
proof -
  have "concat ss = request_head flags r @ (br_Key r @ rest)" using ss by (simp add: request_wire_def)
  then obtain s1 where s1: "read_full (head_size flags) ss = (Inr (request_head flags r), s1)" "concat s1 = br_Key r @ rest"
    by (rule read_full_exact) simp_all
  obtain s2 where s2: "read_full (length (br_Key r)) s1 = (Inr (br_Key r), s2)" "concat s2 = rest"
    using read_full_exact [OF s1(2) refl] by blast
  have "length (br_Key r) \<le> request_buf" using ok by (simp add: request_ok_def)
  then show ?thesis
    using that [OF _ s2(2)] s1(1) s2(1) by (simp add: get_request_def request_head_key [OF ok] request_head_get [OF ok])
qed

text \<open>As a codec: both header formats are prefix codes of what they carry.\<close>

definition parse_request :: "bool \<Rightarrow> byte list \<Rightarrow> (block_request \<times> byte list) option" where
  "parse_request flags bs =
     (case get_request flags new_block_request [bs] of
        (Inr r, rest) \<Rightarrow> Some (r, concat rest)
      | (Inl e, rest) \<Rightarrow> None)"

definition carried_ok :: "bool \<Rightarrow> block_request \<Rightarrow> bool" where
  "carried_ok flags r \<longleftrightarrow> request_ok flags r \<and> carried flags r = r"

interpretation req: prefix_codec "request_wire flags" "parse_request flags" "carried_ok flags" for flags
proof
  fix r :: block_request and rest
  assume ok: "carried_ok flags r"
  obtain ss' where "get_request flags new_block_request [request_wire flags r @ rest] = (Inr (carried flags r), ss')"
      "concat ss' = rest"
    using get_request_ok [of flags r "[request_wire flags r @ rest]" rest] ok by (auto simp: carried_ok_def)
  then show "parse_request flags (request_wire flags r @ rest) = Some (r, rest)"
    using ok by (simp add: parse_request_def carried_ok_def)
qed

section \<open>Responses\<close>

text \<open>
  \<open>crc32.Checksum\<close> with the Castagnoli table: bit by bit the reflected polynomial, byte by byte the
  table step.
\<close>

definition crc_bit :: "u32 \<Rightarrow> u32" where
  "crc_bit c = (if c AND 1 \<noteq> 0 then drop_bit 1 c XOR 0x82F63B78 else drop_bit 1 c)"

definition crc_byte :: "u32 \<Rightarrow> byte \<Rightarrow> u32" where
  "crc_byte c b = (crc_bit ^^ 8) (ucast (ucast c XOR b)) XOR drop_bit 8 c"

definition Checksum :: "byte list \<Rightarrow> u32" where
  "Checksum bs = NOT (foldl crc_byte (NOT 0) bs)"

text \<open>
  LZ4: the bound on the compressed size, compression into a buffer of a given size and decompression
  into one, each with the bytes it produced or its error.
\<close>

record lz4 =
  lz_bound :: "int \<Rightarrow> int"
  lz_compress :: "byte list \<Rightarrow> nat \<Rightarrow> go_error + byte list"
  lz_decompress :: "byte list \<Rightarrow> nat \<Rightarrow> go_error + byte list"

definition LZ4_compress_default :: "lz4 \<Rightarrow> byte list \<Rightarrow> nat \<Rightarrow> go_error + byte list" where
  "LZ4_compress_default z src c =
     (case lz_compress z src c of Inl e \<Rightarrow> Inl (Panic ''lz4'') | Inr out \<Rightarrow> Inr out)"

record block_response =
  bs_Body :: "byte list"
  bs_CRCSum :: u32
  bs_Err :: "byte list option"

definition new_block_response :: block_response where
  "new_block_response = \<lparr>bs_Body = [], bs_CRCSum = 0, bs_Err = None\<rparr>"

definition response_head :: "nat \<Rightarrow> nat \<Rightarrow> u32 \<Rightarrow> byte list" where
  "response_head compsize osize crc = put_u32 (word_of_nat compsize) @ put_u32 (word_of_nat osize) @ put_u32 crc"

text \<open>
  \<open>Write\<close>: an error is its text with an original size of 0; a compressed body is always checksummed.
  \<open>tcppool\<close> sends header and body with one \<open>writev\<close>, \<open>quic\<close> joins them first; the bytes are the same.
\<close>

definition put_response :: "lz4 \<Rightarrow> block_response \<Rightarrow> bool \<Rightarrow> bool \<Rightarrow> go_error + byte list" where
  "put_response z r compOn crc =
     (case bs_Err r of
        Some msg \<Rightarrow> Inr (response_head (length msg) 0 0 @ msg)
      | None \<Rightarrow>
          if compOn
          then (case LZ4_compress_default z (bs_Body r) (nat (lz_bound z (int (length (bs_Body r)) + 1))) of
                  Inl e \<Rightarrow> Inl e
                | Inr c \<Rightarrow> Inr (response_head (length c) (length (bs_Body r)) (Checksum (bs_Body r)) @ c))
          else Inr (response_head 0 (length (bs_Body r)) (if crc then Checksum (bs_Body r) else 0) @ bs_Body r))"

definition tcppool_response_Write :: "lz4 \<Rightarrow> block_response \<Rightarrow> bool \<Rightarrow> bool \<Rightarrow> go_error + byte list" where
  "tcppool_response_Write = put_response"

definition quic_response_Write :: "lz4 \<Rightarrow> block_response \<Rightarrow> bool \<Rightarrow> bool \<Rightarrow> go_error + byte list" where
  "quic_response_Write = put_response"

text \<open>
  \<open>Read\<close>, after the header: the payload's size, the payload (into a pooled buffer of 5 MiB with
  \<open>io.ReadFull\<close> in \<open>tcppool\<close>, into a new slice with a loop over \<open>conn.Read\<close> in the others), and what
  is made of it. An original size of 0 means that the payload is an error text.
\<close>

definition max_payload :: u32 where
  "max_payload = 20 * 2 ^ 20"

definition pool_buf :: nat where
  "pool_buf = 5120 * 1024"

definition payload_size :: "u32 \<Rightarrow> u32 \<Rightarrow> nat" where
  "payload_size compsize osize = (if compsize = 0 then unat osize else unat compsize)"

fun read_loop :: "nat \<Rightarrow> byte list \<Rightarrow> stream \<Rightarrow> (go_error + byte list) \<times> stream" where
  "read_loop need got [] = (if need = 0 then (Inr got, []) else (Inl EOF, []))"
| "read_loop need got (s # ss) =
     (if need = 0 then (Inr got, s # ss)
      else if length s \<le> need then read_loop (need - length s) (got @ s) ss
      else (Inr (got @ take need s), drop need s # ss))"

definition pooled_payload :: "nat \<Rightarrow> stream \<Rightarrow> (go_error + byte list) \<times> stream" where
  "pooled_payload n ss =
     (if pool_buf < n then (Inl (Panic ''slice bounds out of range''), ss) else read_full n ss)"

definition fresh_payload :: "nat \<Rightarrow> stream \<Rightarrow> (go_error + byte list) \<times> stream" where
  "fresh_payload n ss = read_loop n [] ss"

definition check_sum :: "u32 \<Rightarrow> block_response \<Rightarrow> go_error + block_response" where
  "check_sum crc r =
     (if crc \<noteq> 0 \<and> Checksum (bs_Body r) \<noteq> crc then Inl (ErrMsg ''checksum'') else Inr (r\<lparr>bs_CRCSum := crc\<rparr>))"

definition accept_payload :: "lz4 \<Rightarrow> bool \<Rightarrow> block_response \<Rightarrow> u32 \<Rightarrow> u32 \<Rightarrow> u32 \<Rightarrow> byte list \<Rightarrow>
    go_error + block_response" where
  "accept_payload z pooled r compsize osize crc payload =
     (if osize = 0 then Inr (r\<lparr>bs_Err := Some payload\<rparr>)
      else if compsize = 0 then check_sum crc (r\<lparr>bs_Body := payload\<rparr>)
      else if pooled \<and> pool_buf < unat osize then Inl (Panic ''slice bounds out of range'')
      else case lz_decompress z payload (unat osize) of
             Inl e \<Rightarrow> Inl e
           | Inr out \<Rightarrow>
               if length out \<noteq> unat osize then Inl (ErrMsg ''unexpected size'')
               else check_sum crc (r\<lparr>bs_Body := out\<rparr>))"

definition read_response :: "lz4 \<Rightarrow> bool \<Rightarrow> block_response \<Rightarrow> stream \<Rightarrow> (go_error + block_response) \<times> stream" where
  "read_response z pooled r ss =
     (case read_full 12 ss of
        (Inl e, rest) \<Rightarrow> (Inl e, rest)
      | (Inr h, rest) \<Rightarrow>
          (let compsize = be_u32 h; osize = be_u32 (drop 4 h); crc = be_u32 (drop 8 h); n = payload_size compsize osize in
           if compsize > max_payload then (Inl (ErrMsg ''payload is too big''), rest)
           else case (if pooled then pooled_payload n rest else fresh_payload n rest) of
                  (Inl e, rest') \<Rightarrow> (Inl e, rest')
                | (Inr payload, rest') \<Rightarrow> (accept_payload z pooled r compsize osize crc payload, rest')))"

definition tcppool_response_Read :: "lz4 \<Rightarrow> block_response \<Rightarrow> stream \<Rightarrow> (go_error + block_response) \<times> stream" where
  "tcppool_response_Read z = read_response z True"

definition quic_response_Read :: "lz4 \<Rightarrow> block_response \<Rightarrow> stream \<Rightarrow> (go_error + block_response) \<times> stream" where
  "quic_response_Read z = read_response z False"

definition gonet_response_Read :: "lz4 \<Rightarrow> block_response \<Rightarrow> stream \<Rightarrow> (go_error + block_response) \<times> stream" where
  "gonet_response_Read z = read_response z False"

subsection \<open>Round trip\<close>

lemma read_loop_ok:
  "n \<le> length (concat ss) \<Longrightarrow>
     \<exists>ss'. read_loop n got ss = (Inr (got @ take n (concat ss)), ss') \<and> concat ss' = drop n (concat ss)"
  by (induction n got ss rule: read_loop.induct) auto

lemma small_u32:
  assumes "n < 2 ^ 32"
  shows "unat (word_of_nat n :: u32) = n" "(word_of_nat n :: u32) = 0 \<longleftrightarrow> n = 0"
  using assms by (auto simp: unat_of_nat word_of_nat_eq_0_iff dest: dvd_imp_le)

lemma length_response_head [simp]: "length (response_head a b c) = 12"
  by (simp add: response_head_def)

lemma response_head_fields [simp]:
  "be_u32 (response_head a b c) = word_of_nat a"
  "be_u32 (drop 4 (response_head a b c)) = word_of_nat b"
  "be_u32 (drop 8 (response_head a b c)) = c"
  by (simp_all add: response_head_def)

text \<open>What the payload buffer of a package can take.\<close>

definition fits_pool :: "bool \<Rightarrow> nat \<Rightarrow> bool" where
  "fits_pool pooled n \<longleftrightarrow> (pooled \<longrightarrow> n \<le> pool_buf)"

lemma payload_read:
  assumes "concat ss = bs @ rest" "n = length bs" "fits_pool pooled n"
  obtains ss' where "(if pooled then pooled_payload n ss else fresh_payload n ss) = (Inr bs, ss')" "concat ss' = rest"
proof (cases pooled)
  case True
  obtain ss' where "read_full n ss = (Inr bs, ss')" "concat ss' = rest"
    by (rule read_full_exact [OF assms(1,2)])
  then show ?thesis using True assms(3) by (intro that) (auto simp: pooled_payload_def fits_pool_def)
next
  case False
  then show ?thesis
    using read_loop_ok [of n ss "[]"] assms(1,2) by (auto simp: fresh_payload_def intro: that)
qed

lemma read_response_frame:
  assumes ss: "concat ss = response_head compsize osize crc @ payload @ rest"
    and small: "compsize \<le> 20 * 2 ^ 20" "osize < 2 ^ 32"
    and len: "length payload = (if compsize = 0 then osize else compsize)" "fits_pool pooled (length payload)"
  shows "\<exists>ss'. read_response z pooled r ss =
      (accept_payload z pooled r (word_of_nat compsize) (word_of_nat osize) crc payload, ss') \<and> concat ss' = rest"
proof -
  obtain s1 where s1: "read_full 12 ss = (Inr (response_head compsize osize crc), s1)" "concat s1 = payload @ rest"
    by (rule read_full_exact [OF ss]) simp_all
  have "compsize < 2 ^ 32" using small(1) by simp
  note c = small_u32 [OF this] small_u32 [OF small(2)]
  then have n: "payload_size (word_of_nat compsize) (word_of_nat osize) = length payload"
    using len(1) by (simp add: payload_size_def c)
  have "\<not> (word_of_nat compsize :: u32) > max_payload"
    using small(1) c(1) by (simp add: max_payload_def word_less_nat_alt)
  moreover obtain ss' where "(if pooled then pooled_payload (length payload) s1 else fresh_payload (length payload) s1)
      = (Inr payload, ss')" "concat ss' = rest"
    by (rule payload_read [OF s1(2) refl len(2)])
  ultimately show ?thesis
    using s1(1) n by (intro exI [of _ ss']) (auto simp: read_response_def Let_def)
qed

text \<open>
  What LZ4 must do for a body: compress it into the buffer the code makes, to something, and
  decompress that into a buffer of the body's size.
\<close>

definition lz4_ok :: "lz4 \<Rightarrow> bool \<Rightarrow> byte list \<Rightarrow> bool" where
  "lz4_ok z pooled b \<longleftrightarrow> (\<exists>c. lz_compress z b (nat (lz_bound z (int (length b) + 1))) = Inr c \<and> c \<noteq> []
     \<and> length c \<le> 20 * 2 ^ 20 \<and> fits_pool pooled (length c) \<and> lz_decompress z c (length b) = Inr b)"

lemma response_roundtrip_body:
  assumes "bs_Err r = None" "bs_Body r \<noteq> []" "length (bs_Body r) < 2 ^ 32" "fits_pool pooled (length (bs_Body r))"
    and "compOn \<Longrightarrow> lz4_ok z pooled (bs_Body r)"
  shows "\<exists>bs. put_response z r compOn crc = Inr bs \<and>
     (\<forall>r0 ss rest. concat ss = bs @ rest \<longrightarrow>
        (\<exists>r' ss'. read_response z pooled r0 ss = (Inr r', ss') \<and> bs_Body r' = bs_Body r \<and> bs_Err r' = bs_Err r0
           \<and> concat ss' = rest))"
proof (cases compOn)
  case True
  then obtain c where c: "lz_compress z (bs_Body r) (nat (lz_bound z (int (length (bs_Body r)) + 1))) = Inr c" "c \<noteq> []"
      "length c \<le> 20 * 2 ^ 20" "fits_pool pooled (length c)" "lz_decompress z c (length (bs_Body r)) = Inr (bs_Body r)"
    using assms(5) by (auto simp: lz4_ok_def)
  let ?bs = "response_head (length c) (length (bs_Body r)) (Checksum (bs_Body r)) @ c"
  have put: "put_response z r compOn crc = Inr ?bs"
    using True c(1) assms(1) by (simp add: put_response_def LZ4_compress_default_def)
  have "length c < 2 ^ 32" using c(3) by simp
  note un = small_u32 [OF assms(3)] small_u32 [OF this]
  have len: "length c = (if length c = 0 then length (bs_Body r) else length c)" using c(2) by simp
  show ?thesis
  proof (rule exI, intro conjI allI impI)
    show "put_response z r compOn crc = Inr ?bs" by (rule put)
    fix r0 ss rest assume "concat ss = ?bs @ rest"
    then have "concat ss = response_head (length c) (length (bs_Body r)) (Checksum (bs_Body r)) @ c @ rest" by simp
    from read_response_frame [OF this c(3) assms(3) len c(4), of z r0] obtain ss' where "read_response z pooled r0 ss = (accept_payload z pooled r0 (word_of_nat (length c))
        (word_of_nat (length (bs_Body r))) (Checksum (bs_Body r)) c, ss')" "concat ss' = rest"
      by blast
    then show "\<exists>r' ss'. read_response z pooled r0 ss = (Inr r', ss') \<and> bs_Body r' = bs_Body r \<and> bs_Err r' = bs_Err r0
        \<and> concat ss' = rest"
      using un c(2,5) assms(2,4) by (auto simp: accept_payload_def check_sum_def fits_pool_def)
  qed
next
  case False
  let ?crc = "if crc then Checksum (bs_Body r) else 0"
  let ?bs = "response_head 0 (length (bs_Body r)) ?crc @ bs_Body r"
  have put: "put_response z r compOn crc = Inr ?bs" using False assms(1) by (simp add: put_response_def)
  note un = small_u32 [OF assms(3)]
  show ?thesis
  proof (rule exI, intro conjI allI impI)
    show "put_response z r compOn crc = Inr ?bs" by (rule put)
    fix r0 ss rest assume "concat ss = ?bs @ rest"
    then have "concat ss = response_head 0 (length (bs_Body r)) ?crc @ bs_Body r @ rest" by simp
    from read_response_frame [OF this _ assms(3) _ assms(4), of z r0] obtain ss' where "read_response z pooled r0 ss = (accept_payload z pooled r0 (word_of_nat 0)
        (word_of_nat (length (bs_Body r))) ?crc (bs_Body r), ss')" "concat ss' = rest"
      by auto
    then show "\<exists>r' ss'. read_response z pooled r0 ss = (Inr r', ss') \<and> bs_Body r' = bs_Body r \<and> bs_Err r' = bs_Err r0
        \<and> concat ss' = rest"
      using un assms(2) by (auto simp: accept_payload_def check_sum_def)
  qed
qed

lemma response_roundtrip_error:
  assumes "bs_Err r = Some msg" "length msg \<le> 20 * 2 ^ 20" "fits_pool pooled (length msg)"
  shows "\<exists>bs. put_response z r compOn crc = Inr bs \<and>
     (\<forall>r0 ss rest. concat ss = bs @ rest \<longrightarrow>
        (\<exists>ss'. read_response z pooled r0 ss = (Inr (r0\<lparr>bs_Err := Some msg\<rparr>), ss') \<and> concat ss' = rest))"
proof (rule exI, intro conjI allI impI)
  let ?bs = "response_head (length msg) 0 0 @ msg"
  show "put_response z r compOn crc = Inr ?bs" using assms(1) by (simp add: put_response_def)
  fix r0 ss rest assume "concat ss = ?bs @ rest"
  then have "concat ss = response_head (length msg) 0 0 @ msg @ rest" by simp
  have len: "length msg = (if length msg = 0 then 0 else length msg)" by simp
  from read_response_frame [OF \<open>concat ss = response_head (length msg) 0 0 @ msg @ rest\<close> assms(2) _ len assms(3), of z r0]
  obtain ss' where "read_response z pooled r0 ss =
      (accept_payload z pooled r0 (word_of_nat (length msg)) (word_of_nat 0) 0 msg, ss')" "concat ss' = rest"
    by auto
  then show "\<exists>ss'. read_response z pooled r0 ss = (Inr (r0\<lparr>bs_Err := Some msg\<rparr>), ss') \<and> concat ss' = rest"
    by (auto simp: accept_payload_def)
qed

end
