(* ===== verification/Block_Servers.thy ===== *)
theory Block_Servers
  imports Block_Wire Data_Gen Body_Splice
begin

text \<open>
  The plain block servers and clients built on the formats of \<open>Block_Wire\<close>: the connection loops of
  \<open>tcppool\<close> and \<open>quic\<close>, the event handler of \<open>gonet\<close> with its pool of output buffers, the
  \<open>tcpsendfile\<close> server that streams files, and the clients' \<open>Get\<close>. A connection is the stream of bytes
  that will come in and a writer for those that go out.
\<close>

definition string_of :: "byte list \<Rightarrow> string" where
  "string_of bs = map (\<lambda>b. char_of (unat b)) bs"

lemma string_of_bytes: "string_of (bytes_of s) = s"
proof -
  have "unat (word_of_nat (of_char c) :: byte) = of_char c" for c
    using of_char_mod_256 [of c, where 'a = nat] by (simp add: unat_of_nat)
  then show ?thesis by (simp add: string_of_def bytes_of_def comp_def)
qed

section \<open>The connection loop of tcppool and quic\<close>

text \<open>The response to a command; \<open>Inl\<close> is a panic of the data generator.\<close>

definition block_switch :: "data_gen \<Rightarrow> byte \<Rightarrow> go_error + block_response" where
  "block_switch dg cmd =
     (let body = (\<lambda>key. case dg_Get dg key of Inl e \<Rightarrow> Inl e | Inr b \<Rightarrow> Inr (new_block_response\<lparr>bs_Body := b\<rparr>)) in
      if cmd = 0 then body ''key0''
      else if cmd = 1 then body ''key1''
      else if cmd = 2 then body ''key2''
      else if cmd = 3 then body ''key3''
      else if cmd = 4 then body ''key4''
      else Inr (new_block_response\<lparr>bs_Err := Some (bytes_of ''invalid command'')\<rparr>))"

lemma read_full_shrinks:
  "read_full n ss = (Inr bs, ss') \<Longrightarrow> length (concat ss') + n = length (concat ss)"
  by (auto simp: read_full_def Let_def split: if_splits simp del: concat_eq_Nil_conv)

lemma get_request_shrinks:
  "get_request flags r ss = (Inr q, ss') \<Longrightarrow> length (concat ss') < length (concat ss)"
  by (auto simp: get_request_def head_size_def split: prod.splits sum.splits if_splits dest!: read_full_shrinks)

text \<open>
  \<open>handle\<close>: read a request, build the response, write it; the first error ends the loop and the
  connection. The result is what was written and the error. The loop ends because every request takes
  bytes from the stream.
\<close>

function serve_blocks :: "lz4 \<Rightarrow> data_gen \<Rightarrow> writer \<Rightarrow> stream \<Rightarrow> writer \<times> go_error" where
  "serve_blocks z dg w ss =
     (case tcppool_request_Read new_block_request ss of
        (Inl e, rest) \<Rightarrow> (w, e)
      | (Inr req, rest) \<Rightarrow>
          (case block_switch dg (br_CMD req) of
             Inl e \<Rightarrow> (w, e)
           | Inr res \<Rightarrow>
               (case tcppool_response_Write z res (br_compressOn req) (br_crcOn req) of
                  Inl e \<Rightarrow> (w, e)
                | Inr bs \<Rightarrow>
                    (case w_write w bs of
                       (w', n, Some e) \<Rightarrow> (w', e)
                     | (w', n, None) \<Rightarrow> serve_blocks z dg w' rest))))"
  by pat_completeness auto
termination
  by (relation "measure (\<lambda>(z, dg, w, ss). length (concat ss))")
    (auto simp: tcppool_request_Read_def dest!: sym [of _ "get_request _ _ _"] get_request_shrinks)

declare serve_blocks.simps [simp del]

definition tcppool_handle :: "lz4 \<Rightarrow> data_gen \<Rightarrow> writer \<Rightarrow> stream \<Rightarrow> writer \<times> go_error" where
  "tcppool_handle = serve_blocks"

text \<open>\<open>quic\<close>: the same loop on the first stream of a connection, without which the handler panics.\<close>

definition quic_handle :: "lz4 \<Rightarrow> data_gen \<Rightarrow> go_error + stream \<Rightarrow> writer \<Rightarrow> writer \<times> go_error" where
  "quic_handle z dg acceptStream w =
     (case acceptStream of Inl e \<Rightarrow> (w, Panic ''accept stream'') | Inr ss \<Rightarrow> serve_blocks z dg w ss)"

section \<open>The clients\<close>

fun write_batch :: "nat \<Rightarrow> block_request \<Rightarrow> writer \<Rightarrow> go_error option \<times> writer" where
  "write_batch 0 req w = (None, w)"
| "write_batch (Suc n) req w =
     (case tcppool_request_Write req of
        Inl e \<Rightarrow> (Some e, w)
      | Inr bs \<Rightarrow>
          (case w_write w bs of
             (w', k, Some e) \<Rightarrow> (Some e, w')
           | (w', k, None) \<Rightarrow> write_batch n req w'))"

fun read_batch :: "nat \<Rightarrow> lz4 \<Rightarrow> block_response \<Rightarrow> stream \<Rightarrow> (go_error + block_response) \<times> stream" where
  "read_batch 0 z res ss = (Inr res, ss)"
| "read_batch (Suc n) z res ss =
     (case tcppool_response_Read z res ss of
        (Inl e, rest) \<Rightarrow> (Inl e, rest)
      | (Inr res', rest) \<Rightarrow>
          (case bs_Err res' of
             Some msg \<Rightarrow> (Inl (ErrMsg (string_of msg)), rest)
           | None \<Rightarrow> read_batch n z res' rest))"

text \<open>
  \<open>Get\<close> of \<open>tcppool\<close>: write the request \<open>Batch\<close> times, then read as many responses; \<open>ss\<close> is what the
  connection will deliver. \<open>Get\<close> of \<open>quic\<close> and of \<open>gonet\<close> do it once.
\<close>

definition tcppool_Get :: "lz4 \<Rightarrow> bool \<Rightarrow> bool \<Rightarrow> byte \<Rightarrow> byte list \<Rightarrow> int \<Rightarrow> writer \<Rightarrow> stream \<Rightarrow>
    (go_error + block_response) \<times> writer \<times> stream" where
  "tcppool_Get z compressOn crcOn cmd key batch w ss =
     (let req = \<lparr>br_CMD = cmd, br_Key = key, br_compressOn = compressOn, br_crcOn = crcOn\<rparr> in
      case write_batch (nat batch) req w of
        (Some e, w') \<Rightarrow> (Inl e, w', ss)
      | (None, w') \<Rightarrow>
          (case read_batch (nat batch) z new_block_response ss of (res, rest) \<Rightarrow> (res, w', rest)))"

definition single_Get :: "(block_request \<Rightarrow> go_error + byte list) \<Rightarrow>
    (block_response \<Rightarrow> stream \<Rightarrow> (go_error + block_response) \<times> stream) \<Rightarrow> bool \<Rightarrow> bool \<Rightarrow> byte \<Rightarrow> byte list \<Rightarrow>
    writer \<Rightarrow> stream \<Rightarrow> (go_error + block_response) \<times> writer \<times> stream" where
  "single_Get wr rd compressOn crcOn cmd key w ss =
     (case wr \<lparr>br_CMD = cmd, br_Key = key, br_compressOn = compressOn, br_crcOn = crcOn\<rparr> of
        Inl e \<Rightarrow> (Inl e, w, ss)
      | Inr bs \<Rightarrow>
          (case w_write w bs of
             (w', k, Some e) \<Rightarrow> (Inl e, w', ss)
           | (w', k, None) \<Rightarrow>
               (case rd new_block_response ss of
                  (Inl e, rest) \<Rightarrow> (Inl e, w', rest)
                | (Inr res, rest) \<Rightarrow>
                    (case bs_Err res of
                       Some msg \<Rightarrow> (Inl (ErrMsg (string_of msg)), w', rest)
                     | None \<Rightarrow> (Inr res, w', rest)))))"

definition quic_Get :: "lz4 \<Rightarrow> bool \<Rightarrow> bool \<Rightarrow> byte \<Rightarrow> byte list \<Rightarrow> writer \<Rightarrow> stream \<Rightarrow>
    (go_error + block_response) \<times> writer \<times> stream" where
  "quic_Get z = single_Get quic_request_Write (quic_response_Read z)"

definition gonet_Get :: "lz4 \<Rightarrow> bool \<Rightarrow> bool \<Rightarrow> byte \<Rightarrow> byte list \<Rightarrow> writer \<Rightarrow> stream \<Rightarrow>
    (go_error + block_response) \<times> writer \<times> stream" where
  "gonet_Get z = single_Get gonet_request_Write (gonet_response_Read z)"

section \<open>The gonet event handler\<close>

text \<open>
  Output buffers come from a pool: slices of one array of 4 MiB and 12 bytes each, with the length
  they had when they were put back. \<open>copy(buf[12:], ...)\<close> stops at that length, but the slice that is
  sent, \<open>buf[:12+len(res.Body)]\<close>, reaches beyond it.
\<close>

record gbuf =
  gb_array :: "byte list"
  gb_len :: nat

definition gonet_new_buf :: gbuf where
  "gonet_new_buf = \<lparr>gb_array = replicate (4096 * 1024 + 12) 0, gb_len = 4096 * 1024 + 12\<rparr>"

definition gonet_encode :: "block_response \<Rightarrow> gbuf \<Rightarrow> go_error + gbuf" where
  "gonet_encode r buf =
     (let (head, payload) = (case bs_Err r of
            Some msg \<Rightarrow> (response_head (length msg) 0 0, msg)
          | None \<Rightarrow> (response_head 0 (length (bs_Body r)) 0, bs_Body r));
          arr = head @ drop 12 (gb_array buf) in
      if gb_len buf < 12 then Inl (Panic ''slice bounds out of range'')
      else Inr (buf\<lparr>gb_array := fst (go_copy (take (gb_len buf) arr) 12 payload) @ drop (gb_len buf) arr\<rparr>))"

text \<open>
  \<open>React\<close> on a frame: the bytes sent and the buffer that \<open>AfterWrite\<close> puts back into the pool.
\<close>

definition gonet_React :: "data_gen \<Rightarrow> gbuf \<Rightarrow> byte list \<Rightarrow> byte list \<Rightarrow> go_error + byte list \<times> gbuf" where
  "gonet_React dg buf frame spare =
     (case gonet_decode new_block_request frame spare of
        Inl e \<Rightarrow> Inl e
      | Inr req \<Rightarrow>
          if length frame \<noteq> length (br_Key req) + 3 then Inl (Panic ''frame len'')
          else case block_switch dg (br_CMD req) of
                 Inl e \<Rightarrow> Inl e
               | Inr res \<Rightarrow>
                   (case gonet_encode res buf of
                      Inl e \<Rightarrow> Inl e
                    | Inr buf' \<Rightarrow>
                        (case go_slice (gb_array buf') 0 (12 + int (length (bs_Body res))) of
                           Inl e \<Rightarrow> Inl e
                         | Inr out \<Rightarrow> Inr (out, buf'\<lparr>gb_len := length out\<rparr>))))"

section \<open>The tcpsendfile server and client\<close>

text \<open>
  \<open>utils.SpliceSendFile\<close>: load the file into a pipe, then write the pipe to the socket until all of
  it has gone. \<open>again\<close> marks the errors the callback waits on; \<open>UsPoll\<close> is the poller giving up.
\<close>

datatype us_result = UsOk nat | UsErr bool go_error | UsPoll go_error

fun us_write_loop :: "us_result list \<Rightarrow> nat \<Rightarrow> byte list \<Rightarrow> byte list \<Rightarrow> (go_error option \<times> byte list) option" where
  "us_write_loop [] left pipe out = None"
| "us_write_loop (UsOk n # rs) left pipe out =
     (let k = min n (min left (length pipe)) in
      if k = left then Some (None, out @ take k pipe)
      else us_write_loop rs (left - k) (drop k pipe) (out @ take k pipe))"
| "us_write_loop (UsErr again e # rs) left pipe out =
     (if again then us_write_loop rs left pipe out else Some (Some e, out))"
| "us_write_loop (UsPoll e # rs) left pipe out = Some (Some e, out)"

record us_env =
  us_isconn :: bool
  us_get :: "go_error option"
  us_grow :: "int \<Rightarrow> go_error option"
  us_load :: "go_error + nat"
  us_raw :: "go_error option"
  us_page :: int
  us_writes :: "us_result list"

definition utils_PipeFile :: "us_env \<Rightarrow> byte list \<Rightarrow> int \<Rightarrow> int \<Rightarrow> go_error + byte list" where
  "utils_PipeFile env file offset sz =
     (case us_get env of
        Some e \<Rightarrow> Inl (Wrap ''get pipe pair'' e)
      | None \<Rightarrow>
          (case us_grow env (utils_alignSize (us_page env) sz) of
             Some e \<Rightarrow> Inl (Wrap ''grow pipe pair'' e)
           | None \<Rightarrow>
               (case us_load env of
                  Inl e \<Rightarrow> Inl (Wrap ''pair load file'' e)
                | Inr n \<Rightarrow> Inr (take (min n (nat sz)) (drop (nat offset) file)))))"

definition SpliceSendFile :: "us_env \<Rightarrow> writer \<Rightarrow> byte list \<Rightarrow> int \<Rightarrow> (go_error option \<times> writer) option" where
  "SpliceSendFile env w file sz =
     (if \<not> us_isconn env then Some (Some (ErrMsg ''conn is not a syscall.Conn''), w)
      else case utils_PipeFile env file 0 sz of
             Inl e \<Rightarrow> Some (Some (Wrap ''pipe file'' e), w)
           | Inr pipe \<Rightarrow>
               (case us_raw env of
                  Some e \<Rightarrow> Some (Some (Wrap ''syscall conn'' e), w)
                | None \<Rightarrow>
                    (case us_write_loop (us_writes env) (nat sz) pipe [] of
                       None \<Rightarrow> None
                     | Some (err, out) \<Rightarrow> Some (err, w\<lparr>w_out := w_out w @ out\<rparr>))))"

datatype server_mode = MODE_SENDBUF | MODE_SENDFILE | MODE_SPLICE

definition mode_of :: "string \<Rightarrow> server_mode" where
  "mode_of env = (if env = ''sendbuf'' then MODE_SENDBUF else if env = ''splice'' then MODE_SPLICE else MODE_SENDFILE)"

text \<open>
  The readers that the process has open, numbered in the order in which \<open>GetReadCloser\<close> opened them.
\<close>

record open_readers =
  rd_next :: nat
  rd_open :: "nat list"

definition reader_open :: "data_gen \<Rightarrow> string \<Rightarrow> open_readers \<Rightarrow> go_error + byte list \<times> nat \<times> open_readers" where
  "reader_open dg key rd =
     (case dg_GetReadCloser dg key of
        Inl e \<Rightarrow> Inl e
      | Inr content \<Rightarrow> Inr (content, rd_next rd, rd\<lparr>rd_next := rd_next rd + 1, rd_open := rd_next rd # rd_open rd\<rparr>))"

definition reader_Close :: "nat \<Rightarrow> open_readers \<Rightarrow> open_readers" where
  "reader_Close r rd = rd\<lparr>rd_open := remove1 r (rd_open rd)\<rparr>"

text \<open>
  One request of \<open>handle\<close>. The default mode opens the key twice and closes the first reader.
  \<open>None\<close>: a splice that has not ended.
\<close>

definition sendfile_serve :: "us_env \<Rightarrow> server_mode \<Rightarrow> data_gen \<Rightarrow> writer \<Rightarrow> open_readers \<Rightarrow> byte \<Rightarrow>
    (go_error option \<times> writer \<times> open_readers) option" where
  "sendfile_serve env mode dg w rd cmd =
     (let key = key_of (unat cmd) in
      case mode of
        MODE_SENDBUF \<Rightarrow>
          (case dg_Get dg key of
             Inl e \<Rightarrow> Some (Some e, w, rd)
           | Inr buf \<Rightarrow> (case w_write w buf of (w', n, err) \<Rightarrow> Some (err, w', rd)))
      | MODE_SPLICE \<Rightarrow>
          (case reader_open dg key rd of
             Inl e \<Rightarrow> Some (Some e, w, rd)
           | Inr (file, reader, rd1) \<Rightarrow>
               (case SpliceSendFile env w file (dg_GetSize dg key) of
                  None \<Rightarrow> None
                | Some (err, w') \<Rightarrow> Some (err, w', reader_Close reader rd1)))
      | MODE_SENDFILE \<Rightarrow>
          (case reader_open dg key rd of
             Inl e \<Rightarrow> Some (Some e, w, rd)
           | Inr (_, reader, rd1) \<Rightarrow>
               (case reader_open dg key rd1 of
                  Inl e \<Rightarrow> Some (Some e, w, rd1)
                | Inr (content, _, rd2) \<Rightarrow>
                    (case w_write w content of (w', n, err) \<Rightarrow> Some (err, w', reader_Close reader rd2)))))"

text \<open>The loop of \<open>handle\<close>, with the error that ends it and the readers that are open then.\<close>

function sendfile_handle :: "us_env \<Rightarrow> server_mode \<Rightarrow> data_gen \<Rightarrow> writer \<Rightarrow> open_readers \<Rightarrow> stream \<Rightarrow>
    (go_error \<times> writer \<times> open_readers) option" where
  "sendfile_handle env mode dg w rd ss =
     (case sendfile_request_Read new_block_request ss of
        (Inl e, rest) \<Rightarrow> Some (e, w, rd)
      | (Inr req, rest) \<Rightarrow>
          (case sendfile_serve env mode dg w rd (br_CMD req) of
             None \<Rightarrow> None
           | Some (Some e, w', rd') \<Rightarrow> Some (e, w', rd')
           | Some (None, w', rd') \<Rightarrow> sendfile_handle env mode dg w' rd' rest))"
  by pat_completeness auto
termination
  by (relation "measure (\<lambda>(env, mode, dg, w, rd, ss). length (concat ss))")
    (auto simp: sendfile_request_Read_def dest!: sym [of _ "get_request _ _ _"] get_request_shrinks)

declare sendfile_handle.simps [simp del]

section \<open>A request and its response\<close>

text \<open>On a connection that accepts everything, what is written arrives.\<close>

definition unlimited :: "writer \<Rightarrow> bool" where
  "unlimited w \<longleftrightarrow> w_room w = None"

lemma send_unlimited: "unlimited w \<Longrightarrow> w_write w p = (w\<lparr>w_out := w_out w @ p\<rparr>, length p, None)"
  by (simp add: unlimited_def w_write_def)

lemma unlimited_out [simp]: "unlimited (w\<lparr>w_out := o'\<rparr>) = unlimited w"
  by (simp add: unlimited_def)

lemma put_request_ok: "request_ok flags r \<Longrightarrow> put_request flags r = Inr (request_wire flags r)"
  by (simp add: put_request_eq request_ok_def request_wire_def)

lemma write_batch_ok:
  "request_ok True req \<Longrightarrow> unlimited w \<Longrightarrow>
     write_batch n req w = (None, w\<lparr>w_out := w_out w @ concat (replicate n (request_wire True req))\<rparr>)"
  by (induction n arbitrary: w) (simp_all add: tcppool_request_Write_def put_request_ok send_unlimited)

lemma get_request_end:
  assumes "concat ss = []"
  shows "\<exists>rest. get_request flags r ss = (Inl EOF, rest)"
  using assms by (simp add: get_request_def read_full_def head_size_def)

lemma block_switch_error:
  "5 \<le> cmd \<Longrightarrow> block_switch dg cmd = Inr (new_block_response\<lparr>bs_Err := Some (bytes_of ''invalid command'')\<rparr>)" for cmd :: byte
  by (auto simp: block_switch_def word_le_nat_alt)

lemma serve_batch:
  assumes req: "request_ok True req" and sw: "block_switch dg (br_CMD req AND 0xF) = Inr res"
    and put: "put_response z res (br_compressOn req) (br_crcOn req) = Inr bs"
  shows "concat ss = concat (replicate n (request_wire True req)) \<Longrightarrow> unlimited w \<Longrightarrow>
     serve_blocks z dg w ss = (w\<lparr>w_out := w_out w @ concat (replicate n bs)\<rparr>, EOF)"
proof (induction n arbitrary: w ss)
  case 0
  then obtain rest where "get_request True new_block_request ss = (Inl EOF, rest)"
    using get_request_end by fastforce
  then show ?case by (simp add: serve_blocks.simps [of z dg w ss] tcppool_request_Read_def)
next
  case (Suc n)
  obtain ss' where ss': "get_request True new_block_request ss = (Inr (carried True req), ss')"
      "concat ss' = concat (replicate n (request_wire True req))"
    using get_request_ok [OF req, of ss "concat (replicate n (request_wire True req))"] Suc.prems(1) by auto
  have c: "br_CMD (carried True req) = br_CMD req AND 0xF" "br_compressOn (carried True req) = br_compressOn req"
      "br_crcOn (carried True req) = br_crcOn req"
    by (simp_all add: carried_def)
  show ?case
    using Suc.IH [OF ss'(2), of "w\<lparr>w_out := w_out w @ bs\<rparr>"] Suc.prems(2) ss'(1)
    by (simp add: serve_blocks.simps [of z dg w ss] tcppool_request_Read_def c sw tcppool_response_Write_def put
        send_unlimited)
qed

lemma read_batch_ok:
  assumes body: "\<And>r0 ss rest. concat ss = bs @ rest \<Longrightarrow>
      \<exists>r' ss'. read_response z True r0 ss = (Inr r', ss') \<and> bs_Body r' = b \<and> bs_Err r' = bs_Err r0 \<and> concat ss' = rest"
  shows "concat ss = concat (replicate n bs) @ rest \<Longrightarrow> bs_Err r0 = None \<Longrightarrow>
     \<exists>r' ss'. read_batch n z r0 ss = (Inr r', ss') \<and> (0 < n \<longrightarrow> bs_Body r' = b) \<and> (n = 0 \<longrightarrow> r' = r0) \<and> concat ss' = rest"
proof (induction n arbitrary: r0 ss)
  case (Suc n)
  obtain r1 s1 where r1: "read_response z True r0 ss = (Inr r1, s1)" "bs_Body r1 = b" "bs_Err r1 = None"
      "concat s1 = concat (replicate n bs) @ rest"
    using body [of ss "concat (replicate n bs) @ rest" r0] Suc.prems by auto
  obtain r2 s2 where "read_batch n z r1 s1 = (Inr r2, s2)" "0 < n \<longrightarrow> bs_Body r2 = b" "n = 0 \<longrightarrow> r2 = r1" "concat s2 = rest"
    using Suc.IH [OF r1(4,3)] by blast
  then show ?case
    using r1 by (cases n) (auto simp: tcppool_response_Read_def)
qed simp

context buffered_data begin

lemma block_switch_ok: "k < 5 \<Longrightarrow> block_switch dg (word_of_nat k) = Inr (new_block_response\<lparr>bs_Body := block k\<rparr>)"
proof -
  assume k: "k < 5"
  have "(k = 0 \<or> k = 1 \<or> k = 2 \<or> k = 3 \<or> k = 4)" using k by auto
  then show ?thesis
    using block_got [OF k] by (elim disjE) (simp_all add: block_switch_def)
qed

lemma get_returns_block:
  assumes k: "k < 5" and key: "length key \<le> 253" and n: "0 < batch"
    and lz: "compressOn \<Longrightarrow> lz4_ok z True (block k)"
    and w: "unlimited cw" "w_out cw = []" "unlimited sw" "w_out sw = []"
    and get: "tcppool_Get z compressOn crcOn (word_of_nat k) key batch cw resp = (res, cw', rest)"
    and reqs: "concat reqs = w_out cw'" and resps: "concat resp = w_out (fst (tcppool_handle z dg sw reqs))"
  shows "\<exists>r. res = Inr r \<and> bs_Body r = block k \<and> concat rest = []"
proof -
  let ?req = "\<lparr>br_CMD = word_of_nat k, br_Key = key, br_compressOn = compressOn, br_crcOn = crcOn\<rparr>"
  let ?res = "new_block_response\<lparr>bs_Body := block k\<rparr>"
  have ok: "request_ok True ?req" using key by (simp add: request_ok_def head_size_def request_buf_def)
  have "word_of_nat k AND (0xF :: byte) = word_of_nat k"
    using k by (auto simp: numeral_eq_Suc less_Suc_eq)
  then have sw: "block_switch dg (br_CMD ?req AND 0xF) = Inr ?res" using block_switch_ok [OF k] by simp
  have size: "block k \<noteq> []" "length (block k) \<le> 2 ^ 22" using block_bounds [OF k] by auto
  then have pool: "fits_pool True (length (block k))" by (simp add: fits_pool_def pool_buf_def)
  have sz: "length (bs_Body ?res) < 2 ^ 32" "bs_Body ?res \<noteq> []" using size by auto
  obtain bs where put: "put_response z ?res compressOn crcOn = Inr bs"
    and rd: "\<And>r0 ss rest. concat ss = bs @ rest \<Longrightarrow> \<exists>r' ss'. read_response z True r0 ss = (Inr r', ss')
        \<and> bs_Body r' = block k \<and> bs_Err r' = bs_Err r0 \<and> concat ss' = rest"
    using response_roundtrip_body [of ?res True compressOn z crcOn] sz pool lz
    by (auto simp: new_block_response_def)
  have wb: "write_batch (nat batch) ?req cw = (None, cw\<lparr>w_out := concat (replicate (nat batch) (request_wire True ?req))\<rparr>)"
    using write_batch_ok [OF ok w(1)] w(2) by simp
  then have cw': "w_out cw' = concat (replicate (nat batch) (request_wire True ?req))"
    using get by (auto simp: tcppool_Get_def split: prod.splits)
  have "concat resp = concat (replicate (nat batch) bs) @ []"
    using put reqs cw' resps w
    by (simp add: tcppool_handle_def serve_batch [OF ok sw, of z bs reqs "nat batch" sw])
  moreover have "bs_Err new_block_response = None" by (simp add: new_block_response_def)
  ultimately obtain r' ss' where
    "read_batch (nat batch) z new_block_response resp = (Inr r', ss')" "bs_Body r' = block k" "concat ss' = []"
    using read_batch_ok [where z = z and bs = bs and b = "block k" and n = "nat batch" and rest = "[]"
        and ss = resp and ?r0.0 = new_block_response, OF rd] n by auto
  then show ?thesis
    using get wb by (auto simp: tcppool_Get_def)
qed

end

section \<open>What the block services do\<close>

text \<open>
  C30. Any sequence of requests that could be written is read back in order by the server, with the low
  four bits of the command, the key and (where the format has them) the flags, however the network
  cuts the bytes; and a request can be written exactly if its key leaves room for the header in the
  256 bytes of the request's array, so the four high bits of the length in the format are never used.
\<close>

fun read_requests :: "bool \<Rightarrow> nat \<Rightarrow> stream \<Rightarrow> (go_error + block_request list) \<times> stream" where
  "read_requests flags 0 ss = (Inr [], ss)"
| "read_requests flags (Suc n) ss =
     (case get_request flags new_block_request ss of
        (Inl e, rest) \<Rightarrow> (Inl e, rest)
      | (Inr r, rest) \<Rightarrow>
          (case read_requests flags n rest of
             (Inl e, rest') \<Rightarrow> (Inl e, rest')
           | (Inr rs, rest') \<Rightarrow> (Inr (r # rs), rest')))"

lemma read_requests_ok:
  "list_all2 (\<lambda>r bs. put_request flags r = Inr bs) rs bss \<Longrightarrow> concat ss = concat bss @ rest \<Longrightarrow>
     \<exists>ss'. read_requests flags (length rs) ss = (Inr (map (carried flags) rs), ss') \<and> concat ss' = rest"
proof (induction rs bss arbitrary: ss rule: list_all2_induct)
  case (Cons r rs bs bss)
  have ok: "request_ok flags r" "bs = request_wire flags r"
    using Cons(1) by (auto simp: put_request_eq request_ok_def request_wire_def split: if_splits)
  obtain s1 where s1: "get_request flags new_block_request ss = (Inr (carried flags r), s1)" "concat s1 = concat bss @ rest"
    using get_request_ok [OF ok(1), of ss "concat bss @ rest"] Cons.prems ok(2) by auto
  then show ?case using Cons.IH [OF s1(2)] by auto
qed simp

theorem block_requests_roundtrip:
  assumes "list_all2 (\<lambda>r bs. put_request flags r = Inr bs) rs bss" "concat ss = concat bss @ rest"
  shows "(\<exists>ss'. read_requests flags (length rs) ss = (Inr (map (carried flags) rs), ss') \<and> concat ss' = rest)
     \<and> (\<forall>r. (\<exists>bs. put_request flags r = Inr bs) \<longleftrightarrow> length (br_Key r) + head_size flags \<le> 256)"
  using read_requests_ok [OF assms] by (auto simp: put_request_eq request_buf_def)

definition demo_request :: "byte \<Rightarrow> byte list \<Rightarrow> block_request" where
  "demo_request cmd key = \<lparr>br_CMD = cmd, br_Key = key, br_compressOn = True, br_crcOn = False\<rparr>"

theorem block_requests_roundtrip_witness:
  "\<exists>ss'. read_requests True 2 [[4, 1], [1, 49, 3, 0], [1]]
     = (Inr [demo_request 4 [49], demo_request 3 []], ss')"
proof -
  have "list_all2 (\<lambda>r bs. put_request True r = Inr bs) [demo_request 4 [49], demo_request 19 []] [[4, 1, 1, 49], [3, 0, 1]]"
    by (simp add: put_request_eq request_head_def demo_request_def head_size_def request_buf_def Let_def)
  from block_requests_roundtrip [OF this, of "[[4, 1], [1, 49, 3, 0], [1]]" "[]"] show ?thesis
    by (auto simp: demo_request_def carried_def Let_def numeral_2_eq_2 simp del: read_requests.simps)
qed

text \<open>
  C14. \<open>tcppool\<close> end to end: for a command below 5 and a key that fits, \<open>Client.Get\<close> with any positive
  batch, against the server's loop with the memory generator and over any segmentation in both
  directions, returns the block of that key and leaves nothing unread; with compression this needs
  LZ4 to handle the block.
\<close>

theorem tcppool_get_returns_block:
  assumes "k < 5" "length key \<le> 253" "0 < batch"
    and "\<And>b. dg_Get (mem_gen rand) (key_of k) = Inr b \<Longrightarrow> compressOn \<Longrightarrow> lz4_ok z True b"
    and "unlimited cw" "w_out cw = []" "unlimited sw" "w_out sw = []"
    and "tcppool_Get z compressOn crcOn (word_of_nat k) key batch cw resp = (res, cw', rest)"
    and "concat reqs = w_out cw'" "concat resp = w_out (fst (tcppool_handle z (mem_gen rand) sw reqs))"
  shows "\<exists>r. res = Inr r \<and> dg_Get (mem_gen rand) (key_of k) = Inr (bs_Body r) \<and> concat rest = []"
  using mem.get_returns_block [OF assms(1-3) _ assms(5-11)] assms(4) mem.block_got [OF assms(1)] by metis

definition no_lz4 :: lz4 where
  "no_lz4 = \<lparr>lz_bound = (\<lambda>n. n), lz_compress = (\<lambda>b n. Inr b), lz_decompress = (\<lambda>b n. Inr b)\<rparr>"

definition fresh_conn :: writer where
  "fresh_conn = \<lparr>w_out = [], w_room = None, w_err = EOF, w_isconn = True\<rparr>"

theorem tcppool_get_returns_block_witness:
  "\<exists>resp r rest cw'. tcppool_Get no_lz4 True True 2 [49] 3 fresh_conn resp = (Inr r, cw', rest)
     \<and> length (bs_Body r) = 2 ^ 17"
proof -
  let ?req = "\<lparr>br_CMD = 2, br_Key = [49], br_compressOn = True, br_crcOn = True\<rparr>"
  define reqs where "reqs = [concat (replicate 3 (request_wire True ?req))]"
  define resp where "resp = [w_out (fst (tcppool_handle no_lz4 (mem_gen (\<lambda>_. 0)) fresh_conn reqs))]"
  have u: "unlimited fresh_conn" "w_out fresh_conn = []" by (simp_all add: unlimited_def fresh_conn_def)
  have wb: "write_batch 3 ?req fresh_conn = (None, fresh_conn\<lparr>w_out := concat reqs\<rparr>)"
    using write_batch_ok [of ?req fresh_conn 3] u by (simp add: reqs_def request_ok_def head_size_def request_buf_def)
  obtain res cw' rest where get: "tcppool_Get no_lz4 True True (word_of_nat 2) [49] 3 fresh_conn resp = (res, cw', rest)"
    by (metis prod_cases3)
  have cw': "concat reqs = w_out cw'"
    using get wb by (auto simp: tcppool_Get_def split: prod.splits)
  have g: "dg_Get (mem_gen (\<lambda>_. 0)) (key_of 2) = Inr (pattern word_of_nat (2 ^ 17))"
    using MemData_Get_block [of 2 "\<lambda>_. 0"] by (simp add: mem_gen_def key_size_def Let_def)
  then have lz: "dg_Get (mem_gen (\<lambda>_. 0)) (key_of 2) = Inr b \<Longrightarrow> True \<Longrightarrow> lz4_ok no_lz4 True b" for b
  proof -
    assume "dg_Get (mem_gen (\<lambda>_. 0)) (key_of 2) = Inr b"
    then have b: "b = pattern word_of_nat (2 ^ 17)" using g by simp
    then have "length b = 2 ^ 17" by simp
    then have "b \<noteq> []" by (metis length_0_conv power_not_zero zero_neq_numeral)
    then show "lz4_ok no_lz4 True b"
      using \<open>length b = 2 ^ 17\<close> by (simp add: lz4_ok_def no_lz4_def fits_pool_def pool_buf_def)
  qed
  obtain r where "res = Inr r" "dg_Get (mem_gen (\<lambda>_. 0)) (key_of 2) = Inr (bs_Body r)"
    using tcppool_get_returns_block [OF _ _ _ lz u u get cw'] by (auto simp: resp_def)
  moreover have "length (bs_Body r) = 2 ^ 17"
    using calculation(2) g by simp
  ultimately show ?thesis
    using get by (intro exI [of _ resp] exI [of _ r] exI [of _ rest] exI [of _ cw']) simp
qed

text \<open>
  A block without bytes is indistinguishable from an error: the response the server writes for it
  (uncompressed) is read by the client as an error with an empty text, in every package.
\<close>

theorem empty_block_is_error:
  assumes "bs_Err r = None" "bs_Body r = []"
  shows "\<exists>bs. put_response z r False crc = Inr bs \<and>
     (\<forall>r0 ss rest. concat ss = bs @ rest \<longrightarrow>
        (\<exists>ss'. read_response z pooled r0 ss = (Inr (r0\<lparr>bs_Err := Some []\<rparr>), ss') \<and> concat ss' = rest))"
proof (rule exI, intro conjI allI impI)
  let ?crc = "if crc then Checksum [] else 0"
  show "put_response z r False crc = Inr (response_head 0 0 ?crc)" using assms by (simp add: put_response_def)
  fix r0 ss rest assume ss: "concat ss = response_head 0 0 ?crc @ rest"
  have "concat ss = response_head 0 0 ?crc @ [] @ rest" using ss by simp
  from read_response_frame [OF this _ _ _ _, of pooled z r0] obtain ss' where
    "read_response z pooled r0 ss = (accept_payload z pooled r0 (word_of_nat 0) (word_of_nat 0) ?crc [], ss')" "concat ss' = rest"
    by (auto simp: fits_pool_def)
  then show "\<exists>ss'. read_response z pooled r0 ss = (Inr (r0\<lparr>bs_Err := Some []\<rparr>), ss') \<and> concat ss' = rest"
    by (auto simp: accept_payload_def)
qed

theorem empty_block_is_error_example:
  "\<exists>ss'. tcppool_response_Read no_lz4 new_block_response [response_head 0 0 0]
     = (Inr (new_block_response\<lparr>bs_Err := Some []\<rparr>), ss')"
proof -
  have e: "bs_Err new_block_response = None" "bs_Body new_block_response = []" by (simp_all add: new_block_response_def)
  have "put_response no_lz4 new_block_response False False = Inr (response_head 0 0 0)"
    by (simp add: put_response_def new_block_response_def)
  moreover obtain bs where bs: "put_response no_lz4 new_block_response False False = Inr bs"
      "\<forall>r0 ss rest. concat ss = bs @ rest \<longrightarrow>
        (\<exists>ss'. read_response no_lz4 True r0 ss = (Inr (r0\<lparr>bs_Err := Some []\<rparr>), ss') \<and> concat ss' = rest)"
    using empty_block_is_error [OF e, of no_lz4 False True] by blast
  ultimately have "concat [response_head 0 0 0] = bs @ []" by simp
  from bs(2) [rule_format, OF this, of new_block_response]
  have "\<exists>ss'. read_response no_lz4 True new_block_response [response_head 0 0 0]
      = (Inr (new_block_response\<lparr>bs_Err := Some []\<rparr>), ss')"
    by blast
  then show ?thesis by (auto simp: tcppool_response_Read_def)
qed

subsection \<open>gonet\<close>

lemma gonet_decode_request:
  assumes "request_ok True r"
  shows "gonet_decode new_block_request (request_wire True r @ extra) spare = Inr (carried True r)"
proof -
  let ?f = "request_wire True r @ extra"
  have len: "3 \<le> length ?f" "length (request_head True r) = 3" by (simp_all add: request_wire_def head_size_def)
  have nth: "?f ! i = request_head True r ! i" if "i < 3" for i
    using that len(2) by (simp add: request_wire_def nth_append)
  have ks: "key_size_of ?f = length (br_Key r)"
    using request_head_key [OF assms] nth by (simp add: key_size_of_def)
  have hd: "get_request_head True ?f new_block_request = get_request_head True (request_head True r) new_block_request"
    using nth by (simp add: get_request_head_def)
  have "go_slice (?f @ spare) 3 (3 + int (length (br_Key r))) = Inr (br_Key r)"
    using len(2) by (simp add: go_slice_def request_wire_def)
  then show ?thesis
    using len(1) request_head_get [OF assms] by (simp add: gonet_decode_def ks hd)
qed

text \<open>
  C32. \<open>gonet\<close> answers a frame that holds exactly one request with its block, if the pooled buffer is
  long enough; from a buffer that was last used for a shorter answer it sends the beginning of the
  block followed by whatever the array still holds from earlier answers.
\<close>

theorem gonet_serves_stale_bytes:
  assumes "request_ok True r" "block_switch dg (br_CMD r AND 0xF) = Inr (new_block_response\<lparr>bs_Body := b\<rparr>)"
    and "12 \<le> gb_len buf" "gb_len buf \<le> length (gb_array buf)" "12 + length b \<le> length (gb_array buf)"
  shows "\<exists>buf'. gonet_React dg buf (request_wire True r) spare =
       Inr (response_head 0 (length b) 0 @ take (gb_len buf - 12) b
            @ take (length b - (gb_len buf - 12)) (drop (gb_len buf) (gb_array buf)), buf')
     \<and> gb_len buf' = 12 + length b \<and> length (gb_array buf') = length (gb_array buf)"
proof -
  let ?h = "response_head 0 (length b) 0"
  let ?arr = "?h @ drop 12 (gb_array buf)"
  let ?l = "gb_len buf"
  have dec: "gonet_decode new_block_request (request_wire True r) spare = Inr (carried True r)"
    using gonet_decode_request [OF assms(1), of "[]" spare] by simp
  have c: "br_CMD (carried True r) = br_CMD r AND 0xF" "br_Key (carried True r) = br_Key r"
    by (simp_all add: carried_def)
  have len: "length (request_wire True r) = length (br_Key r) + 3" by (simp add: request_wire_def head_size_def)
  have larr: "length ?arr = length (gb_array buf)" using assms(5) by simp
  define m where "m = min (?l - 12) (length b)"
  have "length (take ?l ?arr) = ?l" using larr assms(4) by simp
  then have cp: "fst (go_copy (take ?l ?arr) 12 b) = ?h @ take m b @ drop (12 + m) (take ?l ?arr)"
    using assms(3) by (simp add: go_copy_def Let_def m_def)
  let ?arr' = "fst (go_copy (take ?l ?arr) 12 b) @ drop ?l ?arr"
  have larr': "length ?arr' = length (gb_array buf)"
    using assms(3,4) larr by simp
  have "drop (12 + m) (take ?l ?arr) @ drop ?l ?arr = drop (12 + m) ?arr"
    using assms(3) by (subst append_take_drop_id [of ?l ?arr, symmetric], subst drop_append) (simp add: m_def larr assms(4) min_def)
  moreover have "drop (12 + m) ?arr = drop (12 + m) (gb_array buf)"
    by (simp add: add.commute)
  ultimately have arr': "?arr' = ?h @ take m b @ drop (12 + m) (gb_array buf)"
    unfolding cp append_assoc by metis
  have enc: "gonet_encode (new_block_response\<lparr>bs_Body := b\<rparr>) buf = Inr (buf\<lparr>gb_array := ?arr'\<rparr>)"
    using assms(3) by (simp add: gonet_encode_def new_block_response_def)
  have "go_slice ?arr' 0 (12 + int (length b)) = Inr (take (12 + length b) ?arr')"
    using assms(5) larr' by (simp add: go_slice_def nat_add_distrib)
  moreover have "take (12 + length b) ?arr' = ?h @ take (?l - 12) b @ take (length b - (?l - 12)) (drop ?l (gb_array buf))"
    using assms(3) unfolding arr' by (cases "length b \<le> ?l - 12") (simp_all add: m_def min_def)
  ultimately show ?thesis
    unfolding gonet_React_def dec using assms(2,5) larr' by (simp add: c len enc)
qed

definition tiny_gen :: data_gen where
  "tiny_gen = \<lparr>dg_Get = (\<lambda>_. Inr [1, 2, 3, 4]), dg_GetReadCloser = (\<lambda>_. Inr [1, 2, 3, 4]), dg_GetSize = (\<lambda>_. 4)\<rparr>"

theorem gonet_serves_stale_bytes_witness:
  "\<exists>buf'. gonet_React tiny_gen \<lparr>gb_array = replicate 20 9, gb_len = 14\<rparr> (request_wire True (demo_request 0 [49])) []
     = Inr (response_head 0 4 0 @ [1, 2, 9, 9], buf')"
proof -
  have ok: "request_ok True (demo_request 0 [49])"
    by (simp add: request_ok_def demo_request_def head_size_def request_buf_def)
  have sw: "block_switch tiny_gen (br_CMD (demo_request 0 [49]) AND 0xF) = Inr (new_block_response\<lparr>bs_Body := [1, 2, 3, 4]\<rparr>)"
    by (simp add: block_switch_def demo_request_def tiny_gen_def)
  show ?thesis
    using gonet_serves_stale_bytes [OF ok sw, of "\<lparr>gb_array = replicate 20 9, gb_len = 14\<rparr>" "[]"]
    by (auto simp: eval_nat_numeral)
qed

lemma go_slice_length: "go_slice xs lo hi = Inr ys \<Longrightarrow> int (length ys) = hi - lo"
  by (auto simp: go_slice_def split: if_splits)

lemma gonet_React_length:
  assumes "gonet_React dg buf frame spare = Inr out"
  shows "length frame = 3 + key_size_of frame"
proof -
  obtain req where req: "gonet_decode new_block_request frame spare = Inr req" "length frame = length (br_Key req) + 3"
    using assms by (auto simp: gonet_React_def split: sum.splits if_splits)
  then have "length (br_Key req) = key_size_of frame"
    by (auto simp: gonet_decode_def split: sum.splits if_splits dest!: go_slice_length)
  then show ?thesis using req(2) by simp
qed

lemma gonet_React_fails:
  "length frame \<noteq> 3 + key_size_of frame \<Longrightarrow> \<exists>e. gonet_React dg buf frame spare = Inl e"
  using gonet_React_length by (metis sum.exhaust_sel)

text \<open>
  \<open>gonet\<close> takes whatever bytes the event loop has as one request: two requests that arrive
  together, or one that arrives in two parts, make the handler panic instead of being served.
\<close>

theorem gonet_needs_whole_frames:
  assumes "request_ok True r"
  shows "(extra \<noteq> [] \<longrightarrow> gonet_React dg buf (request_wire True r @ extra) spare = Inl (Panic ''frame len'')) \<and>
    (n < length (request_wire True r) \<longrightarrow> (\<exists>e. gonet_React dg buf (take n (request_wire True r)) spare = Inl e))"
proof (intro conjI impI)
  have "length (request_wire True r @ extra) = length (br_Key (carried True r)) + 3 + length extra"
    by (simp add: request_wire_def head_size_def carried_def)
  moreover assume "extra \<noteq> []"
  ultimately show "gonet_React dg buf (request_wire True r @ extra) spare = Inl (Panic ''frame len'')"
    unfolding gonet_React_def gonet_decode_request [OF assms] by simp
next
  assume n: "n < length (request_wire True r)"
  have len: "length (request_head True r) = 3" by (simp add: head_size_def)
  show "\<exists>e. gonet_React dg buf (take n (request_wire True r)) spare = Inl e"
  proof (cases "n < 3")
    case True
    then have "length (take n (request_wire True r)) < 3" by simp
    then show ?thesis by (simp add: gonet_React_def gonet_decode_def del: length_take)
  next
    case False
    then have "key_size_of (take n (request_wire True r)) = length (br_Key r)"
      using request_head_key [OF assms] len by (simp add: key_size_of_def request_wire_def nth_append)
    then show ?thesis
      using n len by (intro gonet_React_fails) (simp add: request_wire_def)
  qed
qed

theorem gonet_needs_whole_frames_witness:
  "gonet_React tiny_gen gonet_new_buf (request_wire True (demo_request 0 [49]) @ request_wire True (demo_request 1 [49])) []
     = Inl (Panic ''frame len'')
   \<and> (\<exists>e. gonet_React tiny_gen gonet_new_buf (take 3 (request_wire True (demo_request 0 [49]))) [] = Inl e)"
proof -
  have ok: "request_ok True (demo_request 0 [49])"
    by (simp add: request_ok_def demo_request_def head_size_def request_buf_def)
  have "request_wire True (demo_request 1 [49]) \<noteq> []" "3 < length (request_wire True (demo_request 0 [49]))"
    by (simp_all add: request_wire_def request_head_def demo_request_def Let_def)
  then show ?thesis using gonet_needs_whole_frames [OF ok] by blast
qed

text \<open>
  For an unknown command \<open>gonet\<close> sends only the twelve bytes of the header, which announce a text of
  fifteen bytes: the client's read of this answer ends in an error of the connection or takes the text
  from the next answer.
\<close>

theorem gonet_error_truncated:
  assumes "request_ok True r" "5 \<le> br_CMD r AND 0xF" "12 \<le> gb_len buf" "gb_len buf \<le> length (gb_array buf)"
  shows "\<exists>buf'. gonet_React dg buf (request_wire True r) spare = Inr (response_head 15 0 0, buf') \<and> gb_len buf' = 12
     \<and> fst (gonet_response_Read z new_block_response [response_head 15 0 0]) = Inl EOF"
proof -
  have dec: "gonet_decode new_block_request (request_wire True r) spare = Inr (carried True r)"
    using gonet_decode_request [OF assms(1), of "[]" spare] by simp
  have c: "br_CMD (carried True r) = br_CMD r AND 0xF" "br_Key (carried True r) = br_Key r"
    by (simp_all add: carried_def)
  have len: "length (request_wire True r) = length (br_Key r) + 3" by (simp add: request_wire_def head_size_def)
  let ?res = "new_block_response\<lparr>bs_Err := Some (bytes_of ''invalid command'')\<rparr>"
  let ?arr = "response_head 15 0 0 @ drop 12 (gb_array buf)"
  define arr' where "arr' = fst (go_copy (take (gb_len buf) ?arr) 12 (bytes_of ''invalid command'')) @ drop (gb_len buf) ?arr"
  have "gonet_encode ?res buf = Inr (buf\<lparr>gb_array := arr'\<rparr>)"
    using assms(3) by (simp add: gonet_encode_def arr'_def eval_nat_numeral)
  moreover have "take 12 arr' = response_head 15 0 0" "12 \<le> length arr'"
    using assms(3,4) by (simp_all add: arr'_def go_copy_def Let_def)
  ultimately have enc: "gonet_encode ?res buf = Inr (buf\<lparr>gb_array := arr'\<rparr>)" "take 12 arr' = response_head 15 0 0"
      "12 \<le> length arr'" by auto
  have "go_slice arr' 0 (12 + int (length (bs_Body ?res))) = Inr (response_head 15 0 0)"
    using enc(2,3) by (simp add: go_slice_def new_block_response_def)
  moreover have "fst (gonet_response_Read z new_block_response [response_head 15 0 0]) = Inl EOF"
    by (simp add: gonet_response_Read_def read_response_def read_full_def Let_def payload_size_def fresh_payload_def
        max_payload_def response_head_def put_u32_def)
  ultimately show ?thesis
    unfolding gonet_React_def dec by (simp add: c len block_switch_error [OF assms(2)] enc(1))
qed

theorem gonet_error_truncated_example:
  "\<exists>buf'. gonet_React tiny_gen gonet_new_buf (request_wire True (demo_request 7 [])) [] = Inr (response_head 15 0 0, buf')"
proof -
  have ok: "request_ok True (demo_request 7 [])" "5 \<le> br_CMD (demo_request 7 []) AND 0xF"
    by (simp_all add: request_ok_def demo_request_def head_size_def request_buf_def)
  have "12 \<le> gb_len gonet_new_buf" "gb_len gonet_new_buf \<le> length (gb_array gonet_new_buf)"
    by (simp_all add: gonet_new_buf_def)
  from gonet_error_truncated [OF ok this] show ?thesis by blast
qed

subsection \<open>tcpsendfile\<close>

text \<open>The reader that each of \<open>n\<close> requests leaves open: the second it opens.\<close>

definition second_readers :: "open_readers \<Rightarrow> nat \<Rightarrow> nat list" where
  "second_readers rd n = map (\<lambda>i. rd_next rd + 2 * i + 1) (rev [0..<n])"

lemma second_readers_Suc:
  "second_readers rd (Suc n) =
     second_readers (rd\<lparr>rd_next := rd_next rd + 2, rd_open := xs\<rparr>) n @ [rd_next rd + 1]"
  by (simp add: second_readers_def upt_conv_Cons map_Suc_upt [symmetric] rev_map comp_def del: upt_Suc map_Suc_upt)

context streamed_data begin

lemma sendfile_requests:
  "list_all (request_ok False) reqs \<Longrightarrow> list_all (\<lambda>r. unat (br_CMD r AND 0xF) < 5) reqs \<Longrightarrow>
   concat ss = concat (map (request_wire False) reqs) \<Longrightarrow> unlimited w \<Longrightarrow>
     sendfile_handle env MODE_SENDFILE dg w rd ss =
       Some (EOF, w\<lparr>w_out := w_out w @ concat (map (\<lambda>r. block (unat (br_CMD r AND 0xF))) reqs)\<rparr>,
         \<lparr>rd_next = rd_next rd + 2 * length reqs, rd_open = second_readers rd (length reqs) @ rd_open rd\<rparr>)"
proof (induction reqs arbitrary: w rd ss)
  case Nil
  then obtain rest where "get_request False new_block_request ss = (Inl EOF, rest)"
    using get_request_end by fastforce
  then show ?case
    by (simp add: sendfile_handle.simps [of env MODE_SENDFILE dg w rd ss] sendfile_request_Read_def second_readers_def)
next
  case (Cons req reqs)
  have ok: "request_ok False req" "unat (br_CMD req AND 0xF) < 5" using Cons.prems(1,2) by simp_all
  obtain ss' where ss': "get_request False new_block_request ss = (Inr (carried False req), ss')"
      "concat ss' = concat (map (request_wire False) reqs)"
    using get_request_ok [OF ok(1), of ss "concat (map (request_wire False) reqs)"] Cons.prems(3) by auto
  have c: "br_CMD (carried False req) = br_CMD req AND 0xF" by (simp add: carried_def)
  let ?b = "block (unat (br_CMD req AND 0xF))"
  let ?rd = "\<lparr>rd_next = rd_next rd + 2, rd_open = (rd_next rd + 1) # rd_open rd\<rparr>"
  have "sendfile_serve env MODE_SENDFILE dg w rd (br_CMD req AND 0xF) = Some (None, w\<lparr>w_out := w_out w @ ?b\<rparr>, ?rd)"
    using Cons.prems(4)
    by (simp add: sendfile_serve_def reader_open_def reader_Close_def Let_def block_opens [OF ok(2)] send_unlimited)
  then show ?case
    using Cons.IH [OF _ _ ss'(2), of "w\<lparr>w_out := w_out w @ ?b\<rparr>" ?rd] Cons.prems ss'(1)
      second_readers_Suc [of rd "length reqs" "(rd_next rd + 1) # rd_open rd"]
    by (simp add: sendfile_handle.simps [of env MODE_SENDFILE dg w rd ss] sendfile_request_Read_def c)
      (simp add: second_readers_def)
qed

end

text \<open>
  C31. \<open>tcpsendfile\<close> in its default mode answers a sequence of requests for any of the five keys with the
  bytes of their files, one after the other in the order of the requests, and these bytes are those of the
  memory generator. Each request leaves one open file behind: of the two readers it opens, the second, whose
  bytes it sends, is never closed.
\<close>

theorem sendfile_streams_and_leaks:
  assumes "list_all (request_ok False) reqs" "list_all (\<lambda>r. unat (br_CMD r AND 0xF) < 5) reqs" "unlimited w"
    and "concat ss = concat (map (request_wire False) reqs)"
  shows "\<exists>bs. list_all2 (\<lambda>r b. dg_Get (mem_gen rand) (key_of (unat (br_CMD r AND 0xF))) = Inr b) reqs bs \<and>
     sendfile_handle env MODE_SENDFILE (disk_gen rand dir) w rd ss =
       Some (EOF, w\<lparr>w_out := w_out w @ concat bs\<rparr>,
         \<lparr>rd_next = rd_next rd + 2 * length reqs, rd_open = second_readers rd (length reqs) @ rd_open rd\<rparr>)"
proof -
  have same: "dg_Get (mem_gen rand) (key_of k) = dg_GetReadCloser (disk_gen rand dir) (key_of k)" if "k < 5" for k
  proof -
    obtain fs' where "NewFileData (\<lambda>_. None) rand (dir @ ''/'') Map.empty = Inr fs'"
        "dg_GetReadCloser (file_gen (dir @ ''/'') fs' 0) (key_of k) = dg_Get (mem_gen rand) (key_of k)"
      using new_files [of "\<lambda>_. None" rand dir Map.empty 0 rand, OF refl] \<open>k < 5\<close> by blast
    then show ?thesis by (simp add: disk_gen_def disk_def)
  qed
  note run = files.sendfile_requests [where rand = rand and dir = dir and env = env, OF assms(1,2,4,3)]
  show ?thesis
    by (rule exI, rule conjI [OF _ run])
      (use assms(2) same files.block_opens in \<open>auto simp: list_all2_map2 list_all_iff list.rel_refl_strong list_all2_same\<close>)
qed

definition no_splice_env :: us_env where
  "no_splice_env = \<lparr>us_isconn = True, us_get = None, us_grow = (\<lambda>_. None), us_load = Inr 0, us_raw = None,
     us_page = 4096, us_writes = []\<rparr>"

definition no_readers :: open_readers where
  "no_readers = \<lparr>rd_next = 0, rd_open = []\<rparr>"

theorem sendfile_streams_and_leaks_witness:
  "\<exists>b0 b1 rd'. dg_Get (mem_gen (\<lambda>_. 0)) (key_of 0) = Inr b0 \<and> dg_Get (mem_gen (\<lambda>_. 0)) (key_of 1) = Inr b1
     \<and> sendfile_handle no_splice_env MODE_SENDFILE (disk_gen (\<lambda>_. 0) ''./data'') fresh_conn no_readers
         [concat (map (request_wire False) [demo_request 1 [49], demo_request 0 []])]
       = Some (EOF, fresh_conn\<lparr>w_out := b1 @ b0\<rparr>, rd') \<and> rd_open rd' = [3, 1]"
proof -
  let ?reqs = "[demo_request 1 [49], demo_request 0 []]"
  have c: "unat (br_CMD (demo_request 0 []) AND 0xF) = 0" "unat (br_CMD (demo_request 1 [49]) AND 0xF) = 1"
    by (simp_all add: demo_request_def)
  have ok: "list_all (request_ok False) ?reqs" "list_all (\<lambda>r. unat (br_CMD r AND 0xF) < 5) ?reqs"
    unfolding list.pred_inject c by (simp_all add: request_ok_def demo_request_def head_size_def request_buf_def)
  have u: "unlimited fresh_conn" by (simp add: unlimited_def fresh_conn_def)
  have ss: "concat [concat (map (request_wire False) ?reqs)] = concat (map (request_wire False) ?reqs)" by simp
  obtain bs where bs: "list_all2 (\<lambda>r b. dg_Get (mem_gen (\<lambda>_. 0)) (key_of (unat (br_CMD r AND 0xF))) = Inr b) ?reqs bs"
    "sendfile_handle no_splice_env MODE_SENDFILE (disk_gen (\<lambda>_. 0) ''./data'') fresh_conn no_readers
         [concat (map (request_wire False) ?reqs)] = Some (EOF, fresh_conn\<lparr>w_out := w_out fresh_conn @ concat bs\<rparr>,
       \<lparr>rd_next = rd_next no_readers + 2 * length ?reqs,
        rd_open = second_readers no_readers (length ?reqs) @ rd_open no_readers\<rparr>)"
    using sendfile_streams_and_leaks [OF ok u ss, of "\<lambda>_. 0" no_splice_env "''./data''" no_readers] by blast
  then obtain b1 b0 where b: "bs = [b1, b0]" "dg_Get (mem_gen (\<lambda>_. 0)) (key_of 1) = Inr b1" "dg_Get (mem_gen (\<lambda>_. 0)) (key_of 0) = Inr b0"
    unfolding list_all2_Cons1 c list_all2_Nil by blast
  have "w_out fresh_conn @ concat bs = b1 @ b0" by (simp add: b(1) fresh_conn_def)
  moreover have "second_readers no_readers (length ?reqs) @ rd_open no_readers = [3, 1]"
    by (simp add: second_readers_def no_readers_def)
  ultimately have "sendfile_handle no_splice_env MODE_SENDFILE (disk_gen (\<lambda>_. 0) ''./data'') fresh_conn no_readers
         [concat (map (request_wire False) ?reqs)] = Some (EOF, fresh_conn\<lparr>w_out := b1 @ b0\<rparr>,
       \<lparr>rd_next = rd_next no_readers + 2 * length ?reqs, rd_open = [3, 1]\<rparr>)"
    using bs(2) by simp
  then show ?thesis using b(2,3) by (metis open_readers.select_convs(2))
qed

text \<open>
  Nothing checks the command of a \<open>tcpsendfile\<close> request: one from 5 to 15 names a file that does not
  exist, opening it panics, and the panic ends the process with all its connections.
\<close>

theorem sendfile_unknown_command_panics:
  assumes "request_ok False req" "concat ss = request_wire False req @ rest"
    and "mode \<noteq> MODE_SENDBUF" "fs (clean_path (base @ key_of (unat (br_CMD req AND 0xF)))) = None"
  shows "sendfile_handle env mode (file_gen base fs c) w rd ss = Some (Panic ''open'', w, rd)"
proof -
  obtain ss' where ss': "get_request False new_block_request ss = (Inr (carried False req), ss')"
    using get_request_ok [OF assms(1,2)] .
  have c: "br_CMD (carried False req) = br_CMD req AND 0xF" by (simp add: carried_def)
  have "dg_GetReadCloser (file_gen base fs c) (key_of (unat (br_CMD req AND 0xF))) = Inl (Panic ''open'')"
    using assms(4) by (simp add: file_gen_def FileData_GetReadCloser_def)
  then show ?thesis
    using assms(3) ss'
    by (cases mode) (simp_all add: sendfile_handle.simps [of env _ "file_gen base fs c" w rd ss] sendfile_request_Read_def
        c sendfile_serve_def reader_open_def Let_def)
qed

theorem sendfile_unknown_command_panics_example:
  "sendfile_handle no_splice_env MODE_SENDFILE (file_gen ''./data/'' [''./data/key0'' \<mapsto> [1]] 0) fresh_conn no_readers
     [request_wire False (demo_request 9 [])] = Some (Panic ''open'', fresh_conn, no_readers)"
proof (rule sendfile_unknown_command_panics [of "demo_request 9 []" _ "[]"])
  show "request_ok False (demo_request 9 [])"
    by (simp add: request_ok_def demo_request_def head_size_def request_buf_def)
  show "[''./data/key0'' \<mapsto> [1 :: byte]] (clean_path (''./data/'' @ key_of (unat (br_CMD (demo_request 9 []) AND 0xF)))) = None"
    by code_simp
qed simp_all

end
