(* ===== verification/Pipe_Utils.thy ===== *)
theory Pipe_Utils
  imports Block_Servers
begin

text \<open>
  The rest of package \<open>utils\<close>: the pipe constructors for connections and buffers
  (\<open>utils/splice_utils.go\<close>; \<open>PipeFile\<close> and \<open>SpliceSendFile\<close> are in \<open>Block_Servers\<close>), the reader of a byte
  slice, and the LZ4 helper that guesses the size of its output (\<open>utils/utils.go\<close>).
\<close>

section \<open>Pipes\<close>

text \<open>
  \<open>PipeConn\<close>: the callback loads once each time the connection is readable and stops at the size asked
  for or at an error other than the two it waits on. Unlike its namesake in \<open>body.go\<close> it forgets the pipe
  on every error, and a load of 0 bytes is not the end.
\<close>

fun utils_load_loop :: "us_result list \<Rightarrow> int \<Rightarrow> int \<Rightarrow> byte list \<Rightarrow> byte list \<Rightarrow>
    (go_error option \<times> byte list \<times> byte list) option" where
  "utils_load_loop [] sz dn src pipe = None"
| "utils_load_loop (UsOk n # rs) sz dn src pipe =
     (let k = moved n sz dn src in
      if dn + int k = sz then Some (None, drop k src, pipe @ take k src)
      else utils_load_loop rs sz (dn + int k) (drop k src) (pipe @ take k src))"
| "utils_load_loop (UsErr again e # rs) sz dn src pipe =
     (if again then utils_load_loop rs sz dn src pipe else Some (Some e, src, pipe))"
| "utils_load_loop (UsPoll e # rs) sz dn src pipe = Some (Some e, src, pipe)"

definition utils_PipeConn :: "us_env \<Rightarrow> byte list \<Rightarrow> int \<Rightarrow> ((go_error + byte list) \<times> byte list \<times> pair_fate) option" where
  "utils_PipeConn env conn sz =
     (case us_get env of
        Some e \<Rightarrow> Some (Inl (Wrap ''get pipe pair'' e), conn, NotTaken)
      | None \<Rightarrow>
          (case us_grow env (utils_alignSize (us_page env) sz) of
             Some e \<Rightarrow> Some (Inl (Wrap ''grow pipe pair'' e), conn, Forgotten)
           | None \<Rightarrow>
               (case us_raw env of
                  Some e \<Rightarrow> Some (Inl (Wrap ''get raw conn'' e), conn, Forgotten)
                | None \<Rightarrow>
                    (case utils_load_loop (us_writes env) sz 0 conn [] of
                       None \<Rightarrow> None
                     | Some (Some e, rest, pipe) \<Rightarrow> Some (Inl (Wrap ''pair load file'' e), rest, Forgotten)
                     | Some (None, rest, pipe) \<Rightarrow> Some (Inr pipe, rest, InPipe)))))"

text \<open>\<open>PipeBuffer\<close> on a buffer of one slice; \<open>wr\<close> is the answer of \<open>write\<close>, whose count is ignored.\<close>

definition utils_PipeBuffer :: "us_env \<Rightarrow> nat \<times> go_error option \<Rightarrow> byte list \<Rightarrow> int \<Rightarrow> (go_error + byte list) \<times> pair_fate" where
  "utils_PipeBuffer env wr chunk sz =
     (case us_get env of
        Some e \<Rightarrow> (Inl (Wrap ''get pipe pair'' e), NotTaken)
      | None \<Rightarrow>
          (case us_grow env (utils_alignSize (us_page env) sz) of
             Some e \<Rightarrow> (Inl (Wrap ''grow pipe pair'' e), Forgotten)
           | None \<Rightarrow>
               (case wr of
                  (n, Some e) \<Rightarrow> (Inl (Wrap ''pair load buffer'' e), Forgotten)
                | (n, None) \<Rightarrow> (Inr (take n chunk), InPipe))))"

lemma utils_load_loop_ok:
  "utils_load_loop rs sz dn src pipe = Some (None, rest, pipe') \<Longrightarrow> dn \<le> sz \<Longrightarrow>
     pipe' = pipe @ take (nat (sz - dn)) src \<and> rest = drop (nat (sz - dn)) src \<and> nat (sz - dn) \<le> length src"
proof (induction rs sz dn src pipe rule: utils_load_loop.induct)
  case (2 n rs sz dn src pipe)
  let ?k = "moved n sz dn src"
  have k: "?k \<le> length src" "int ?k \<le> sz - dn" using moved_int [of n sz dn src] "2.prems"(2) by auto
  show ?case
  proof (cases "dn + int ?k = sz")
    case True
    then have "?k = nat (sz - dn)" by linarith
    then show ?thesis using True "2.prems" k(1) by (auto simp: Let_def)
  next
    case False
    note ih = "2.IH" [OF refl False, simplified]
    have s: "nat (sz - dn) = ?k + nat (sz - (dn + int ?k))" using k(2) by linarith
    show ?thesis
      using ih "2.prems" False k by (auto simp: Let_def s take_split drop_split add.commute)
  qed
qed (auto split: if_splits)

text \<open>A pipe that is filled holds exactly the next \<open>sz\<close> bytes of the connection; every failure after \<open>Get\<close> forgets the pair.\<close>

lemma utils_PipeConn_ok:
  assumes "utils_PipeConn env conn sz = Some (Inr pipe, rest, fate)" "0 \<le> sz"
  shows "pipe = take (nat sz) conn \<and> rest = drop (nat sz) conn \<and> nat sz \<le> length conn \<and> fate = InPipe"
proof -
  have l: "utils_load_loop (us_writes env) sz 0 conn [] = Some (None, rest, pipe)" and "fate = InPipe"
    using assms(1) by (auto simp: utils_PipeConn_def split: option.splits)
  then show ?thesis using utils_load_loop_ok [OF l assms(2)] by simp
qed

lemma utils_PipeConn_forgets:
  "utils_PipeConn env conn sz = Some (Inl e, rest, fate) \<Longrightarrow> us_get env = None \<Longrightarrow> fate = Forgotten"
  by (auto simp: utils_PipeConn_def split: option.splits)

section \<open>A byte slice as a reader\<close>

definition buffer_Read :: "nat \<Rightarrow> byte list \<Rightarrow> (go_error + byte list) \<times> byte list" where
  "buffer_Read n b = (if b = [] then (Inl EOF, b) else (Inr (take n b), if n < length b then drop n b else []))"

lemma buffer_Read_splits: "buffer_Read n b = (Inr bs, b') \<Longrightarrow> bs @ b' = b"
  by (auto simp: buffer_Read_def split: if_splits)

section \<open>Unpacking without a size\<close>

text \<open>
  \<open>LZ4_decompress_safe\<close> starts with three times the input and doubles the buffer after every error. \<open>fast n\<close>
  is what the library makes of the input with a buffer of \<open>n\<close> bytes.
\<close>

partial_function (option) grow_until :: "(nat \<Rightarrow> go_error + byte list) \<Rightarrow> nat \<Rightarrow> byte list option" where
  "grow_until fast n = (case fast n of Inr bs \<Rightarrow> Some bs | Inl e \<Rightarrow> grow_until fast (n * 2))"

definition LZ4_decompress_safe :: "(nat \<Rightarrow> go_error + byte list) \<Rightarrow> byte list \<Rightarrow> (go_error + byte list) option" where
  "LZ4_decompress_safe fast src =
     (if src = [] then Some (Inl (ErrMsg ''empty LZ4 input''))
      else map_option Inr (grow_until fast (length src * 3)))"

lemma grow_until_Some:
  assumes "grow_until fast n = Some bs"
  shows "\<exists>k. fast (n * 2 ^ k) = Inr bs"
proof (rule grow_until.raw_induct [where P = "\<lambda>fast n bs. \<exists>k. fast (n * 2 ^ k) = Inr bs", OF _ assms])
  fix f fast n bs
  assume ih: "\<And>fast n bs. f fast n = Some bs \<Longrightarrow> \<exists>k. fast (n * 2 ^ k :: nat) = Inr bs"
    and eq: "(case fast n of Inl e \<Rightarrow> f fast (n * 2) | Inr bs \<Rightarrow> Some bs) = Some bs"
  show "\<exists>k. fast (n * 2 ^ k) = Inr bs"
  proof (cases "fast n")
    case (Inr b)
    then show ?thesis using eq by (intro exI [of _ 0]) simp
  next
    case (Inl e)
    then obtain k where "fast (n * 2 * 2 ^ k) = Inr bs" using ih [of fast "n * 2" bs] eq by auto
    then show ?thesis by (intro exI [of _ "Suc k"]) (simp add: mult.assoc)
  qed
qed

lemma grow_until_reaches:
  "fast (n * 2 ^ k) = Inr bs \<Longrightarrow> \<exists>bs'. grow_until fast n = Some bs'"
proof (induction k arbitrary: n)
  case 0
  then show ?case by (simp add: grow_until.simps)
next
  case (Suc k)
  have "fast (n * 2 * 2 ^ k) = Inr bs" using Suc.prems by (simp add: mult.assoc)
  then obtain bs' where "grow_until fast (n * 2) = Some bs'" using Suc.IH by blast
  then show ?case by (cases "fast n") (simp_all add: grow_until.simps [of fast n])
qed

text \<open>
  The helper returns exactly when one of the doubled buffers is large enough. Damaged input, which no
  buffer can hold, keeps it allocating until the memory is used up.
\<close>

lemma LZ4_decompress_safe_returns:
  assumes "src \<noteq> []"
  shows "(\<exists>r. LZ4_decompress_safe fast src = Some r) \<longleftrightarrow> (\<exists>k bs. fast (length src * 3 * 2 ^ k) = Inr bs)"
  using assms grow_until_reaches [of fast "length src * 3"] grow_until_Some [of fast "length src * 3"]
  by (auto simp: LZ4_decompress_safe_def) blast+

end
