(* ===== verification/Net_Setup.thy ===== *)
theory Net_Setup
  imports Block_Servers "HOL-Library.Sublist"
begin

text \<open>
  How the block servers come up: the search for the local address (\<open>utils.FindLocalIP\<close>), the constructors
  of the packages under \<open>pkg/net\<close>, the loops that look for a free port, and the accept loops. The machine's
  interfaces and the answers of \<open>net.Listen\<close> and \<open>Accept\<close> are arguments.
\<close>

section \<open>The local address\<close>

text \<open>Addresses as package \<open>net\<close> distinguishes them: IPv4 by its four bytes, everything else.\<close>

datatype ip_addr = IPv4 nat nat nat nat | IPv6 bool

datatype net_addr = IPNet ip_addr | IPAddr ip_addr | OtherAddr

record net_iface =
  if_up :: bool
  if_loopback :: bool
  if_name :: string
  if_addrs :: "go_error + net_addr list"

fun ip_string :: "ip_addr \<Rightarrow> string" where
  "ip_string (IPv4 a b c d) = decimal a @ ''.'' @ decimal b @ ''.'' @ decimal c @ ''.'' @ decimal d"
| "ip_string (IPv6 lo) = ''''"

fun IsLoopback :: "ip_addr \<Rightarrow> bool" where
  "IsLoopback (IPv4 a b c d) = (a = 127)"
| "IsLoopback (IPv6 lo) = lo"

text \<open>The first loop of \<open>FindLocalIP\<close>: cut \<open>.0\<close> off the end of the mask while there is one.\<close>

function cut_mask :: "string \<Rightarrow> string" where
  "cut_mask msk = (if suffix ''.0'' msk then cut_mask (take (length msk - 2) msk) else msk)"
  by pat_completeness auto
termination
  by (relation "measure length") (auto dest: suffix_length_le)

declare cut_mask.simps [simp del]

text \<open>The address of an entry that the inner loop returns, if it does not skip it.\<close>

definition usable_addr :: "string \<Rightarrow> net_addr \<Rightarrow> string option" where
  "usable_addr msk addr =
     (case (case addr of IPNet ip \<Rightarrow> Some ip | IPAddr ip \<Rightarrow> Some ip | OtherAddr \<Rightarrow> None) of
        None \<Rightarrow> None
      | Some ip \<Rightarrow>
          if IsLoopback ip then None
          else case ip of
                 IPv6 lo \<Rightarrow> None
               | IPv4 a b c d \<Rightarrow> if prefix msk (ip_string ip) then Some (ip_string ip) else None)"

fun find_addr :: "string \<Rightarrow> net_addr list \<Rightarrow> string option" where
  "find_addr msk [] = None"
| "find_addr msk (a # as) = (case usable_addr msk a of Some s \<Rightarrow> Some s | None \<Rightarrow> find_addr msk as)"

definition skip_iface :: "string \<Rightarrow> string \<Rightarrow> net_iface \<Rightarrow> bool" where
  "skip_iface msk iname i \<longleftrightarrow>
     (\<not> if_up i \<and> iname = '''' \<and> msk = '''') \<or> if_loopback i
     \<or> (iname \<noteq> '''' \<and> if_name i \<noteq> iname \<and> \<not> prefix (iname @ ''.'') (if_name i))"

fun find_iface :: "string \<Rightarrow> string \<Rightarrow> net_iface list \<Rightarrow> go_error + string" where
  "find_iface msk iname [] = Inl (ErrMsg ''are you connected to the network?'')"
| "find_iface msk iname (i # is) =
     (if skip_iface msk iname i then find_iface msk iname is
      else case if_addrs i of
             Inl e \<Rightarrow> Inl e
           | Inr addrs \<Rightarrow>
               (case find_addr msk addrs of Some s \<Rightarrow> Inr s | None \<Rightarrow> find_iface msk iname is))"

definition FindLocalIP :: "(go_error + net_iface list) \<Rightarrow> string \<Rightarrow> string \<Rightarrow> go_error + string" where
  "FindLocalIP ifs msk iname =
     (case ifs of Inl e \<Rightarrow> Inl e | Inr ifaces \<Rightarrow> find_iface (cut_mask msk) iname ifaces)"

section \<open>Constructors\<close>

record block_server =
  bs_mode :: server_mode
  bs_ip :: string
  bs_port :: nat

definition default_mode :: server_mode where
  "default_mode = MODE_SENDFILE"

definition with_ip :: "(go_error + string) \<Rightarrow> server_mode \<Rightarrow> go_error + block_server" where
  "with_ip ip mode = (case ip of Inl e \<Rightarrow> Inl e | Inr a \<Rightarrow> Inr \<lparr>bs_mode = mode, bs_ip = a, bs_port = 8000\<rparr>)"

text \<open>\<open>SERVER_MODE\<close> chooses the mode of three packages; \<open>tcppool\<close> does not use it.\<close>

definition tcppool_NewServer :: "(go_error + net_iface list) \<Rightarrow> string \<Rightarrow> string \<Rightarrow> string \<Rightarrow> go_error + block_server" where
  "tcppool_NewServer ifs mode ip iname = with_ip (FindLocalIP ifs ip iname) (mode_of mode)"

definition sendfile_NewServer :: "(go_error + net_iface list) \<Rightarrow> string \<Rightarrow> string \<Rightarrow> string \<Rightarrow> go_error + block_server" where
  "sendfile_NewServer ifs mode ip iname = with_ip (FindLocalIP ifs ip iname) (mode_of mode)"

definition quic_NewServer :: "(go_error + net_iface list) \<Rightarrow> string \<Rightarrow> string \<Rightarrow> go_error + block_server" where
  "quic_NewServer ifs ip iname = with_ip (FindLocalIP ifs ip iname) default_mode"

definition gonet_NewServer :: "(go_error + net_iface list) \<Rightarrow> string \<Rightarrow> string \<Rightarrow> go_error + block_server" where
  "gonet_NewServer ifs ip iname = with_ip (FindLocalIP ifs ip iname) default_mode"

definition jnet_NewServer :: "(go_error + net_iface list) \<Rightarrow> string \<Rightarrow> string \<Rightarrow> go_error + block_server" where
  "jnet_NewServer ifs ip iname = with_ip (FindLocalIP ifs ip iname) default_mode"

definition gorpc_NewServer :: "(go_error + net_iface list) \<Rightarrow> string \<Rightarrow> string \<Rightarrow> go_error + block_server" where
  "gorpc_NewServer ifs ip iname = with_ip (FindLocalIP ifs ip iname) default_mode"

definition server_Addr :: "block_server \<Rightarrow> string" where
  "server_Addr s = bs_ip s @ '':'' @ decimal (bs_port s)"

section \<open>Looking for a port\<close>

text \<open>
  \<open>listens p\<close> is what \<open>net.Listen\<close> says of port \<open>p\<close>. The loop of \<open>tcppool\<close>, \<open>tcpsendfile\<close> and \<open>jnet\<close> goes
  on until one listens, \<open>None\<close> if none ever does; the loop of \<open>quic\<close> stops at 9000, with the last error.
\<close>

partial_function (option) listen_from :: "(nat \<Rightarrow> go_error option) \<Rightarrow> nat \<Rightarrow> nat option" where
  "listen_from listens p = (case listens p of None \<Rightarrow> Some p | Some e \<Rightarrow> listen_from listens (p + 1))"

function quic_listen :: "(nat \<Rightarrow> go_error option) \<Rightarrow> nat \<Rightarrow> go_error option \<Rightarrow> nat \<times> go_error option" where
  "quic_listen listens p err =
     (if p < 9000
      then case listens p of
             None \<Rightarrow> (p, None)
           | Some e \<Rightarrow> quic_listen listens (p + 1) (Some e)
      else (p, err))"
  by pat_completeness auto
termination
  by (relation "measure (\<lambda>(listens, p, err). 9000 - p)") auto

declare quic_listen.simps [simp del]

text \<open>
  The accept loop: connections are handed to handlers until \<open>Accept\<close> fails. The error of the loop is a
  new variable that shadows the result, so \<open>Serve\<close> returns nil. \<open>None\<close>: still accepting.
\<close>

fun accept_loop :: "(go_error + 'c) list \<Rightarrow> 'c list \<times> go_error option option" where
  "accept_loop [] = ([], None)"
| "accept_loop (Inl e # as) = ([], Some None)"
| "accept_loop (Inr c # as) = (case accept_loop as of (cs, r) \<Rightarrow> (c # cs, r))"

definition tcp_Serve :: "(nat \<Rightarrow> go_error option) \<Rightarrow> (go_error + 'c) list \<Rightarrow> block_server \<Rightarrow>
    (block_server \<times> 'c list \<times> go_error option option) option" where
  "tcp_Serve listens accepts s =
     (case listen_from listens (bs_port s) of
        None \<Rightarrow> None
      | Some p \<Rightarrow> (case accept_loop accepts of (cs, r) \<Rightarrow> Some (s\<lparr>bs_port := p\<rparr>, cs, r)))"

definition tcppool_Serve :: "(nat \<Rightarrow> go_error option) \<Rightarrow> (go_error + 'c) list \<Rightarrow> block_server \<Rightarrow>
    (block_server \<times> 'c list \<times> go_error option option) option" where
  "tcppool_Serve = tcp_Serve"

definition sendfile_Serve :: "(nat \<Rightarrow> go_error option) \<Rightarrow> (go_error + 'c) list \<Rightarrow> block_server \<Rightarrow>
    (block_server \<times> 'c list \<times> go_error option option) option" where
  "sendfile_Serve = tcp_Serve"

definition jnet_Serve :: "(nat \<Rightarrow> go_error option) \<Rightarrow> (go_error + 'c) list \<Rightarrow> block_server \<Rightarrow>
    (block_server \<times> 'c list \<times> go_error option option) option" where
  "jnet_Serve = tcp_Serve"

text \<open>
  \<open>quic\<close> goes on with a nil socket when no port was free; \<open>tls\<close> and \<open>early\<close> are the errors of making the
  certificate and of \<open>ListenEarly\<close> on the socket, if there is one.
\<close>

definition quic_Serve :: "(nat \<Rightarrow> go_error option) \<Rightarrow> go_error option \<Rightarrow> (bool \<Rightarrow> go_error option) \<Rightarrow> (go_error + 'c) list \<Rightarrow>
    block_server \<Rightarrow> block_server \<times> 'c list \<times> go_error option option" where
  "quic_Serve listens tls early accepts s =
     (case quic_listen listens (bs_port s) None of
        (p, err) \<Rightarrow>
          (let s1 = s\<lparr>bs_port := p\<rparr> in
           case tls of
             Some e \<Rightarrow> (s1, [], Some (Some e))
           | None \<Rightarrow>
               (case early (err = None \<and> p < 9000) of
                  Some e \<Rightarrow> (s1, [], Some (Some e))
                | None \<Rightarrow> (case accept_loop accepts of (cs, r) \<Rightarrow> (s1, cs, r)))))"

section \<open>What FindLocalIP finds\<close>

lemma cut_mask_plain: "\<not> suffix ''.0'' msk \<Longrightarrow> cut_mask msk = msk"
  by (subst cut_mask.simps) simp

lemma cut_mask_zero: "cut_mask (msk @ ''.0'') = cut_mask msk"
  by (subst cut_mask.simps) (simp add: suffix_def)

lemma cut_mask_ends: "\<not> suffix ''.0'' (cut_mask msk)"
  by (induction msk rule: cut_mask.induct) (subst cut_mask.simps, simp)

text \<open>The candidates in the order of the machine's interfaces and their addresses.\<close>

definition candidates :: "string \<Rightarrow> string \<Rightarrow> net_iface list \<Rightarrow> string list" where
  "candidates msk iname ifaces =
     concat (map (\<lambda>i. case if_addrs i of Inl e \<Rightarrow> [] | Inr addrs \<Rightarrow> List.map_filter (usable_addr msk) addrs)
       (filter (\<lambda>i. \<not> skip_iface msk iname i) ifaces))"

lemma find_addr_filter: "find_addr msk addrs = (case List.map_filter (usable_addr msk) addrs of [] \<Rightarrow> None | s # ss \<Rightarrow> Some s)"
  by (induction addrs) (auto simp: List.map_filter_simps split: option.splits)

lemma candidates_simps [simp]:
  "candidates msk iname [] = []"
  "candidates msk iname (i # is) =
     (if skip_iface msk iname i then [] else case if_addrs i of Inl e \<Rightarrow> [] | Inr addrs \<Rightarrow> List.map_filter (usable_addr msk) addrs)
     @ candidates msk iname is"
  by (simp_all add: candidates_def)

lemma find_iface_candidates:
  assumes "\<forall>i \<in> set ifaces. skip_iface msk iname i \<or> (\<exists>as. if_addrs i = Inr as)"
  shows "find_iface msk iname ifaces
     = (case candidates msk iname ifaces of [] \<Rightarrow> Inl (ErrMsg ''are you connected to the network?'') | s # ss \<Rightarrow> Inr s)"
  using assms
  by (induction ifaces) (auto simp: find_addr_filter simp del: ip_string.simps split: list.split)

lemma usable_addr_iff:
  "usable_addr msk a = Some s \<longleftrightarrow>
     (\<exists>w x y z. (a = IPNet (IPv4 w x y z) \<or> a = IPAddr (IPv4 w x y z)) \<and> w \<noteq> 127 \<and> s = ip_string (IPv4 w x y z) \<and> prefix msk s)"
  by (cases a) (auto simp: usable_addr_def simp del: ip_string.simps split: ip_addr.splits if_splits)

lemma in_map_filter: "s \<in> set (List.map_filter f xs) \<longleftrightarrow> (\<exists>x \<in> set xs. f x = Some s)"
  by (induction xs) (auto simp: List.map_filter_simps split: option.split)

lemma in_candidates:
  "s \<in> set (candidates msk iname ifaces) \<longleftrightarrow>
     (\<exists>i \<in> set ifaces. \<not> skip_iface msk iname i \<and> (\<exists>as. if_addrs i = Inr as \<and> (\<exists>a \<in> set as. usable_addr msk a = Some s)))"
proof (induction ifaces)
  case (Cons i "is")
  then show ?case by (cases "if_addrs i") (auto simp: in_map_filter)
qed simp

text \<open>
  When the addresses of the interfaces can be read, \<open>FindLocalIP\<close> returns the first usable one in the
  machine's order: an IPv4 address outside 127.0.0.0/8 that starts with the mask without its trailing
  zeros, as text, on an interface that is no loopback and has the wanted name or a sub-interface's; it
  fails exactly when there is none.
\<close>

theorem FindLocalIP_first_match:
  assumes "\<forall>i \<in> set ifaces. \<exists>as. if_addrs i = Inr as"
  shows "(\<forall>s. FindLocalIP (Inr ifaces) msk iname = Inr s \<longrightarrow>
       (\<exists>i \<in> set ifaces. \<exists>as w x y z. if_addrs i = Inr as \<and> (IPNet (IPv4 w x y z) \<in> set as \<or> IPAddr (IPv4 w x y z) \<in> set as) \<and>
          s = ip_string (IPv4 w x y z) \<and> w \<noteq> 127 \<and> prefix (cut_mask msk) s \<and> \<not> if_loopback i \<and>
          (iname = '''' \<or> if_name i = iname \<or> prefix (iname @ ''.'') (if_name i)))) \<and>
     ((\<exists>e. FindLocalIP (Inr ifaces) msk iname = Inl e) \<longleftrightarrow> candidates (cut_mask msk) iname ifaces = []) \<and>
     (\<forall>s ss. candidates (cut_mask msk) iname ifaces = s # ss \<longrightarrow> FindLocalIP (Inr ifaces) msk iname = Inr s)"
proof -
  have f: "FindLocalIP (Inr ifaces) msk iname
      = (case candidates (cut_mask msk) iname ifaces of [] \<Rightarrow> Inl (ErrMsg ''are you connected to the network?'') | s # ss \<Rightarrow> Inr s)"
    using find_iface_candidates [of ifaces "cut_mask msk" iname] assms by (auto simp: FindLocalIP_def)
  have "\<exists>i \<in> set ifaces. \<exists>as w x y z. if_addrs i = Inr as \<and> (IPNet (IPv4 w x y z) \<in> set as \<or> IPAddr (IPv4 w x y z) \<in> set as) \<and>
          s = ip_string (IPv4 w x y z) \<and> w \<noteq> 127 \<and> prefix (cut_mask msk) s \<and> \<not> if_loopback i \<and>
          (iname = '''' \<or> if_name i = iname \<or> prefix (iname @ ''.'') (if_name i))"
    if "s \<in> set (candidates (cut_mask msk) iname ifaces)" for s
    using that unfolding in_candidates usable_addr_iff by (fastforce simp: skip_iface_def simp del: ip_string.simps)
  then show ?thesis unfolding f by (auto simp del: ip_string.simps split: list.splits)
qed

definition two_nics :: "net_iface list" where
  "two_nics = [\<lparr>if_up = True, if_loopback = True, if_name = ''lo'', if_addrs = Inr [IPNet (IPv4 127 0 0 1)]\<rparr>,
     \<lparr>if_up = True, if_loopback = False, if_name = ''eth0'', if_addrs = Inr [IPNet (IPv6 False), IPNet (IPv4 10 19 0 5)]\<rparr>]"

text \<open>The mask 10.1.0.0 is only compared as text, so it accepts an address outside 10.1.0.0/16.\<close>

theorem FindLocalIP_first_match_witness:
  "FindLocalIP (Inr two_nics) ''10.1.0.0'' '''' = Inr ''10.19.0.5''"
proof -
  have cut: "cut_mask ''10.1.0.0'' = ''10.1''"
    using cut_mask_zero [of "''10.1.0''"] cut_mask_zero [of "''10.1''"] cut_mask_plain [of "''10.1''"] by (simp add: suffix_def)
  have "candidates ''10.1'' '''' two_nics = [''10.19.0.5'']"
    by code_simp
  then show ?thesis
    using FindLocalIP_first_match [of two_nics "''10.1.0.0''" "''''"] unfolding cut by (simp add: two_nics_def)
qed

section \<open>The port\<close>

lemma listen_from_all:
  "listens q = None \<Longrightarrow> p \<le> q \<Longrightarrow> \<forall>r. p \<le> r \<and> r < q \<longrightarrow> listens r \<noteq> None \<Longrightarrow> listen_from listens p = Some q"
proof (induction "q - p" arbitrary: p)
  case 0
  then show ?case by (subst listen_from.simps) simp
next
  case (Suc n)
  then have "p < q" by simp
  moreover have "listen_from listens (p + 1) = Some q" using Suc by auto
  ultimately show ?case using Suc.prems(3) by (subst listen_from.simps) (auto split: option.splits)
qed

lemma listen_from_free:
  assumes "listen_from listens p = Some q"
  shows "p \<le> q \<and> listens q = None"
proof (rule listen_from.raw_induct [where P = "\<lambda>l p q. p \<le> q \<and> l q = None", OF _ assms])
  fix f :: "(nat \<Rightarrow> go_error option) \<Rightarrow> nat \<Rightarrow> nat option" and l p q
  assume IH: "\<And>l p q. f l p = Some q \<Longrightarrow> p \<le> q \<and> l q = None"
    and "(case l p of None \<Rightarrow> Some p | Some e \<Rightarrow> f l (p + 1)) = Some q"
  then consider "p = q" "l q = None" | "f l (p + 1) = Some q" by (cases "l p") auto
  then show "p \<le> q \<and> l q = None"
  proof cases
    case 2
    then have "p + 1 \<le> q \<and> l q = None" by (rule IH)
    then show ?thesis by simp
  qed simp
qed

lemma least_free:
  fixes listens :: "nat \<Rightarrow> go_error option"
  assumes "p \<le> q0" "listens q0 = None"
  shows "p \<le> (LEAST q. p \<le> q \<and> listens q = None)" "listens (LEAST q. p \<le> q \<and> listens q = None) = None"
    "\<forall>r. p \<le> r \<and> r < (LEAST q. p \<le> q \<and> listens q = None) \<longrightarrow> listens r \<noteq> None"
    "(LEAST q. p \<le> q \<and> listens q = None) \<le> q0"
proof -
  let ?P = "\<lambda>q. p \<le> q \<and> listens q = None"
  have q0: "?P q0" using assms by simp
  show "p \<le> Least ?P" "listens (Least ?P) = None" using LeastI [of ?P, OF q0] by auto
  show "\<forall>r. p \<le> r \<and> r < Least ?P \<longrightarrow> listens r \<noteq> None"
  proof (intro allI impI notI)
    fix r assume "p \<le> r \<and> r < Least ?P" "listens r = None"
    then show False using not_less_Least [of r ?P] by blast
  qed
  show "Least ?P \<le> q0" by (rule Least_le) (rule q0)
qed

lemma listen_from_least:
  assumes "p \<le> q0" "listens q0 = None"
  shows "listen_from listens p = Some (LEAST q. p \<le> q \<and> listens q = None)"
  by (rule listen_from_all) (rule least_free [where p = p and listens = listens, OF assms])+

lemma listen_from_never: "listen_from listens p = None \<longleftrightarrow> (\<forall>q \<ge> p. listens q \<noteq> None)"
proof
  assume "listen_from listens p = None"
  then show "\<forall>q \<ge> p. listens q \<noteq> None" using listen_from_least [of p _ listens] by (metis option.distinct(1))
next
  assume n: "\<forall>q \<ge> p. listens q \<noteq> None"
  show "listen_from listens p = None"
  proof (rule ccontr)
    assume "listen_from listens p \<noteq> None"
    then obtain q where "listen_from listens p = Some q" by blast
    then show False using listen_from_free n by blast
  qed
qed

lemma quic_listen_first:
  "p \<le> q \<Longrightarrow> q < 9000 \<Longrightarrow> listens q = None \<Longrightarrow> \<forall>r. p \<le> r \<and> r < q \<longrightarrow> listens r \<noteq> None \<Longrightarrow>
     quic_listen listens p err = (q, None)"
proof (induction "q - p" arbitrary: p err)
  case 0
  then show ?case by (subst quic_listen.simps) simp
next
  case (Suc n)
  then have lt: "p < q" by simp
  have "quic_listen listens (p + 1) e = (q, None)" for e using Suc by auto
  then show ?case using Suc.prems(2,4) lt by (subst quic_listen.simps) (auto split: option.splits)
qed

lemma quic_listen_none:
  "p \<le> 9000 \<Longrightarrow> \<forall>r. p \<le> r \<and> r < 9000 \<longrightarrow> listens r \<noteq> None \<Longrightarrow>
     \<exists>e. quic_listen listens p (Some e0) = (9000, Some e)"
proof (induction "9000 - p" arbitrary: p e0)
  case 0
  then show ?case by (subst quic_listen.simps) simp
next
  case (Suc n)
  then have "p < 9000" by simp
  then obtain e where "listens p = Some e" using Suc.prems(2) by blast
  moreover have "\<exists>e'. quic_listen listens (p + 1) (Some e) = (9000, Some e')" using Suc by auto
  ultimately show ?case using \<open>p < 9000\<close> by (subst quic_listen.simps) simp
qed

text \<open>
  The TCP servers come up on the first free port from the configured one on, and if no port is free
  their loop never ends (\<open>None\<close>): port numbers above 65535 only fail. The loop of \<open>quic\<close> always ends, on the
  first free port below 9000 if there is one; otherwise the server goes on with port 9000 and without a
  socket.
\<close>

theorem port_search:
  "(if \<exists>q \<ge> p. listens q = None then listen_from listens p = Some (LEAST q. p \<le> q \<and> listens q = None)
    else listen_from listens p = None) \<and>
   (p < 9000 \<longrightarrow> (if \<exists>q. p \<le> q \<and> q < 9000 \<and> listens q = None
      then quic_listen listens p None = (LEAST q. p \<le> q \<and> listens q = None, None)
      else \<exists>e. quic_listen listens p None = (9000, Some e)))"
proof (intro conjI impI)
  show "if \<exists>q \<ge> p. listens q = None then listen_from listens p = Some (LEAST q. p \<le> q \<and> listens q = None)
    else listen_from listens p = None"
  proof (cases "\<exists>q \<ge> p. listens q = None")
    case True
    then show ?thesis using listen_from_least by auto
  next
    case False
    then show ?thesis using listen_from_never by auto
  qed
next
  assume p: "p < 9000"
  show "if \<exists>q. p \<le> q \<and> q < 9000 \<and> listens q = None
      then quic_listen listens p None = (LEAST q. p \<le> q \<and> listens q = None, None)
      else \<exists>e. quic_listen listens p None = (9000, Some e)"
  proof (cases "\<exists>q. p \<le> q \<and> q < 9000 \<and> listens q = None")
    case True
    then obtain q0 where q0: "p \<le> q0" "q0 < 9000" "listens q0 = None" by blast
    note free = least_free [where p = p and listens = listens, OF q0(1,3)]
    have "quic_listen listens p None = (LEAST q. p \<le> q \<and> listens q = None, None)"
      by (rule quic_listen_first [OF free(1) le_less_trans [OF free(4) q0(2)] free(2,3)])
    then show ?thesis unfolding if_P [OF True] .
  next
    case False
    then obtain e where e: "listens p = Some e" using p by (metis order_refl option.exhaust)
    have "\<exists>e'. quic_listen listens (p + 1) (Some e) = (9000, Some e')"
      using False p by (intro quic_listen_none) auto
    then have "\<exists>e. quic_listen listens p None = (9000, Some e)" using e p by (subst quic_listen.simps) simp
    then show ?thesis using False by (simp only: if_False)
  qed
qed

text \<open>Port 8000 is taken: the TCP servers and \<open>quic\<close> come up on 8001.\<close>

theorem port_search_witness:
  "listen_from (\<lambda>q. if q = 8001 then None else Some EOF) 8000 = Some 8001 \<and>
   quic_listen (\<lambda>q. if q = 8001 then None else Some EOF) 8000 None = (8001, None)"
proof -
  let ?l = "\<lambda>q :: nat. if q = 8001 then None else Some EOF"
  have l: "(LEAST q. 8000 \<le> q \<and> ?l q = None) = 8001" by (rule Least_equality) (auto split: if_splits)
  have ex: "\<exists>q \<ge> 8000. ?l q = None" "\<exists>q. 8000 \<le> q \<and> q < 9000 \<and> ?l q = None" by (auto intro: exI [of _ 8001])
  show ?thesis
    using port_search [of 8000 ?l] unfolding l if_P [OF ex(1)] if_P [OF ex(2)] by simp
qed

end
