(* ===== verification/Conn_Pool.thy ===== *)
theory Conn_Pool
  imports Net_Prelude "HOL-Library.Multiset"
begin

text \<open>
  The connection pools of the block clients (\<open>tcppool\<close>, \<open>gonet\<close>, \<open>tcpsendfile\<close>, \<open>quic\<close>): a channel of
  idle connections, \<open>getConn\<close> and \<open>withConn\<close>. Connections are numbered in the order they are dialled.
  \<open>pl_inuse\<close>, \<open>pl_closed\<close> and \<open>pl_lost\<close> are history: the connections a call is working on, those the
  client closed, and those it has neither closed nor given back.
\<close>

record pool =
  pl_idle :: "nat list"
  pl_cap :: nat
  pl_chan_closed :: bool
  pl_next :: nat
  pl_inuse :: "nat list"
  pl_closed :: "nat list"
  pl_lost :: "nat list"

definition new_pool :: "nat \<Rightarrow> pool" where
  "new_pool cons = \<lparr>pl_idle = [], pl_cap = cons, pl_chan_closed = False, pl_next = 0, pl_inuse = [],
     pl_closed = [], pl_lost = []\<rparr>"

text \<open>
  \<open>getConn\<close>: an idle connection, or a new one. A closed channel without elements gives its zero value,
  a nil connection (\<open>Inr None\<close>).
\<close>

definition take_idle :: "pool \<Rightarrow> ((go_error + nat option) \<times> pool) option" where
  "take_idle p =
     (case pl_idle p of
        c # cs \<Rightarrow> Some (Inr (Some c), p\<lparr>pl_idle := cs, pl_inuse := c # pl_inuse p\<rparr>)
      | [] \<Rightarrow> if pl_chan_closed p then Some (Inr None, p) else None)"

definition dialled :: "pool \<Rightarrow> (go_error + nat option) \<times> pool" where
  "dialled p = (Inr (Some (pl_next p)), p\<lparr>pl_next := pl_next p + 1, pl_inuse := pl_next p # pl_inuse p\<rparr>)"

definition tcppool_getConn :: "go_error option \<Rightarrow> pool \<Rightarrow> (go_error + nat option) \<times> pool" where
  "tcppool_getConn dialErr p =
     (case take_idle p of
        Some r \<Rightarrow> r
      | None \<Rightarrow> (case dialErr of Some e \<Rightarrow> (Inl e, p) | None \<Rightarrow> dialled p))"

definition gonet_getConn :: "go_error option \<Rightarrow> pool \<Rightarrow> (go_error + nat option) \<times> pool" where
  "gonet_getConn = tcppool_getConn"

definition sendfile_getConn :: "go_error option \<Rightarrow> pool \<Rightarrow> (go_error + nat option) \<times> pool" where
  "sendfile_getConn = tcppool_getConn"

text \<open>
  \<open>quic\<close> makes a certificate, dials and opens a stream; if the stream cannot be opened, the connection
  just made is forgotten.
\<close>

record quic_dial =
  qd_tls :: "go_error option"
  qd_dial :: "go_error option"
  qd_stream :: "go_error option"

definition quic_getConn :: "quic_dial \<Rightarrow> pool \<Rightarrow> (go_error + nat option) \<times> pool" where
  "quic_getConn q p =
     (case take_idle p of
        Some r \<Rightarrow> r
      | None \<Rightarrow>
          (case qd_tls q of
             Some e \<Rightarrow> (Inl e, p)
           | None \<Rightarrow>
               (case qd_dial q of
                  Some e \<Rightarrow> (Inl e, p)
                | None \<Rightarrow>
                    (case qd_stream q of
                       Some e \<Rightarrow> (Inl e, p\<lparr>pl_next := pl_next p + 1, pl_lost := pl_next p # pl_lost p\<rparr>)
                     | None \<Rightarrow> dialled p))))"

text \<open>
  The end of \<open>withConn\<close>, after \<open>f(conn)\<close> has returned \<open>err\<close>: on an error the function returns at once;
  otherwise the connection goes back, or is closed if the channel is full. Sending on a closed channel
  panics.
\<close>

definition withConn_finish :: "nat \<Rightarrow> go_error option \<Rightarrow> pool \<Rightarrow> go_error + pool" where
  "withConn_finish c err p =
     (let p1 = p\<lparr>pl_inuse := remove1 c (pl_inuse p)\<rparr> in
      case err of
        Some e \<Rightarrow> Inr (p1\<lparr>pl_lost := c # pl_lost p\<rparr>)
      | None \<Rightarrow>
          if pl_chan_closed p then Inl (Panic ''send on closed channel'')
          else if length (pl_idle p) < pl_cap p then Inr (p1\<lparr>pl_idle := pl_idle p @ [c]\<rparr>)
          else Inr (p1\<lparr>pl_closed := c # pl_closed p\<rparr>))"

definition tcppool_withConn_finish :: "nat \<Rightarrow> go_error option \<Rightarrow> pool \<Rightarrow> go_error + pool" where
  "tcppool_withConn_finish = withConn_finish"

definition gonet_withConn_finish :: "nat \<Rightarrow> go_error option \<Rightarrow> pool \<Rightarrow> go_error + pool" where
  "gonet_withConn_finish = withConn_finish"

definition sendfile_withConn_finish :: "nat \<Rightarrow> go_error option \<Rightarrow> pool \<Rightarrow> go_error + pool" where
  "sendfile_withConn_finish = withConn_finish"

definition quic_withConn_finish :: "nat \<Rightarrow> go_error option \<Rightarrow> pool \<Rightarrow> go_error + pool" where
  "quic_withConn_finish = withConn_finish"

text \<open>\<open>Client.Close\<close> closes the channel (a second time is a panic) and no connection.\<close>

definition pool_Close :: "pool \<Rightarrow> go_error + pool" where
  "pool_Close p = (if pl_chan_closed p then Inl (Panic ''close of closed channel'') else Inr (p\<lparr>pl_chan_closed := True\<rparr>))"

text \<open>Calls from several goroutines interleave: each takes a connection, works, and finishes.\<close>

inductive pool_step :: "('e \<Rightarrow> pool \<Rightarrow> (go_error + nat option) \<times> pool) \<Rightarrow> pool \<Rightarrow> pool \<Rightarrow> bool" for get where
  get: "get e p = (r, p') \<Longrightarrow> pool_step get p p'"
| finish: "c \<in> set (pl_inuse p) \<Longrightarrow> withConn_finish c err p = Inr p' \<Longrightarrow> pool_step get p p'"
| close: "pool_Close p = Inr p' \<Longrightarrow> pool_step get p p'"

inductive pool_reach :: "('e \<Rightarrow> pool \<Rightarrow> (go_error + nat option) \<times> pool) \<Rightarrow> pool \<Rightarrow> bool" for get where
  start: "pool_reach get (new_pool cons)"
| step: "pool_reach get p \<Longrightarrow> pool_step get p p' \<Longrightarrow> pool_reach get p'"

text \<open>
  The same with the history of the calls that have ended: each with its connection and the error it ended
  with, newest first. A call whose \<open>getConn\<close> fails has the connections, if any, that it had made by then.
\<close>

definition begun :: "go_error + nat option \<Rightarrow> pool \<Rightarrow> pool \<Rightarrow> (nat \<times> go_error option) list" where
  "begun r p p' = (case r of Inl e \<Rightarrow> map (\<lambda>c. (c, Some e)) [pl_next p..<pl_next p'] | Inr _ \<Rightarrow> [])"

inductive pool_run :: "('e \<Rightarrow> pool \<Rightarrow> (go_error + nat option) \<times> pool) \<Rightarrow> (nat \<times> go_error option) list \<Rightarrow> pool \<Rightarrow> bool"
  for get where
  run_start: "pool_run get [] (new_pool cons)"
| run_get: "pool_run get h p \<Longrightarrow> get e p = (r, p') \<Longrightarrow> pool_run get (begun r p p' @ h) p'"
| run_finish: "pool_run get h p \<Longrightarrow> c \<in> set (pl_inuse p) \<Longrightarrow> withConn_finish c err p = Inr p' \<Longrightarrow> pool_run get ((c, err) # h) p'"
| run_close: "pool_run get h p \<Longrightarrow> pool_Close p = Inr p' \<Longrightarrow> pool_run get h p'"

definition failed_conns :: "(nat \<times> go_error option) list \<Rightarrow> nat list" where
  "failed_conns h = map fst (filter (\<lambda>(c, err). err \<noteq> None) h)"

lemma failed_conns_simps [simp]:
  "failed_conns [] = []" "failed_conns ((c, err) # h) = (if err = None then [] else [c]) @ failed_conns h"
  "failed_conns (h @ h') = failed_conns h @ failed_conns h'"
  by (auto simp: failed_conns_def)

lemma failed_begun [simp]:
  "failed_conns (begun (Inl e) p p') = [pl_next p..<pl_next p']" "failed_conns (begun (Inr x) p p') = []"
  by (simp_all add: failed_conns_def begun_def comp_def filter_map)

lemma pool_run_reach: "pool_run get h p \<Longrightarrow> pool_reach get p"
  by (induction rule: pool_run.induct) (auto intro: pool_reach.intros pool_step.intros)

section \<open>Where the connections are\<close>

definition conns_of :: "pool \<Rightarrow> nat list" where
  "conns_of p = pl_idle p @ pl_inuse p @ pl_closed p @ pl_lost p"

definition pool_inv :: "pool \<Rightarrow> bool" where
  "pool_inv p \<longleftrightarrow> mset (conns_of p) = mset [0..<pl_next p] \<and> length (pl_idle p) \<le> pl_cap p"

lemmas pool_defs = pool_inv_def conns_of_def

text \<open>
  What the pool relies on from its source of connections: it keeps the books, and what it hands out is
  in use by nobody else.
\<close>

locale conn_source =
  fixes get :: "'e \<Rightarrow> pool \<Rightarrow> (go_error + nat option) \<times> pool"
  assumes get_inv: "get e p = (r, p') \<Longrightarrow> pool_inv p \<Longrightarrow> pool_inv p'"
    and get_fresh: "get e p = (Inr (Some c), p') \<Longrightarrow> pool_inv p \<Longrightarrow>
      c \<notin> set (pl_inuse p) \<and> pl_inuse p' = c # pl_inuse p"
    and get_loses: "get e p = (r, p') \<Longrightarrow> mset (pl_lost p') = mset (failed_conns (begun r p p')) + mset (pl_lost p)"
begin

lemma finish_inv:
  assumes "c \<in> set (pl_inuse p)" "withConn_finish c err p = Inr p'" "pool_inv p"
  shows "pool_inv p'"
proof -
  have "mset (pl_inuse p) = add_mset c (mset (remove1 c (pl_inuse p)))" using assms(1) by simp
  then show ?thesis
    using assms(2,3)
    by (auto simp: withConn_finish_def Let_def pool_defs simp del: mset_remove1 mset_upt split: option.splits if_splits)
qed

lemma reach_inv: "pool_reach get p \<Longrightarrow> pool_inv p"
proof (induction rule: pool_reach.induct)
  case (start cons)
  show ?case by (simp add: new_pool_def pool_defs)
next
  case (step p p')
  from step(2) show ?case
  proof cases
    case (get e r)
    then show ?thesis using get_inv step.IH by blast
  next
    case (finish c err)
    then show ?thesis using finish_inv step.IH by blast
  next
    case close
    then show ?thesis using step.IH by (auto simp: pool_Close_def pool_defs split: if_splits)
  qed
qed

lemma run_lost: "pool_run get h p \<Longrightarrow> mset (pl_lost p) = mset (failed_conns h)"
proof (induction rule: pool_run.induct)
  case (run_start cons)
  show ?case by (simp add: new_pool_def)
next
  case (run_get h p e r p')
  show ?case using get_loses [OF run_get(2)] run_get.IH by simp
next
  case (run_finish h p c err p')
  then show ?case by (auto simp: withConn_finish_def Let_def split: option.splits if_splits)
next
  case (run_close h p p')
  then show ?case by (auto simp: pool_Close_def split: if_splits)
qed

lemma reach_count:
  assumes "pool_reach get p"
  shows "pl_next p = length (pl_idle p) + length (pl_inuse p) + length (pl_closed p) + length (pl_lost p)"
    and "distinct (conns_of p)"
proof -
  have m: "mset (conns_of p) = mset [0..<pl_next p]" using reach_inv [OF assms] by (simp add: pool_inv_def)
  then have "length (conns_of p) = length [0..<pl_next p]" by (metis size_mset)
  then show "pl_next p = length (pl_idle p) + length (pl_inuse p) + length (pl_closed p) + length (pl_lost p)"
    by (simp add: conns_of_def)
  show "distinct (conns_of p)" using mset_eq_imp_distinct_iff [OF m] by simp
qed

end

lemma pool_inv_distinct: "pool_inv p \<Longrightarrow> distinct (conns_of p) \<and> (\<forall>c \<in> set (conns_of p). c < pl_next p)"
  unfolding pool_inv_def by (metis atLeastLessThan_iff distinct_upt mset_eq_imp_distinct_iff mset_eq_setD set_upt)

lemma take_idle_inv:
  "take_idle p = Some (r, p') \<Longrightarrow> pool_inv p \<Longrightarrow> pool_inv p'"
  by (auto simp: take_idle_def pool_defs split: list.splits if_splits)

lemma take_idle_fresh:
  assumes "take_idle p = Some (Inr (Some c), p')" "pool_inv p"
  shows "c \<notin> set (pl_inuse p) \<and> pl_inuse p' = c # pl_inuse p"
  using assms(1) pool_inv_distinct [OF assms(2)]
  by (auto simp: take_idle_def conns_of_def split: list.splits if_splits)

lemma take_idle_lost: "take_idle p = Some (r, p') \<Longrightarrow> \<exists>c. r = Inr c \<and> pl_lost p' = pl_lost p"
  by (auto simp: take_idle_def split: list.splits if_splits)

lemma dialled_lost: "dialled p = (r, p') \<Longrightarrow> \<exists>c. r = Inr c \<and> pl_lost p' = pl_lost p"
  by (auto simp: dialled_def)

lemma dialled_inv: "dialled p = (r, p') \<Longrightarrow> pool_inv p \<Longrightarrow> pool_inv p'"
  by (auto simp: dialled_def pool_defs simp del: mset_upt)

lemma dialled_fresh:
  assumes "dialled p = (Inr (Some c), p')" "pool_inv p"
  shows "c \<notin> set (pl_inuse p) \<and> pl_inuse p' = c # pl_inuse p"
  using assms(1) pool_inv_distinct [OF assms(2)] by (auto simp: dialled_def conns_of_def)

interpretation tcp: conn_source tcppool_getConn
  by unfold_locales
    (auto simp: tcppool_getConn_def split: option.splits
      dest: take_idle_inv take_idle_fresh take_idle_lost dialled_inv dialled_fresh dialled_lost)

interpretation quic: conn_source quic_getConn
proof
  fix q p r p'
  assume a: "quic_getConn q p = (r, p')" "pool_inv p"
  then show "pool_inv p'"
    by (auto simp: quic_getConn_def split: option.splits dest: take_idle_inv dialled_inv)
      (auto simp: pool_defs simp del: mset_upt)
next
  fix q p c p'
  show "quic_getConn q p = (Inr (Some c), p') \<Longrightarrow> pool_inv p \<Longrightarrow> c \<notin> set (pl_inuse p) \<and> pl_inuse p' = c # pl_inuse p"
    by (auto simp: quic_getConn_def split: option.splits dest: take_idle_fresh dialled_fresh)
next
  fix q p r p'
  assume "quic_getConn q p = (r, p')"
  then show "mset (pl_lost p') = mset (failed_conns (begun r p p')) + mset (pl_lost p)"
    by (auto simp: quic_getConn_def split: option.splits dest: take_idle_lost dialled_lost)
qed

text \<open>
  C33. The books of a client's connections balance in every interleaving of its calls, for the TCP and
  for the QUIC pool: no connection is idle twice or used by two calls at a time, at most \<open>cap\<close> are idle,
  and those dialled are the idle, the used, the closed and the lost ones together. The lost ones, neither
  given back nor closed, are exactly those of the calls that have failed, be it in \<open>f\<close> or in \<open>getConn\<close>;
  what a successful call ends with is put back, or closed if there is no room.
\<close>

theorem pool_accounts_for_connections:
  assumes "pool_run tcppool_getConn h p \<or> pool_run quic_getConn h p"
  shows "distinct (pl_idle p @ pl_inuse p @ pl_closed p @ pl_lost p) \<and> length (pl_idle p) \<le> pl_cap p
     \<and> pl_next p = length (pl_idle p) + length (pl_inuse p) + length (pl_closed p) + length (pl_lost p)
     \<and> mset (pl_lost p) = mset (failed_conns h)
     \<and> (\<forall>c p'. withConn_finish c None p = Inr p' \<longrightarrow>
          (if length (pl_idle p) < pl_cap p then c \<in> set (pl_idle p') else c \<in> set (pl_closed p')))"
proof -
  have "\<forall>c p'. withConn_finish c None p = Inr p' \<longrightarrow>
      (if length (pl_idle p) < pl_cap p then c \<in> set (pl_idle p') else c \<in> set (pl_closed p'))"
    by (auto simp: withConn_finish_def Let_def split: if_splits)
  moreover have "mset (pl_lost p) = mset (failed_conns h)" using assms tcp.run_lost quic.run_lost by blast
  moreover have "pool_reach tcppool_getConn p \<or> pool_reach quic_getConn p" using assms by (auto dest: pool_run_reach)
  ultimately show ?thesis
    using tcp.reach_inv [of p] quic.reach_inv [of p] tcp.reach_count [of p] quic.reach_count [of p]
    by (auto simp: pool_inv_def conns_of_def)
qed

text \<open>Two calls with room for one idle connection; the second fails and loses its connection.\<close>

definition two_calls :: pool where
  "two_calls = snd (tcppool_getConn None (snd (tcppool_getConn None (new_pool 1))))"

definition one_failed :: pool where
  "one_failed = (case withConn_finish 1 (Some EOF) two_calls of
     Inr p \<Rightarrow> (case withConn_finish 0 None p of Inr p' \<Rightarrow> p' | Inl _ \<Rightarrow> p) | Inl _ \<Rightarrow> two_calls)"

theorem pool_accounts_for_connections_witness:
  "pool_run tcppool_getConn [(0, None), (1, Some EOF)] one_failed
     \<and> pl_lost one_failed = [1] \<and> mset (pl_lost one_failed) = mset (failed_conns [(0, None), (1, Some EOF)])"
proof -
  have "pool_run tcppool_getConn [] two_calls"
    using run_get [OF run_get [OF run_start [of tcppool_getConn 1] surjective_pairing] surjective_pairing, of None None]
    by (simp add: two_calls_def begun_def tcppool_getConn_def take_idle_def dialled_def new_pool_def)
  moreover obtain p where p: "withConn_finish 1 (Some EOF) two_calls = Inr p" "withConn_finish 0 None p = Inr one_failed"
      "0 \<in> set (pl_inuse p)" "1 \<in> set (pl_inuse two_calls)"
    by (simp add: one_failed_def two_calls_def tcppool_getConn_def take_idle_def dialled_def new_pool_def
        withConn_finish_def Let_def)
  ultimately have run: "pool_run tcppool_getConn [(0, None), (1, Some EOF)] one_failed"
    by (blast intro: run_finish)
  then have "mset (pl_lost one_failed) = mset (failed_conns [(0, None), (1, Some EOF)])"
    using pool_accounts_for_connections by blast
  moreover have "pl_lost one_failed = [1]" by code_simp
  ultimately show ?thesis using run by blast
qed

end
