(* ===== verification/Plain_Blocks.thy ===== *)
theory Plain_Blocks
  imports Net_Setup Conn_Pool
begin

text \<open>
  The block services that do not answer requests one by one: \<open>perf\<close>, whose server sends one file over and
  over and whose client cuts the stream, the client of \<open>tcpsendfile\<close>, which moves a block into a kernel
  pipe, and \<open>gorpc\<close>, which leaves the wire to a library.
\<close>

section \<open>perf\<close>

text \<open>
  \<open>Read\<close> on a connection: bytes of the segment that came first, as many as there is room for.
\<close>

definition conn_Read :: "nat \<Rightarrow> stream \<Rightarrow> (go_error + byte list) \<times> stream" where
  "conn_Read room ss =
     (case ss of
        [] \<Rightarrow> (Inl EOF, [])
      | s # ss' \<Rightarrow> (Inr (take room s), if length s \<le> room then ss' else drop room s # ss'))"

definition perf_block :: nat where
  "perf_block = 4 * 2 ^ 20"

definition perf_buffer :: nat where
  "perf_buffer = 5120 * 1024"

text \<open>The loop of \<open>Client.Get\<close>: read into the 5 MiB buffer until it holds 4 MiB or more.\<close>

function perf_read :: "stream \<Rightarrow> byte list \<Rightarrow> (go_error + byte list) \<times> stream" where
  "perf_read ss body =
     (if perf_block \<le> length body then (Inr body, ss)
      else case conn_Read (perf_buffer - length body) ss of
             (Inl e, rest) \<Rightarrow> (Inl e, rest)
           | (Inr bs, rest) \<Rightarrow> perf_read rest (body @ bs))"
  by pat_completeness auto
termination
  by (relation "measure (\<lambda>(ss, body). length ss + length (concat ss))")
    (auto simp: conn_Read_def perf_block_def perf_buffer_def split: list.splits if_splits)

declare perf_read.simps [simp del]

text \<open>
  The error of \<open>strconv.Atoi\<close> is ignored and its value used: 0 if the text is no number, the nearest
  64-bit number if it is out of range.
\<close>

definition Atoi_value :: "string \<Rightarrow> int" where
  "Atoi_value s =
     (case Atoi s of
        Inr i \<Rightarrow> i
      | Inl e \<Rightarrow>
          (let (neg, ds) = (case s of [] \<Rightarrow> (False, []) | c # cs \<Rightarrow>
                 if c = CHR ''-'' then (True, cs) else if c = CHR ''+'' then (False, cs) else (False, s)) in
           if ds = [] then 0
           else case digits_value 0 ds of None \<Rightarrow> 0 | Some n \<Rightarrow> if neg then - (2 ^ 63) else 2 ^ 63 - 1))"

text \<open>
  \<open>Client.Get\<close>: the key chooses the connection, which is dialled at its first use and stays in its slot
  whatever becomes of it.
\<close>

definition perf_Get :: "go_error + stream \<Rightarrow> string \<Rightarrow> stream option list \<Rightarrow>
    (go_error + byte list) \<times> stream option list" where
  "perf_Get dial key conns =
     (if conns = [] then (Inl (Panic ''integer divide by zero''), conns)
      else let i = go_mod (Atoi_value key) (int (length conns)) in
        if i < 0 then (Inl (Panic ''index out of range''), conns)
        else case (case conns ! nat i of None \<Rightarrow> dial | Some ss \<Rightarrow> Inr ss) of
               Inl e \<Rightarrow> (Inl e, conns)
             | Inr ss \<Rightarrow> (case perf_read ss [] of (res, rest) \<Rightarrow> (res, conns[nat i := Some rest])))"

text \<open>
  \<open>Server.handle\<close>: open the file, send it in the chosen way, start again; requests are never read. \<open>files\<close>
  gives, round by round, the result of opening the file and what the splice path meets.
\<close>

definition perf_round :: "us_env \<Rightarrow> server_mode \<Rightarrow> data_gen \<Rightarrow> byte list \<Rightarrow> writer \<Rightarrow> (go_error option \<times> writer) option" where
  "perf_round env mode dg content w =
     (case mode of
        MODE_SENDBUF \<Rightarrow>
          (case dg_Get dg ''key4'' of
             Inl e \<Rightarrow> Some (Some e, w)
           | Inr buf \<Rightarrow> (case w_write w buf of (w', n, err) \<Rightarrow> Some (err, w')))
      | MODE_SENDFILE \<Rightarrow> (case w_write w content of (w', n, err) \<Rightarrow> Some (err, w'))
      | MODE_SPLICE \<Rightarrow> SpliceSendFile env w content (dg_GetSize dg ''key4''))"

partial_function (option) perf_handle ::
    "(nat \<Rightarrow> (go_error + byte list) \<times> us_env) \<Rightarrow> server_mode \<Rightarrow> data_gen \<Rightarrow> writer \<Rightarrow> (go_error \<times> writer) option" where
  "perf_handle files mode dg w =
     (case files 0 of
        (Inl e, env) \<Rightarrow> Some (e, w)
      | (Inr content, env) \<Rightarrow>
          (case perf_round env mode dg content w of
             None \<Rightarrow> None
           | Some (Some e, w') \<Rightarrow> Some (e, w')
           | Some (None, w') \<Rightarrow> perf_handle (\<lambda>n. files (Suc n)) mode dg w'))"

text \<open>\<open>NewServer\<close> writes the block it is going to send.\<close>

definition perf_NewServer :: "go_error option \<Rightarrow> data_gen \<Rightarrow> (go_error + net_iface list) \<Rightarrow> string \<Rightarrow> string \<Rightarrow> string \<Rightarrow>
    go_error + block_server \<times> byte list" where
  "perf_NewServer createErr dg ifs mode ip iname =
     (case createErr of
        Some e \<Rightarrow> Inl e
      | None \<Rightarrow>
          (case dg_Get dg (key_of 4) of
             Inl e \<Rightarrow> Inl e
           | Inr content \<Rightarrow>
               (case with_ip (FindLocalIP ifs ip iname) (mode_of mode) of
                  Inl e \<Rightarrow> Inl e
                | Inr svr \<Rightarrow> Inr (svr, content))))"

subsection \<open>What the client gets\<close>

lemma go_mod_less: "0 < b \<Longrightarrow> go_mod a b < b"
proof -
  assume b: "0 < b"
  show ?thesis
  proof (cases "0 \<le> a")
    case True
    then show ?thesis using b by (simp add: go_mod_nonneg)
  next
    case False
    then have "go_mod a b = - (- a mod b)"
      using b by (simp add: go_mod_def go_div_def minus_div_mult_eq_mod [symmetric] algebra_simps)
    then show ?thesis using b pos_mod_sign [OF b, of "- a"] by linarith
  qed
qed

lemma conn_Read_concat:
  "conn_Read room ss = (Inr bs, rest) \<Longrightarrow> bs @ concat rest = concat ss \<and> length bs \<le> room"
  by (auto simp: conn_Read_def append_take_drop_id [symmetric] split: list.splits if_splits)

lemma perf_read_ok:
  "perf_block \<le> length body + length (concat ss) \<Longrightarrow> length body \<le> perf_buffer \<Longrightarrow>
     \<exists>body' rest. perf_read ss body = (Inr body', rest) \<and> perf_block \<le> length body' \<and> length body' \<le> perf_buffer
       \<and> body' @ concat rest = body @ concat ss"
proof (induction ss body rule: perf_read.induct)
  case (1 ss body)
  show ?case
  proof (cases "perf_block \<le> length body")
    case True
    then show ?thesis using "1.prems" by (simp add: perf_read.simps [of ss body])
  next
    case False
    then obtain s ss' where "ss = s # ss'" using "1.prems" by (cases ss) auto
    then obtain bs rest where r: "conn_Read (perf_buffer - length body) ss = (Inr bs, rest)"
      by (simp add: conn_Read_def)
    note c = conn_Read_concat [OF r]
    then have "length (concat ss) = length bs + length (concat rest)" by (metis length_append)
    then obtain body' rest' where "perf_read rest (body @ bs) = (Inr body', rest')" "perf_block \<le> length body'"
        "length body' \<le> perf_buffer" "body' @ concat rest' = (body @ bs) @ concat rest"
      using "1.IH" [OF False r [symmetric] refl] c "1.prems" by fastforce
    then show ?thesis using False r c by (simp add: perf_read.simps [of ss body])
  qed
qed

lemma perf_read_short:
  "length body + length (concat ss) < perf_block \<Longrightarrow> perf_read ss body = (Inl EOF, [])"
proof (induction ss body rule: perf_read.induct)
  case (1 ss body)
  have f: "\<not> perf_block \<le> length body" using "1.prems" by linarith
  show ?case
  proof (cases ss)
    case Nil
    then show ?thesis using f by (simp add: perf_read.simps [of "[]" body] conn_Read_def)
  next
    case (Cons s ss')
    then obtain bs rest where r: "conn_Read (perf_buffer - length body) ss = (Inr bs, rest)"
      by (simp add: conn_Read_def)
    note c = conn_Read_concat [OF r]
    then have "length (concat ss) = length bs + length (concat rest)" by (metis length_append)
    then show ?thesis using "1.IH" [OF f r [symmetric] refl] "1.prems" f r by (simp add: perf_read.simps [of ss body])
  qed
qed

text \<open>
  \<open>perf\<close> returns the next 4 to 5 MiB of its connection's stream, in order and without loss, as long as
  that much comes. When the stream ends before, \<open>Get\<close> drops the bytes it had, keeps the dead connection in
  its slot, and every later call that chooses the slot fails too, whatever a new connection would deliver.
\<close>

theorem perf_Get_cuts_stream:
  assumes "conns \<noteq> []" "i = go_mod (Atoi_value key) (int (length conns))" "0 \<le> i" "conns ! nat i = Some ss"
  shows "(perf_block \<le> length (concat ss) \<longrightarrow>
      (\<exists>body rest. perf_Get dial key conns = (Inr body, conns[nat i := Some rest]) \<and> body @ concat rest = concat ss
         \<and> perf_block \<le> length body \<and> length body \<le> perf_buffer))
    \<and> (length (concat ss) < perf_block \<longrightarrow>
      perf_Get dial key conns = (Inl EOF, conns[nat i := Some []])
      \<and> perf_Get dial' key (conns[nat i := Some []]) = (Inl EOF, conns[nat i := Some []]))"
proof -
  have "nat i < length conns"
    using assms(1-3) go_mod_less [of "int (length conns)" "Atoi_value key"] by simp
  then have get: "perf_Get d key (conns[nat i := Some s]) = (case perf_read s [] of (res, rest) \<Rightarrow> (res, conns[nat i := Some rest]))"
    for d s using assms(1-3) by (simp add: perf_Get_def Let_def)
  have same: "conns[nat i := Some ss] = conns" using assms(4) by (metis list_update_id)
  have none: "perf_read [] [] = (Inl EOF, [])"
    by (rule perf_read_short) (simp add: perf_block_def)
  show ?thesis
  proof (intro conjI impI)
    assume "perf_block \<le> length (concat ss)"
    then obtain body rest where r: "perf_read ss [] = (Inr body, rest)" "body @ concat rest = concat ss"
        "perf_block \<le> length body" "length body \<le> perf_buffer"
      using perf_read_ok [of "[]" ss] by auto
    show "\<exists>body rest. perf_Get dial key conns = (Inr body, conns[nat i := Some rest]) \<and> body @ concat rest = concat ss
         \<and> perf_block \<le> length body \<and> length body \<le> perf_buffer"
      using r get [of dial ss] by (intro exI [of _ body] exI [of _ rest]) (simp add: same)
  qed (use get [of _ ss] get [of _ "[]"] perf_read_short [of "[]" ss] none same in simp_all)
qed

theorem perf_Get_cuts_stream_witness:
  "perf_Get (Inl EOF) ''7'' [None, Some [[1, 2], [3]], None] = (Inl EOF, [None, Some [], None])"
proof -
  have a: "Atoi_value ''7'' = 7" "go_mod 7 3 = 1" by code_simp+
  show ?thesis
    using perf_Get_cuts_stream [of "[None, Some [[1, 2], [3]], None]" 1 "''7''" "[[1, 2], [3]]" "Inl EOF"] a
    by (simp add: perf_block_def)
qed

subsection \<open>What the server sends\<close>

text \<open>
  A socket that takes \<open>k\<close> more bytes gets the block again and again, then the connection ends: the loop
  stops only when a round fails, and no request decides what is sent.
\<close>

lemma perf_server_streams:
  assumes "c \<noteq> []" "\<And>n. \<exists>env. files n = (Inr c, env)" "mode = MODE_SENDFILE \<or> mode = MODE_SENDBUF \<and> dg_Get dg ''key4'' = Inr c"
    and "w_room w = Some k" "k \<le> length (concat (replicate m c))"
  shows "\<exists>w'. perf_handle files mode dg w = Some (w_err w, w') \<and> w_out w' = w_out w @ take k (concat (replicate m c))"
  using assms(2,4,5)
proof (induction k arbitrary: w m files rule: less_induct)
  case (less k)
  obtain env where f: "files 0 = (Inr c, env)" using less.prems(1) by blast
  obtain m' where m: "m = Suc m' \<or> m = 0 \<and> k = 0" using less.prems(3) by (cases m) auto
  have r: "perf_round env mode dg c w = (case w_write w c of (w', n, err) \<Rightarrow> Some (err, w'))"
    using assms(3) by (auto simp: perf_round_def)
  show ?case
  proof (cases "length c \<le> k")
    case False
    then have "take k (concat (replicate m c)) = take k c" using m by auto
    then show ?thesis
      using False less.prems(2) by (simp add: perf_handle.simps [of files] f r w_write_def)
  next
    case True
    then have m': "m = Suc m'" "k - length c < k" using m assms(1) True by (auto simp: neq_Nil_conv)
    let ?w = "w\<lparr>w_out := w_out w @ c, w_room := Some (k - length c)\<rparr>"
    have "k - length c \<le> length (concat (replicate m' c))" using less.prems(3) m' by simp
    then obtain w' where w': "perf_handle (\<lambda>n. files (Suc n)) mode dg ?w = Some (w_err w, w')"
        "w_out w' = (w_out w @ c) @ take (k - length c) (concat (replicate m' c))"
      using less.IH [OF m'(2), of "\<lambda>n. files (Suc n)" ?w m'] less.prems(1) by auto
    then show ?thesis
      using True less.prems(2) m' by (simp add: perf_handle.simps [of files] f r w_write_def)
  qed
qed

section \<open>The client of tcpsendfile\<close>

text \<open>
  \<open>Get\<close>: write the request; move the block into a pipe (\<open>isconn\<close>: the connection is one that splices, as a
  TCP connection is); if that fails, read it. \<open>shared\<close> is the package's \<open>staticBuf\<close>, which every caller
  returns a slice of, and \<open>own\<close> the pooled buffer, which is used when the connection does not splice.
\<close>

record sendfile_result =
  sr_err :: "go_error option"
  sr_Body :: "byte list"
  sr_shared :: "byte list"
  sr_writer :: writer
  sr_conn :: "byte list"
  sr_pair :: pair_fate

definition read_into :: "byte list \<Rightarrow> int \<Rightarrow> byte list \<Rightarrow> go_error option \<times> byte list \<times> byte list" where
  "read_into buf n conn =
     (if n < 0 \<or> int (length buf) < n then (Some (Panic ''slice bounds out of range''), buf, conn)
      else let got = take (nat n) conn in
        (if length got = nat n then None else if got = [] then Some EOF else Some UnexpectedEOF,
         got @ drop (length got) buf, drop (nat n) conn))"

definition sendfile_Get :: "splice_env \<Rightarrow> bool \<Rightarrow> data_gen \<Rightarrow> byte list \<Rightarrow> byte list \<Rightarrow> block_request \<Rightarrow> writer \<Rightarrow>
    byte list \<Rightarrow> sendfile_result option" where
  "sendfile_Get env isconn dg own shared req w conn =
     (let failed = (\<lambda>e body w. \<lparr>sr_err = Some e, sr_Body = body, sr_shared = shared, sr_writer = w, sr_conn = conn,
            sr_pair = NotTaken\<rparr>) in
      case sendfile_request_Write req of
        Inl e \<Rightarrow> Some (failed e own w)
      | Inr bs \<Rightarrow>
          (case w_write w bs of
             (w', k, Some e) \<Rightarrow> Some (failed e own w')
           | (w', k, None) \<Rightarrow>
               (let n = dg_GetSize dg (key_of (unat (br_CMD req))) in
                if isconn
                then (case PipeConn env conn n of
                        None \<Rightarrow> None
                      | Some (res, rest, fate) \<Rightarrow>
                          (case go_slice shared 0 n of
                             Inl p \<Rightarrow> Some ((failed p shared w')\<lparr>sr_conn := rest, sr_pair := fate\<rparr>)
                           | Inr body \<Rightarrow>
                               (case res of
                                  Inr pipe \<Rightarrow> Some \<lparr>sr_err = None, sr_Body = body, sr_shared = shared, sr_writer = w',
                                                 sr_conn = rest, sr_pair = fate\<rparr>
                                | Inl e \<Rightarrow>
                                    (case read_into shared n rest of
                                       (err, shared', rest') \<Rightarrow>
                                         Some \<lparr>sr_err = err, sr_Body = take (nat n) shared', sr_shared = shared',
                                            sr_writer = w', sr_conn = rest', sr_pair = fate\<rparr>))))
                else (case read_into own n conn of
                        (err, own', rest') \<Rightarrow>
                          Some \<lparr>sr_err = err, sr_Body = (if err = None then take (nat n) own' else own'),
                             sr_shared = shared, sr_writer = w', sr_conn = rest', sr_pair = NotTaken\<rparr>))))"

text \<open>
  On a connection that splices, \<open>Get\<close> consumes exactly the block it asked for and returns as many bytes
  of a buffer that all callers share, with no byte of the block in it; the pipe that holds the block is
  never closed. Only when the pipe cannot be set up does the caller see the block, and then it is also
  what later calls return.
\<close>

theorem sendfile_Get_discards_block:
  assumes "request_ok False req" "unlimited w" "dg_GetSize dg (key_of (unat (br_CMD req))) = int (length block)"
    and "length block \<le> length shared" "PipeConn env (block @ rest) (int (length block)) = Some (res, left, fate)"
  shows "(\<forall>pipe. res = Inr pipe \<longrightarrow>
      sendfile_Get env True dg own shared req w (block @ rest) =
        Some \<lparr>sr_err = None, sr_Body = take (length block) shared, sr_shared = shared,
          sr_writer = w\<lparr>w_out := w_out w @ request_wire False req\<rparr>, sr_conn = rest, sr_pair = InPipe\<rparr>)
    \<and> (\<forall>e. res = Inl e \<and> left = block @ rest \<longrightarrow>
      (\<exists>r. sendfile_Get env True dg own shared req w (block @ rest) = Some r \<and> sr_err r = None \<and> sr_Body r = block
        \<and> sr_conn r = rest \<and> take (length block) (sr_shared r) = block))"
proof (intro conjI allI impI)
  note call = sendfile_Get_def sendfile_request_Write_def put_request_ok [OF assms(1)] send_unlimited [OF assms(2)]
  { fix pipe assume res: "res = Inr pipe"
    then have "left = rest" "fate = InPipe" using PipeConn_ok [of env "block @ rest" "int (length block)" pipe left fate] assms(5) by auto
    then show "sendfile_Get env True dg own shared req w (block @ rest) =
        Some \<lparr>sr_err = None, sr_Body = take (length block) shared, sr_shared = shared,
          sr_writer = w\<lparr>w_out := w_out w @ request_wire False req\<rparr>, sr_conn = rest, sr_pair = InPipe\<rparr>"
      using assms(3-5) res by (simp add: call go_slice_def) }
  { fix e assume res: "res = Inl e \<and> left = block @ rest"
    then show "\<exists>r. sendfile_Get env True dg own shared req w (block @ rest) = Some r \<and> sr_err r = None \<and> sr_Body r = block
        \<and> sr_conn r = rest \<and> take (length block) (sr_shared r) = block"
      using assms(3-5) by (simp add: call go_slice_def read_into_def Let_def) }
qed

definition ready_kernel :: splice_env where
  "ready_kernel = slow_kernel\<lparr>se_loads := [SysOk 2, SysAgain None, SysOk 9]\<rparr>"

definition three_byte_keys :: data_gen where
  "three_byte_keys = \<lparr>dg_Get = (\<lambda>key. Inr [7, 8, 9]), dg_GetReadCloser = (\<lambda>key. Inr [7, 8, 9]), dg_GetSize = (\<lambda>key. 3)\<rparr>"

theorem sendfile_Get_discards_block_witness:
  "map_option sr_Body (sendfile_Get ready_kernel True three_byte_keys [] [0, 0, 0, 0] (demo_request 0 []) fresh_conn
     [7, 8, 9, 5]) = Some [0, 0, 0]"
proof -
  have req: "request_ok False (demo_request 0 [])" "unlimited fresh_conn"
    by (simp_all add: request_ok_def demo_request_def head_size_def request_buf_def unlimited_def fresh_conn_def)
  have "PipeConn ready_kernel ([7, 8, 9] @ [5]) 3 = Some (Inr [7, 8, 9], [5], InPipe)" by code_simp
  with sendfile_Get_discards_block [OF req, of three_byte_keys "[7, 8, 9]" "[0, 0, 0, 0]" ready_kernel "[5]"
      "Inr [7, 8, 9]" "[5]" InPipe "[]"]
  show ?thesis by (simp add: three_byte_keys_def)
qed

section \<open>gorpc\<close>

text \<open>
  The library \<open>valyala/gorpc\<close> carries a call: \<open>call\<close> is what \<open>cli.Call\<close> returns for a handler. The handler
  answers with the block of the command and its size. \<open>getGorpcClient\<close> starts a client when none is idle and
  cannot fail; \<open>runWithClient\<close> ends like \<open>withConn\<close>, with \<open>Stop\<close> for \<open>Close\<close>.
\<close>

definition gorpc_handle :: "data_gen \<Rightarrow> byte \<Rightarrow> go_error + u32 \<times> byte list" where
  "gorpc_handle dg cmd =
     (case dg_Get dg (key_of (unat cmd)) of Inl e \<Rightarrow> Inl e | Inr b \<Rightarrow> Inr (word_of_nat (length b), b))"

definition getGorpcClient :: "unit \<Rightarrow> pool \<Rightarrow> (go_error + nat option) \<times> pool" where
  "getGorpcClient u p = (case take_idle p of Some r \<Rightarrow> r | None \<Rightarrow> dialled p)"

definition gorpc_runWithClient_finish :: "nat \<Rightarrow> go_error option \<Rightarrow> pool \<Rightarrow> go_error + pool" where
  "gorpc_runWithClient_finish = withConn_finish"

definition gorpc_Get :: "((byte \<Rightarrow> go_error + u32 \<times> byte list) \<Rightarrow> byte \<Rightarrow> go_error + u32 \<times> byte list) \<Rightarrow> data_gen \<Rightarrow> byte \<Rightarrow>
    pool \<Rightarrow> (go_error + u32 \<times> byte list) \<times> (go_error + pool)" where
  "gorpc_Get call dg cmd p =
     (case getGorpcClient () p of
        (Inl e, p1) \<Rightarrow> (Inl e, Inr p1)
      | (Inr None, p1) \<Rightarrow> (Inl (Panic ''nil client''), Inr p1)
      | (Inr (Some c), p1) \<Rightarrow>
          (case call (gorpc_handle dg) cmd of
             Inl e \<Rightarrow> (Inl e, gorpc_runWithClient_finish c (Some e) p1)
           | Inr res \<Rightarrow> (Inr res, gorpc_runWithClient_finish c None p1)))"

interpretation gorpc: conn_source getGorpcClient
  by unfold_locales
    (auto simp: getGorpcClient_def split: option.splits
      dest: take_idle_inv take_idle_fresh take_idle_lost dialled_inv dialled_fresh dialled_lost)

lemma gorpc_clients_accounted:
  assumes "pool_reach getGorpcClient p"
  shows "distinct (pl_idle p @ pl_inuse p @ pl_closed p @ pl_lost p)
     \<and> pl_next p = length (pl_idle p) + length (pl_inuse p) + length (pl_closed p) + length (pl_lost p)"
  using gorpc.reach_count [OF assms] by (simp add: conns_of_def)

end
