(* ===== verification/Grpc_Blocks.thy ===== *)
theory Grpc_Blocks
  imports Net_Setup
begin

text \<open>
  The block service over gRPC, \<open>pkg/net/grpc\<close>: the handler of the server and the client's channel of
  shared connections. A connection is put into the channel as often as it may be used at the same time
  (\<open>threadsPerCons\<close>), and its reference count says how many of these tickets are left. The gRPC library
  and its generated code are not part of the model; a call is whatever happens between taking a ticket
  and \<open>runWithClient\<close> finishing.
\<close>

section \<open>The server\<close>

text \<open>\<open>Server.Get\<close>: size and body of the response, or an error.\<close>

definition grpc_Get :: "data_gen \<Rightarrow> u32 \<Rightarrow> go_error + u32 \<times> byte list" where
  "grpc_Get dg cmd =
     (let body = (\<lambda>key. case dg_Get dg key of Inl e \<Rightarrow> Inl e | Inr b \<Rightarrow> Inr (word_of_nat (length b), b)) in
      if cmd = 0 then body ''key0''
      else if cmd = 1 then body ''key1''
      else if cmd = 2 then body ''key2''
      else if cmd = 3 then body ''key3''
      else if cmd = 4 then body ''key4''
      else Inl (ErrMsg ''invalid command''))"

definition grpc_NewServer :: "(go_error + net_iface list) \<Rightarrow> string \<Rightarrow> string \<Rightarrow> go_error + block_server" where
  "grpc_NewServer ifaces ip iname = with_ip (FindLocalIP ifaces ip iname) default_mode"

section \<open>The client's tickets\<close>

text \<open>
  \<open>gp_refs\<close> are the 32-bit reference counts, \<open>gp_creating\<close> the connection a caller is setting up under
  the global mutex, with the number of tickets it still has to put into the channel. \<open>gp_idle\<close> counts the
  goroutines that are not in a call; \<open>gp_inuse\<close>, \<open>gp_lost\<close> and \<open>gp_closed\<close> are history: tickets of running
  calls, tickets of failed calls, closed connections.
\<close>

record grpc_client =
  gp_chan :: "nat list"
  gp_cap :: nat
  gp_refs :: "nat \<Rightarrow> u32"
  gp_creating :: "(nat \<times> nat) option"
  gp_next :: nat
  gp_idle :: nat
  gp_inuse :: "nat list"
  gp_lost :: "nat list"
  gp_closed :: "nat list"

text \<open>\<open>NewClient(addr, tpc, cons)\<close>, used by \<open>threads\<close> goroutines; the benchmark passes \<open>threads / tpc\<close> for \<open>cons\<close>.\<close>

definition grpc_NewClient :: "nat \<Rightarrow> nat \<Rightarrow> nat \<Rightarrow> grpc_client" where
  "grpc_NewClient tpc cons threads =
     \<lparr>gp_chan = [], gp_cap = cons * tpc, gp_refs = (\<lambda>c. 0), gp_creating = None, gp_next = 0, gp_idle = threads,
      gp_inuse = [], gp_lost = [], gp_closed = []\<rparr>"

text \<open>\<open>getGrpcClient\<close>: a ticket from the channel; or a new connection, once the mutex is free.\<close>

definition grpc_take :: "grpc_client \<Rightarrow> grpc_client option" where
  "grpc_take s =
     (case gp_chan s of
        [] \<Rightarrow> None
      | c # cs \<Rightarrow> if gp_idle s = 0 then None
                else Some (s\<lparr>gp_chan := cs, gp_idle := gp_idle s - 1, gp_inuse := c # gp_inuse s\<rparr>))"

definition grpc_dial :: "nat \<Rightarrow> grpc_client \<Rightarrow> grpc_client option" where
  "grpc_dial tpc s =
     (if gp_idle s = 0 \<or> gp_creating s \<noteq> None then None
      else Some (s\<lparr>gp_idle := gp_idle s - 1, gp_creating := Some (gp_next s, tpc - 1), gp_next := Suc (gp_next s),
             gp_refs := (gp_refs s)(gp_next s := word_of_nat tpc)\<rparr>))"

text \<open>
  The loop \<open>c.grpcClis <- grpcCli\<close>. On a channel without a buffer the send meets a goroutine that is
  looking for a ticket.
\<close>

definition grpc_push :: "grpc_client \<Rightarrow> grpc_client option" where
  "grpc_push s =
     (case gp_creating s of
        Some (c, Suc k) \<Rightarrow>
          if length (gp_chan s) < gp_cap s
          then Some (s\<lparr>gp_chan := gp_chan s @ [c], gp_creating := Some (c, k)\<rparr>)
          else if gp_cap s = 0 \<and> gp_idle s > 0
          then Some (s\<lparr>gp_creating := Some (c, k), gp_idle := gp_idle s - 1, gp_inuse := c # gp_inuse s\<rparr>)
          else None
      | _ \<Rightarrow> None)"

definition grpc_created :: "grpc_client \<Rightarrow> grpc_client option" where
  "grpc_created s =
     (case gp_creating s of
        Some (c, 0) \<Rightarrow> Some (s\<lparr>gp_creating := None, gp_inuse := c # gp_inuse s\<rparr>)
      | _ \<Rightarrow> None)"

text \<open>\<open>grpcClient.Close\<close> gives up one reference and closes the connection with the last.\<close>

definition grpcClient_Close :: "nat \<Rightarrow> grpc_client \<Rightarrow> grpc_client" where
  "grpcClient_Close c s =
     (let r = gp_refs s c - 1; s' = s\<lparr>gp_refs := (gp_refs s)(c := r)\<rparr> in
      if sint r > 0 then s' else s'\<lparr>gp_closed := c # gp_closed s'\<rparr>)"

text \<open>The end of \<open>runWithClient\<close>, for a call that failed or not.\<close>

definition runWithClient_finish :: "nat \<Rightarrow> bool \<Rightarrow> grpc_client \<Rightarrow> grpc_client" where
  "runWithClient_finish c failed s =
     (let s1 = s\<lparr>gp_inuse := remove1 c (gp_inuse s), gp_idle := Suc (gp_idle s)\<rparr> in
      if failed then s1\<lparr>gp_lost := c # gp_lost s\<rparr>
      else if length (gp_chan s) < gp_cap s then s1\<lparr>gp_chan := gp_chan s @ [c]\<rparr>
      else grpcClient_Close c s1)"

text \<open>
  A caller decides to dial when it finds the channel empty, but tickets may arrive before it gets the
  mutex, so the channel is not looked at again.
\<close>

inductive grpc_step :: "nat \<Rightarrow> grpc_client \<Rightarrow> grpc_client \<Rightarrow> bool" for tpc where
  take: "grpc_take s = Some s' \<Longrightarrow> grpc_step tpc s s'"
| dial: "grpc_dial tpc s = Some s' \<Longrightarrow> grpc_step tpc s s'"
| push: "grpc_push s = Some s' \<Longrightarrow> grpc_step tpc s s'"
| created: "grpc_created s = Some s' \<Longrightarrow> grpc_step tpc s s'"
| finish: "c \<in> set (gp_inuse s) \<Longrightarrow> grpc_step tpc s (runWithClient_finish c failed s)"

inductive grpc_reach :: "nat \<Rightarrow> nat \<Rightarrow> nat \<Rightarrow> grpc_client \<Rightarrow> bool" for tpc cons threads where
  start: "grpc_reach tpc cons threads (grpc_NewClient tpc cons threads)"
| step: "grpc_reach tpc cons threads s \<Longrightarrow> grpc_step tpc s s' \<Longrightarrow> grpc_reach tpc cons threads s'"

section \<open>Tickets and references\<close>

definition unsent :: "grpc_client \<Rightarrow> nat \<Rightarrow> nat" where
  "unsent s c = (case gp_creating s of Some (d, k) \<Rightarrow> if d = c then Suc k else 0 | None \<Rightarrow> 0)"

definition tickets :: "grpc_client \<Rightarrow> nat \<Rightarrow> nat" where
  "tickets s c = count_list (gp_chan s) c + count_list (gp_inuse s) c + count_list (gp_lost s) c + unsent s c"

definition grpc_inv :: "nat \<Rightarrow> grpc_client \<Rightarrow> bool" where
  "grpc_inv tpc s \<longleftrightarrow>
     (\<forall>c. gp_refs s c = word_of_nat (tickets s c) \<and> tickets s c \<le> tpc) \<and>
     (\<forall>c. count_list (gp_closed s) c = (if c < gp_next s \<and> tickets s c = 0 then 1 else 0)) \<and>
     (\<forall>c \<ge> gp_next s. tickets s c = 0)"

lemma count_remove1: "c \<in> set xs \<Longrightarrow> Suc (count_list (remove1 c xs) d) = (if d = c then count_list xs d else Suc (count_list xs d))"
proof (induction xs)
  case (Cons x xs)
  then show ?case by (cases "x = c") auto
qed simp

lemma grpc_inv_same:
  "grpc_inv tpc s \<Longrightarrow> tickets s' = tickets s \<Longrightarrow> gp_refs s' = gp_refs s \<Longrightarrow> gp_closed s' = gp_closed s \<Longrightarrow>
     gp_next s' = gp_next s \<Longrightarrow> grpc_inv tpc s'"
  by (simp add: grpc_inv_def)

lemma grpc_take_inv: "grpc_take s = Some s' \<Longrightarrow> grpc_inv tpc s \<Longrightarrow> grpc_inv tpc s'"
  by (erule grpc_inv_same) (auto simp: grpc_take_def tickets_def unsent_def split: list.splits if_splits)

lemma grpc_push_inv: "grpc_push s = Some s' \<Longrightarrow> grpc_inv tpc s \<Longrightarrow> grpc_inv tpc s'"
  by (erule grpc_inv_same)
    (auto simp: grpc_push_def tickets_def unsent_def split: option.splits nat.splits if_splits prod.splits)

lemma grpc_created_inv: "grpc_created s = Some s' \<Longrightarrow> grpc_inv tpc s \<Longrightarrow> grpc_inv tpc s'"
  by (erule grpc_inv_same)
    (auto simp: grpc_created_def tickets_def unsent_def split: option.splits nat.splits prod.splits)

lemma grpc_dial_inv:
  assumes "grpc_dial tpc s = Some s'" "grpc_inv tpc s" "1 \<le> tpc"
  shows "grpc_inv tpc s'"
proof -
  have d: "gp_creating s = None" "s' = s\<lparr>gp_idle := gp_idle s - 1, gp_creating := Some (gp_next s, tpc - 1),
      gp_next := Suc (gp_next s), gp_refs := (gp_refs s)(gp_next s := word_of_nat tpc)\<rparr>"
    using assms(1) unfolding grpc_dial_def by (cases "gp_creating s"; simp split: if_splits)+
  have "tickets s (gp_next s) = 0" using assms(2) by (simp add: grpc_inv_def)
  then have t: "tickets s' c = (if c = gp_next s then tpc else tickets s c)" for c
    using assms(3) by (auto simp: d tickets_def unsent_def)
  note inv = assms(2) [unfolded grpc_inv_def, THEN conjunct1, rule_format]
    assms(2) [unfolded grpc_inv_def, THEN conjunct2, THEN conjunct1, rule_format]
    assms(2) [unfolded grpc_inv_def, THEN conjunct2, THEN conjunct2, rule_format]
  have "gp_next s' = Suc (gp_next s)" "gp_closed s' = gp_closed s"
      "gp_refs s' = (gp_refs s)(gp_next s := word_of_nat tpc)"
    by (simp_all add: d)
  then show ?thesis
    unfolding grpc_inv_def t using assms(3) by (simp add: inv less_Suc_eq)
qed

lemma sint_small: "n < 2 ^ 31 \<Longrightarrow> sint (word_of_nat n :: u32) = int n"
  by (simp add: signed_of_nat signed_take_bit_int_eq_self)

lemma word_pred: "0 < n \<Longrightarrow> word_of_nat n - 1 = (word_of_nat (n - 1) :: u32)"
  by (cases n) simp_all

lemma grpcClient_Close_sel:
  assumes "gp_refs s c - 1 = r" "sint r = int k"
  shows "gp_refs (grpcClient_Close c s) = (gp_refs s)(c := r)"
    and "gp_closed (grpcClient_Close c s) = (if k = 0 then c # gp_closed s else gp_closed s)"
    and "gp_next (grpcClient_Close c s) = gp_next s"
  by (simp_all add: grpcClient_Close_def Let_def assms)

lemma grpc_finish_inv:
  assumes "c \<in> set (gp_inuse s)" "grpc_inv tpc s" "tpc < 2 ^ 31"
  shows "grpc_inv tpc (runWithClient_finish c failed s)"
proof -
  let ?s1 = "s\<lparr>gp_inuse := remove1 c (gp_inuse s), gp_idle := Suc (gp_idle s)\<rparr>"
  have pos: "0 < count_list (gp_inuse s) c"
    using assms(1) by (simp add: count_list_0_iff neq0_conv [symmetric] del: neq0_conv)
  then have tp: "0 < tickets s c" by (simp add: tickets_def)
  have r1: "count_list (remove1 c (gp_inuse s)) d = (if d = c then count_list (gp_inuse s) c - 1 else count_list (gp_inuse s) d)" for d
    using count_remove1 [OF assms(1), of d] by auto
  have t1: "tickets ?s1 d = (if d = c then tickets s c - 1 else tickets s d)" for d
    using pos by (auto simp: tickets_def unsent_def r1)
  show ?thesis
  proof (cases "failed \<or> length (gp_chan s) < gp_cap s")
    case True
    have "tickets (runWithClient_finish c failed s) = tickets s"
      using True pos by (auto simp: fun_eq_iff runWithClient_finish_def Let_def tickets_def unsent_def r1)
    then show ?thesis
      using True assms(2) by (elim grpc_inv_same) (auto simp: runWithClient_finish_def Let_def)
  next
    case False
    let ?k = "tickets s c - 1"
    have f: "runWithClient_finish c failed s = grpcClient_Close c ?s1"
      using False by (simp add: runWithClient_finish_def Let_def)
    have "?k < 2 ^ 31" using assms(2,3) unfolding grpc_inv_def by (metis diff_le_self le_trans linorder_not_less)
    then have k: "gp_refs s c - 1 = word_of_nat ?k" "sint (word_of_nat ?k :: u32) = int ?k"
      using assms(2) word_pred [OF tp] sint_small [of ?k] by (simp_all add: grpc_inv_def)
    have cn: "c < gp_next s" using assms(2) tp unfolding grpc_inv_def by (metis not_le less_numeral_extra(3))
    have "tickets (grpcClient_Close c ?s1) = tickets ?s1"
      by (simp add: fun_eq_iff grpcClient_Close_def Let_def tickets_def unsent_def)
    then have t2: "tickets (grpcClient_Close c ?s1) d = (if d = c then ?k else tickets s d)" for d
      by (simp only: t1)
    have new: "gp_refs (grpcClient_Close c ?s1) = (gp_refs s)(c := word_of_nat ?k)"
        "gp_closed (grpcClient_Close c ?s1) = (if ?k = 0 then c # gp_closed s else gp_closed s)"
        "gp_next (grpcClient_Close c ?s1) = gp_next s"
      using grpcClient_Close_sel [of ?s1 c "word_of_nat ?k" ?k] k by simp_all
    have "?k \<le> tpc" using assms(2) unfolding grpc_inv_def by (meson diff_le_self le_trans)
    then show ?thesis
      using assms(2) cn tp unfolding f grpc_inv_def t2 new by (cases "tickets s c") auto
  qed
qed

lemma grpc_reach_inv:
  assumes "grpc_reach tpc cons threads s" "1 \<le> tpc" "tpc < 2 ^ 31"
  shows "grpc_inv tpc s"
  using assms(1)
proof (induction rule: grpc_reach.induct)
  case start
  then show ?case by (simp add: grpc_inv_def grpc_NewClient_def tickets_def unsent_def)
next
  case (step s s')
  from step(2) step.IH show ?case
    by cases (auto intro: grpc_take_inv grpc_push_inv grpc_created_inv grpc_dial_inv [OF _ _ assms(2)]
        grpc_finish_inv [OF _ _ assms(3)])
qed

text \<open>
  C21. A shared gRPC connection is closed exactly when its last ticket is gone, and only once: no call
  runs on a closed connection and no ticket of it is left in the channel, however calls interleave. The
  tickets of failed calls keep a connection open for ever.
\<close>

theorem grpc_closed_with_last_ticket:
  assumes "grpc_reach tpc cons threads s" "1 \<le> tpc" "tpc < 2 ^ 31"
  shows "count_list (gp_closed s) c =
      (if c < gp_next s \<and> c \<notin> set (gp_chan s) \<and> c \<notin> set (gp_inuse s) \<and> c \<notin> set (gp_lost s) \<and> unsent s c = 0
       then 1 else 0)
    \<and> gp_refs s c = word_of_nat (tickets s c)"
proof -
  have "tickets s c = 0 \<longleftrightarrow> c \<notin> set (gp_chan s) \<and> c \<notin> set (gp_inuse s) \<and> c \<notin> set (gp_lost s) \<and> unsent s c = 0"
    by (auto simp: tickets_def count_list_0_iff)
  then show ?thesis using grpc_reach_inv [OF assms] unfolding grpc_inv_def by metis
qed

section \<open>A lone goroutine\<close>

definition busy :: "grpc_client \<Rightarrow> nat" where
  "busy s = gp_idle s + length (gp_inuse s) + (if gp_creating s = None then 0 else 1)"

definition lone_inv :: "nat \<Rightarrow> grpc_client \<Rightarrow> bool" where
  "lone_inv tpc s \<longleftrightarrow> busy s = 1 \<and> gp_cap s = 0 \<and> gp_chan s = [] \<and> gp_inuse s = []
     \<and> (\<forall>c k. gp_creating s = Some (c, k) \<longrightarrow> k = tpc - 1)"

lemma lone_step:
  assumes "grpc_step tpc s s'" "lone_inv tpc s" "2 \<le> tpc"
  shows "lone_inv tpc s' \<and> gp_creating s = None"
  using assms
  by cases (auto simp: lone_inv_def busy_def grpc_take_def grpc_dial_def grpc_push_def grpc_created_def
      split: option.splits nat.splits if_splits prod.splits)

text \<open>
  With fewer goroutines than calls per connection the channel has no room: a lone goroutine that
  asks for two or more calls per connection dials, blocks on handing its first spare ticket to nobody,
  and never gets to its first call.
\<close>

theorem grpc_lone_thread_hangs:
  assumes "grpc_reach tpc (1 div tpc) 1 s" "2 \<le> tpc"
  shows "gp_inuse s = [] \<and> (gp_creating s \<noteq> None \<longrightarrow> \<not> grpc_step tpc s s')"
proof -
  have "lone_inv tpc s" using assms(1)
  proof (induction rule: grpc_reach.induct)
    case start
    then show ?case using assms(2) by (simp add: lone_inv_def busy_def grpc_NewClient_def)
  next
    case (step s s')
    show ?case by (rule lone_step [OF step(2) step.IH assms(2), THEN conjunct1])
  qed
  note inv = this
  have "gp_inuse s = []" using inv by (simp add: lone_inv_def)
  moreover have "gp_creating s = None" if "grpc_step tpc s s'"
    by (rule lone_step [OF that inv assms(2), THEN conjunct2])
  ultimately show ?thesis by fast
qed

definition one_dialled :: "nat \<Rightarrow> nat \<Rightarrow> nat \<Rightarrow> grpc_client" where
  "one_dialled tpc cons threads = the (grpc_dial tpc (grpc_NewClient tpc cons threads))"

lemma one_dialled_reach: "0 < threads \<Longrightarrow> grpc_reach tpc cons threads (one_dialled tpc cons threads)"
  by (rule grpc_reach.step [OF grpc_reach.start grpc_step.dial])
    (simp add: one_dialled_def grpc_dial_def grpc_NewClient_def)

theorem grpc_lone_thread_hangs_witness:
  "gp_creating (one_dialled 2 0 1) = Some (0, 1) \<and> (\<forall>s'. \<not> grpc_step 2 (one_dialled 2 0 1) s')"
proof -
  have c: "gp_creating (one_dialled 2 0 1) = Some (0, 1)"
    by (simp add: one_dialled_def grpc_dial_def grpc_NewClient_def)
  then show ?thesis
    using grpc_lone_thread_hangs [of 2 "one_dialled 2 0 1"] one_dialled_reach [of 1 2 0] by simp
qed

theorem grpc_closed_with_last_ticket_witness:
  "gp_closed (runWithClient_finish 0 False (the (grpc_created (one_dialled 1 0 1)))) = [0]"
proof -
  define u where "u = the (grpc_created (one_dialled 1 0 1))"
  have u: "gp_inuse u = [0]" "gp_chan u = []" "gp_cap u = 0" "gp_refs u 0 = 1" "gp_creating u = None"
      "gp_next u = 1" "gp_lost u = []" "gp_closed u = []"
    by (simp_all add: u_def grpc_created_def one_dialled_def grpc_dial_def grpc_NewClient_def)
  have "grpc_reach 1 0 1 u"
    by (rule grpc_reach.step [OF one_dialled_reach grpc_step.created])
      (simp_all add: u_def grpc_created_def one_dialled_def grpc_dial_def grpc_NewClient_def)
  then have "grpc_reach 1 0 1 (runWithClient_finish 0 False u)"
    by (rule grpc_reach.step) (rule grpc_step.finish, simp add: u(1))
  from grpc_closed_with_last_ticket [OF this, of 0]
  have "count_list (gp_closed (runWithClient_finish 0 False u)) 0 = 1"
    by (simp add: runWithClient_finish_def grpcClient_Close_def Let_def u unsent_def)
  then show ?thesis
    unfolding u_def [symmetric] by (simp add: runWithClient_finish_def grpcClient_Close_def Let_def u)
qed

end
