(* ===== verification/Bench.thy ===== *)
theory Bench
  imports Plain_Blocks Grpc_Blocks
begin

text \<open>
  The benchmark program, \<open>cmd/rpcbench/rpcbench.go\<close>: the choice of server and client by their mode, the
  counters that the working goroutines add to and the reporter empties once a second, and the line it
  prints. Command line, clock and profiler are not modelled.
\<close>

section \<open>Choice of mode\<close>

datatype bench_mode = Mode_grpc | Mode_gorpc | Mode_tcpsendfile | Mode_perf | Mode_jnet | Mode_iorpc | Mode_quic | Mode_tcppool

definition client_mode :: "string \<Rightarrow> bench_mode" where
  "client_mode s =
     (if s = ''grpc'' then Mode_grpc else if s = ''gorpc'' then Mode_gorpc else if s = ''jnet'' then Mode_jnet
      else if s = ''iorpc'' then Mode_iorpc else if s = ''tcpsendfile'' then Mode_tcpsendfile
      else if s = ''perf'' then Mode_perf else if s = ''quic'' then Mode_quic else Mode_tcppool)"

text \<open>The server's \<open>switch\<close> has the same cases in another order; two of them serve files, the others memory.\<close>

definition cmdServer :: "string \<Rightarrow> bench_mode \<times> bool" where
  "cmdServer s =
     (if s = ''grpc'' then (Mode_grpc, False) else if s = ''gorpc'' then (Mode_gorpc, False)
      else if s = ''tcpsendfile'' then (Mode_tcpsendfile, True) else if s = ''perf'' then (Mode_perf, False)
      else if s = ''jnet'' then (Mode_jnet, False) else if s = ''iorpc'' then (Mode_iorpc, True)
      else if s = ''quic'' then (Mode_quic, False) else (Mode_tcppool, False))"

text \<open>
  The numbers a client is made with: calls per connection, batch and goroutines are 1 when they are not
  given. \<open>client_conns\<close> is the room for connections; \<open>jnet\<close> uses one whatever it is told.
\<close>

definition or_one :: "int \<Rightarrow> int" where
  "or_one x = (if x = 0 then 1 else x)"

definition client_conns :: "bench_mode \<Rightarrow> int \<Rightarrow> int \<Rightarrow> int" where
  "client_conns m tpc threads =
     (case m of
        Mode_grpc \<Rightarrow> go_div threads tpc * tpc
      | Mode_iorpc \<Rightarrow> go_div threads tpc
      | Mode_jnet \<Rightarrow> 1
      | _ \<Rightarrow> threads)"

definition bench_request :: "int \<Rightarrow> nat \<Rightarrow> byte \<times> string" where
  "bench_request cmd i = (word_of_int cmd, decimal i)"

lemma modes_agree: "fst (cmdServer s) = client_mode s"
  by (auto simp: cmdServer_def client_mode_def)

section \<open>Counting\<close>

text \<open>
  One counter: goroutines add to it; the reporter loads it and then stores 0, with anything in between.
  \<open>bc_total\<close>, \<open>bc_reported\<close> and \<open>bc_lost\<close> are history, as if the counter did not wrap.
\<close>

record bench_counter =
  bc_value :: nat
  bc_loaded :: "nat option"
  bc_total :: nat
  bc_reported :: nat
  bc_lost :: nat

definition new_counter :: bench_counter where
  "new_counter = \<lparr>bc_value = 0, bc_loaded = None, bc_total = 0, bc_reported = 0, bc_lost = 0\<rparr>"

datatype counter_op = Count nat | Load_counter | Store_zero

fun counter_step :: "counter_op \<Rightarrow> bench_counter \<Rightarrow> bench_counter" where
  "counter_step (Count n) c = c\<lparr>bc_value := bc_value c + n, bc_total := bc_total c + n\<rparr>"
| "counter_step Load_counter c = (if bc_loaded c = None then c\<lparr>bc_loaded := Some (bc_value c)\<rparr> else c)"
| "counter_step Store_zero c =
     (case bc_loaded c of
        None \<Rightarrow> c
      | Some r \<Rightarrow> c\<lparr>bc_value := 0, bc_loaded := None, bc_reported := bc_reported c + r,
                    bc_lost := bc_lost c + (bc_value c - r)\<rparr>)"

definition run_counter :: "counter_op list \<Rightarrow> bench_counter" where
  "run_counter ops = fold counter_step ops new_counter"

text \<open>What is counted between the load and the store of 0 is never reported.\<close>

fun between :: "bool \<Rightarrow> counter_op list \<Rightarrow> nat \<Rightarrow> nat" where
  "between loaded [] k = 0"
| "between loaded (Count n # ops) k = between loaded ops (if loaded then k + n else k)"
| "between loaded (Load_counter # ops) k = between True ops k"
| "between loaded (Store_zero # ops) k = (if loaded then k else 0) + between False ops 0"

lemma counter_accounts_aux:
  assumes "case bc_loaded c of None \<Rightarrow> k = 0 | Some r \<Rightarrow> bc_value c = r + k"
    and "bc_reported c + bc_value c + bc_lost c = bc_total c"
  shows "bc_lost (fold counter_step ops c) = bc_lost c + between (bc_loaded c \<noteq> None) ops k
    \<and> bc_reported (fold counter_step ops c) + bc_value (fold counter_step ops c) + bc_lost (fold counter_step ops c)
      = bc_total (fold counter_step ops c)"
  using assms
proof (induction ops arbitrary: c k)
  case (Cons op ops)
  show ?case
  proof (cases op)
    case (Count n)
    then show ?thesis
      using Cons.IH [where c = "counter_step op c" and k = "if bc_loaded c = None then k else k + n"] Cons.prems
      by (auto split: option.splits)
  next
    case Load_counter
    then show ?thesis using Cons.IH [where c = "counter_step op c" and k = k] Cons.prems by (auto split: option.splits)
  next
    case Store_zero
    then show ?thesis using Cons.IH [where c = "counter_step op c" and k = 0] Cons.prems by (auto split: option.splits)
  qed
qed simp

lemma counter_accounts:
  "bc_lost (run_counter ops) = between False ops 0 \<and>
   bc_reported (run_counter ops) + bc_value (run_counter ops) + bc_lost (run_counter ops) = bc_total (run_counter ops)"
  using counter_accounts_aux [where c = new_counter and k = 0 and ops = ops] by (simp add: run_counter_def new_counter_def)

lemma calls_lost_example: "bc_lost (run_counter [Count 3, Load_counter, Count 2, Store_zero, Count 1]) = 2"
  by (simp add: counter_accounts)

section \<open>The printed line\<close>

text \<open>The speed with its unit, as a power of two, and the mean latency in nanoseconds per unit.\<close>

definition speed_line :: "u64 \<Rightarrow> nat \<times> u64" where
  "speed_line sz =
     (if 10 < drop_bit 30 sz then (30, drop_bit 30 sz)
      else if 10 < drop_bit 20 sz then (20, drop_bit 20 sz)
      else if 10 < drop_bit 10 sz then (10, drop_bit 10 sz)
      else (0, sz))"

definition latency_line :: "u64 \<Rightarrow> nat \<times> u64" where
  "latency_line lat =
     (if 10000000 < lat then (1000000, lat div 1000000)
      else if 10000 < lat then (1000, lat div 1000)
      else (1, lat))"

definition bench_report :: "u64 \<Rightarrow> u64 \<Rightarrow> u64 \<Rightarrow> (nat \<times> u64) \<times> (nat \<times> u64) option" where
  "bench_report cnt sz lat = (if cnt = 0 then ((0, sz), None) else (speed_line sz, Some (latency_line (lat div cnt))))"

lemma speed_line_bounds:
  assumes "speed_line sz = (k, v)"
  shows "unat v * 2 ^ k \<le> unat sz \<and> unat sz < (unat v + 1) * 2 ^ k \<and> (k = 0 \<or> 10 < v)"
proof -
  have d: "unat (drop_bit j sz) * 2 ^ j \<le> unat sz \<and> unat sz < (unat (drop_bit j sz) + 1) * 2 ^ j" for j
  proof -
    have u: "unat (drop_bit j sz) = unat sz div 2 ^ j"
      unfolding unat_drop_bit_eq by (rule drop_bit_eq_div)
    have "unat sz mod 2 ^ j < 2 ^ j" by simp
    then have "unat sz < unat sz div 2 ^ j * 2 ^ j + 2 ^ j"
      using div_mult_mod_eq [of "unat sz" "2 ^ j"] by linarith
    then show ?thesis using u by simp
  qed
  show ?thesis using assms d [of 30] d [of 20] d [of 10] by (auto simp: speed_line_def split: if_splits)
qed

end
