(* ===== verification/Stack_FS.thy ===== *)
theory Stack_FS
  imports Data_Gen "HOL-Library.Sublist"
begin

text \<open>
  The FUSE experiment \<open>cmd/fuseexpr\<close>: a file system whose root answers \<open>GetAttr\<close> and \<open>OpenDir\<close> and which
  knows no other file, the cancellation of a request, and the grant of access to \<open>/dev/fuse\<close>. The FUSE
  library, the clock and the operating system are arguments.
\<close>

section \<open>The file system\<close>

record fuse_attr =
  fa_Ino :: u64
  fa_Size :: u64
  fa_Blocks :: u64
  fa_Atime :: u64
  fa_Mtime :: u64
  fa_Ctime :: u64
  fa_Mode :: u32
  fa_Nlink :: u32
  fa_Uid :: u32
  fa_Gid :: u32
  fa_Blksize :: u32

record stack_fs =
  fs_basePath :: string
  fs_capacity :: int
  fs_available :: int
  fs_baseDirAttr :: fuse_attr

definition base_dir_attr :: "int \<Rightarrow> fuse_attr" where
  "base_dir_attr mtime =
     \<lparr>fa_Ino = 1, fa_Size = push_bit 30 16, fa_Blocks = drop_bit 9 (push_bit 30 16), fa_Atime = word_of_int mtime,
      fa_Mtime = word_of_int mtime, fa_Ctime = word_of_int mtime, fa_Mode = 0x41ff, fa_Nlink = 0x12, fa_Uid = 0,
      fa_Gid = 0, fa_Blksize = push_bit 16 1\<rparr>"

text \<open>
  \<open>NewStackFS\<close>. \<open>os.Stat\<close> gives the modification time, or an error and a nil result; \<open>mkdir\<close> is the answer
  of \<open>os.MkdirAll\<close>. After making the directory the constructor goes on with the nil result.
\<close>

datatype stat_result = Stat_ok int | Stat_missing | Stat_error go_error

definition NewStackFS :: "stat_result \<Rightarrow> go_error option \<Rightarrow> string \<Rightarrow> int \<Rightarrow> go_error + stack_fs" where
  "NewStackFS stat mkdir basePath capacity =
     (case stat of
        Stat_ok mtime \<Rightarrow> Inr \<lparr>fs_basePath = basePath, fs_capacity = capacity, fs_available = capacity,
                           fs_baseDirAttr = base_dir_attr mtime\<rparr>
      | Stat_missing \<Rightarrow>
          (case mkdir of
             Some e \<Rightarrow> Inl (Panic ''mkdir'')
           | None \<Rightarrow> Inl (Panic ''invalid memory address or nil pointer dereference''))
      | Stat_error e \<Rightarrow> Inl (Panic ''invalid memory address or nil pointer dereference''))"

datatype fuse_op =
    Lookup string | GetAttr u64 | SetAttr | Mknod string | Mkdir string | Unlink string | Rmdir string
  | Rename string string | Link string | Symlink string string | Readlink | Access | GetXAttr string | ListXAttr
  | SetXAttr string | RemoveXAttr string | Create string | Open | Read_file | Lseek | GetLk | SetLk | SetLkw | Flock
  | Write_file "byte list" | CopyFileRange | Flush_file | Fsync | Fallocate | OpenDir u64 | ReadDir | ReadDirPlus | StatFs

datatype fuse_status = FUSE_OK | ENOENT

text \<open>The status and, for \<open>GetAttr\<close>, what it writes to \<open>out\<close>: a validity of one second and the attributes.\<close>

fun fuse_handle :: "stack_fs \<Rightarrow> fuse_op \<Rightarrow> fuse_status \<times> (u64 \<times> fuse_attr) option" where
  "fuse_handle fs (GetAttr node) = (if node = 1 then (FUSE_OK, Some (1, fs_baseDirAttr fs)) else (ENOENT, None))"
| "fuse_handle fs (OpenDir node) = (if node = 1 then (FUSE_OK, None) else (ENOENT, None))"
| "fuse_handle fs _ = (ENOENT, None)"

lemma fuse_only_root:
  "fst (fuse_handle fs op) = FUSE_OK \<longleftrightarrow> op = GetAttr 1 \<or> op = OpenDir 1"
  by (cases op) auto

text \<open>
  The file system never comes up on a directory it had to make itself: the first run on a fresh machine
  panics after making it, the second finds it.
\<close>

lemma NewStackFS_needs_directory:
  "(\<exists>fs. NewStackFS stat mkdir base cap = Inr fs) \<longleftrightarrow> (\<exists>mtime. stat = Stat_ok mtime)"
  by (cases stat) (auto simp: NewStackFS_def split: option.splits)

section \<open>Internal nodes\<close>

definition minInternalNode :: u64 where
  "minInternalNode = 0x7FFFFFFFFFFFF0"

definition IsSpecialNode :: "u64 \<Rightarrow> bool" where
  "IsSpecialNode ino \<longleftrightarrow> minInternalNode \<le> ino"

text \<open>
  The constants count on from \<open>minInternalNode\<close> with their place in the declaration. A node has an inode,
  a name, the permissions 0666, 0400 or 0444, and whether it is listed.
\<close>

definition internal_inode :: "nat \<Rightarrow> u64" where
  "internal_inode i = minInternalNode + word_of_nat i"

definition internalNodes :: "(u64 \<times> string \<times> nat \<times> bool) list" where
  "internalNodes =
     [(internal_inode 7, ''.control'', 0x1b6, False),
      (internal_inode 2, ''.oplog'', 0x100, False),
      (internal_inode 3, ''.ophistory'', 0x100, False),
      (internal_inode 5, ''.jfsconfig'', 0x100, False),
      (internal_inode 6, ''.zonemap'', 0x124, False),
      (internal_inode 8, ''.heatmap'', 0x124, False),
      (internal_inode 1, ''.stats'', 0x124, True),
      (internal_inode 2, ''.accesslog'', 0x100, True),
      (internal_inode 4, ''.config'', 0x100, True)]"

lemma internal_nodes_special: "\<forall>n \<in> set internalNodes. IsSpecialNode (fst n)"
  by (simp add: internalNodes_def IsSpecialNode_def internal_inode_def minInternalNode_def)

section \<open>Cancellation\<close>

text \<open>
  \<open>Canceled\<close> for a request that has run for \<open>used\<close> nanoseconds, with \<open>closed\<close> for a ready \<open>cancel\<close> channel.
\<close>

record fuse_context =
  fc_canceled :: bool

definition blockInter :: int where
  "blockInter = 1000000000"

definition forceInter :: int where
  "forceInter = 360 * 1000000000"

definition ctx_Cancel :: "fuse_context \<Rightarrow> fuse_context" where
  "ctx_Cancel c = c\<lparr>fc_canceled := True\<rparr>"

definition ctx_Canceled :: "int \<Rightarrow> bool \<Rightarrow> fuse_context \<Rightarrow> bool \<times> fuse_context" where
  "ctx_Canceled used closed c =
     (if 0 < blockInter \<and> used < blockInter then (False, c)
      else if fc_canceled c then (True, c)
      else if closed then (True, c)
      else if forceInter < used then (True, ctx_Cancel c)
      else (False, c))"

text \<open>
  The context of a request: \<open>newContext\<close> sets every field of the pooled object it gets; \<open>releaseContext\<close> puts it
  back as it is. The \<open>cancel\<close> channel is a number, a time one in nanoseconds.
\<close>

record in_header =
  ih_Uid :: u32
  ih_Gid :: u32
  ih_Pid :: u32

record request_context = fuse_context +
  rc_start :: int
  rc_header :: in_header
  rc_gids :: "u32 list option"
  rc_cancel :: nat

definition newContext :: "int \<Rightarrow> nat \<Rightarrow> in_header \<Rightarrow> request_context \<Rightarrow> request_context" where
  "newContext now cancel header pooled =
     pooled\<lparr>rc_start := now, fc_canceled := False, rc_cancel := cancel, rc_header := header, rc_gids := None\<rparr>"

definition releaseContext :: "request_context \<Rightarrow> request_context list \<Rightarrow> request_context list" where
  "releaseContext ctx pool = ctx # pool"

definition ctx_Uid :: "request_context \<Rightarrow> u32" where
  "ctx_Uid c = ih_Uid (rc_header c)"

definition ctx_Gid :: "request_context \<Rightarrow> u32" where
  "ctx_Gid c = ih_Gid (rc_header c)"

definition ctx_Pid :: "request_context \<Rightarrow> u32" where
  "ctx_Pid c = ih_Pid (rc_header c)"

definition ctx_Duration :: "int \<Rightarrow> request_context \<Rightarrow> int" where
  "ctx_Duration now c = now - rc_start c"

definition request_Canceled :: "int \<Rightarrow> (nat \<Rightarrow> bool) \<Rightarrow> request_context \<Rightarrow> bool" where
  "request_Canceled now closed c =
     fst (ctx_Canceled (ctx_Duration now c) (closed (rc_cancel c)) (fuse_context.truncate c))"

text \<open>
  Nothing of the request that used the object before shows: who asks, and whether the request is cancelled,
  which within six minutes it is only by its own channel.
\<close>

lemma newContext_fresh: "newContext now cancel h p = newContext now cancel h q"
  by (simp add: newContext_def)

lemma newContext_canceled:
  assumes "now \<le> t" "t - now \<le> forceInter"
  shows "request_Canceled t closed (newContext now cancel h p) \<longleftrightarrow> blockInter \<le> t - now \<and> closed cancel"
  using assms by (auto simp: request_Canceled_def newContext_def ctx_Duration_def ctx_Canceled_def blockInter_def
      fuse_context.defs)

text \<open>As time passes and a closed channel stays closed, a cancelled request stays cancelled.\<close>

lemma canceled_stays:
  assumes "ctx_Canceled used closed c = (True, c')" "used \<le> used'" "closed \<longrightarrow> closed'"
  shows "fst (ctx_Canceled used' closed' c')"
  using assms by (auto simp: ctx_Canceled_def ctx_Cancel_def blockInter_def forceInter_def split: if_splits)

lemma never_canceled_at_once: "used < blockInter \<Longrightarrow> ctx_Canceled used closed c = (False, c)"
  by (simp add: ctx_Canceled_def blockInter_def)

section \<open>Access to the device\<close>

text \<open>\<open>strings.SplitN(text, sep, 3)\<close>.\<close>

fun split_n :: "nat \<Rightarrow> char \<Rightarrow> string \<Rightarrow> string list" where
  "split_n 0 c s = []"
| "split_n (Suc 0) c s = [s]"
| "split_n (Suc (Suc n)) c s =
     (if c \<in> set s then takeWhile (\<lambda>x. x \<noteq> c) s # split_n (Suc n) c (tl (dropWhile (\<lambda>x. x \<noteq> c) s)) else [s])"

text \<open>The last entry of \<open>/proc/<pid>/cgroup\<close> for the controller \<open>devices\<close>.\<close>

fun device_cgroup :: "string list \<Rightarrow> string \<Rightarrow> go_error + string" where
  "device_cgroup [] found = Inr found"
| "device_cgroup (text # ls) found =
     (let parts = split_n 3 CHR '':'' text in
      if length parts < 3 then Inl (ErrMsg ''invalid cgroup entry'')
      else device_cgroup ls (if parts ! 1 = ''devices'' then parts ! 2 else found))"

definition grants_fuse :: "string list \<Rightarrow> bool" where
  "grants_fuse parts \<longleftrightarrow>
     (parts ! 0 = ''c'' \<or> parts ! 0 = ''a'') \<and> (parts ! 1 = ''10:229'' \<or> parts ! 1 = ''*:*'') \<and> parts ! 2 = ''rwm''"

fun already_granted :: "string list \<Rightarrow> go_error + bool" where
  "already_granted [] = Inr False"
| "already_granted (text # ls) =
     (let parts = split_n 3 CHR '' '' text in
      if length parts < 3 then Inl (ErrMsg ''invalid device list entry'')
      else if grants_fuse parts then Inr True
      else already_granted ls)"

text \<open>
  \<open>grantAccess\<close> over the lines of the files it reads; \<open>open_allow\<close> and \<open>write\<close> are the outcomes for
  \<open>devices.allow\<close>. The result is the error and what was written, with the path.
\<close>

definition devices_root :: string where
  "devices_root = ''/sys/fs/cgroup/devices''"

definition grantAccess :: "go_error + string list \<Rightarrow> (string \<Rightarrow> go_error + string list) \<Rightarrow> go_error option \<Rightarrow> go_error option \<Rightarrow>
    go_error option \<times> (string \<times> string) option" where
  "grantAccess cgroup devlist openErr writeErr =
     (case cgroup of
        Inl e \<Rightarrow> (Some (Wrap ''open cgroup'' e), None)
      | Inr ls \<Rightarrow>
          (case device_cgroup ls [] of
             Inl e \<Rightarrow> (Some e, None)
           | Inr cg \<Rightarrow>
               if cg = [] then (Some (ErrMsg ''fail to find device cgroup''), None)
               else case devlist (clean_path (devices_root @ cg @ ''/devices.list'')) of
                 Inl e \<Rightarrow> (Some (Wrap ''open devices.list'' e), None)
               | Inr ds \<Rightarrow>
                   (case already_granted ds of
                      Inl e \<Rightarrow> (Some e, None)
                    | Inr True \<Rightarrow> (None, None)
                    | Inr False \<Rightarrow>
                        (case openErr of
                           Some e \<Rightarrow> (Some (Wrap ''open devices.allow'' e), None)
                         | None \<Rightarrow> (map_option (Wrap ''write devices.allow'') writeErr,
                             if writeErr = None then Some (devices_root @ cg @ ''/devices.allow'', ''c 10:229 rwm'') else None)))))"

lemma already_granted_any:
  assumes "list_all (\<lambda>t. length (split_n 3 CHR '' '' t) = 3) ls"
  shows "already_granted ls = Inr (\<exists>t \<in> set ls. grants_fuse (split_n 3 CHR '' '' t))"
  using assms by (induction ls) (auto simp: Let_def)

text \<open>
  Access is asked for exactly when no entry grants it, so a second call after a granted one writes nothing.
\<close>

lemma grant_once:
  assumes "device_cgroup ls [] = Inr cg" "cg \<noteq> []"
    and "devlist (clean_path (devices_root @ cg @ ''/devices.list'')) = Inr ds"
    and "list_all (\<lambda>t. length (split_n 3 CHR '' '' t) = 3) ds"
  shows "grantAccess (Inr ls) devlist None None =
    (None, if \<exists>t \<in> set ds. grants_fuse (split_n 3 CHR '' '' t) then None
           else Some (devices_root @ cg @ ''/devices.allow'', ''c 10:229 rwm''))"
  using assms already_granted_any [OF assms(4)] by (simp add: grantAccess_def)

lemma grant_is_recognised: "grants_fuse (split_n 3 CHR '' '' ''c 10:229 rwm'')"
  by code_simp

end
