(* ===== verification/Rdma_Sync.thy ===== *)
theory Rdma_Sync
  imports Net_Prelude
begin

text \<open>
  \<open>sock_sync_data\<close> of \<open>lib/rdmahandler/rdma_operations.c\<close>, through which the two sides of the RDMA experiment
  exchange their connection data and wait for each other. The answers of \<open>write\<close> and \<open>read\<close> are arguments.
\<close>

section \<open>Exchanging bytes over the control socket\<close>

text \<open>One answer of \<open>read\<close>: bytes (cut to the size asked for), the end of the stream, or an error.\<close>

datatype sock_read = RData "byte list" | REof | RFail

text \<open>
  The loop of \<open>sock_sync_data\<close>. Each round reads to the start of \<open>remote_data\<close> and asks for the whole size;
  at the end of the stream \<open>rc\<close> is 0, which the loop takes for no error.
\<close>

partial_function (option) sync_loop ::
    "(nat \<Rightarrow> sock_read) \<Rightarrow> nat \<Rightarrow> nat \<Rightarrow> nat \<Rightarrow> byte list \<Rightarrow> (int \<times> byte list) option" where
  "sync_loop rd i n got buf =
     (if n \<le> got then Some (0, buf)
      else case rd i of
             RData bs \<Rightarrow> sync_loop rd (i + 1) n (got + length (take n bs)) (take n bs @ drop (length (take n bs)) buf)
           | REof \<Rightarrow> sync_loop rd (i + 1) n got buf
           | RFail \<Rightarrow> Some (- 1, buf))"

text \<open>\<open>w\<close> is the answer of \<open>write\<close>: a count or -1.\<close>

definition sock_sync_data :: "int \<Rightarrow> (nat \<Rightarrow> sock_read) \<Rightarrow> nat \<Rightarrow> byte list \<Rightarrow> (int \<times> byte list) option" where
  "sock_sync_data w rd n buf =
     (let rc = if w < int n then w else 0 in
      if rc = 0 then sync_loop rd 0 n 0 buf else Some (rc, buf))"

text \<open>What the buffer holds after the pieces \<open>ps\<close> were each read to its start.\<close>

definition sock_overlay :: "byte list \<Rightarrow> byte list list \<Rightarrow> byte list" where
  "sock_overlay buf ps = foldl (\<lambda>b p. p @ drop (length p) b) buf ps"

lemma sock_overlay_simps [simp]:
  "sock_overlay buf [] = buf"
  "sock_overlay buf (p # ps) = sock_overlay (p @ drop (length p) buf) ps"
  by (simp_all add: sock_overlay_def)

lemma sock_overlay_empty: "\<forall>p \<in> set ps. p = [] \<Longrightarrow> sock_overlay buf ps = buf"
  by (induction ps arbitrary: buf) auto

lemma sync_loop_done: "n \<le> got \<Longrightarrow> sync_loop rd i n got buf = Some (0, buf)"
  by (simp add: sync_loop.simps)

lemma sync_loop_pieces:
  assumes "\<And>j. j < length ps \<Longrightarrow> rd (i + j) = RData (ps ! j)" "got + length (concat ps) \<le> n"
  shows "sync_loop rd i n got buf =
     sync_loop rd (i + length ps) n (got + length (concat ps)) (sock_overlay buf ps)"
  using assms
proof (induction ps arbitrary: i got buf)
  case (Cons p ps)
  show ?case
  proof (cases "n \<le> got")
    case True
    then have "length (concat (p # ps)) = 0" using Cons.prems(2) by linarith
    then have e: "p = []" "\<forall>q \<in> set ps. q = []" by auto
    then show ?thesis using True by (simp add: sync_loop_done sock_overlay_empty)
  next
    case False
    have r: "rd i = RData p" using Cons.prems(1) [of 0] by simp
    have t: "take n p = p" using Cons.prems(2) by simp
    have ih: "sync_loop rd (i + 1) n (got + length p) (p @ drop (length p) buf) =
       sync_loop rd (i + 1 + length ps) n (got + length p + length (concat ps))
         (sock_overlay (p @ drop (length p) buf) ps)"
      using Cons.prems(1) [of "Suc j" for j] Cons.prems(2) by (intro Cons.IH) auto
    show ?thesis using False ih by (simp add: sync_loop.simps [of rd i] r t add.assoc)
  qed
qed simp

lemma sync_loop_eof:
  assumes "\<And>j. i \<le> j \<Longrightarrow> rd j = REof" "got < n"
  shows "sync_loop rd i n got buf = None"
proof (rule ccontr)
  assume "sync_loop rd i n got buf \<noteq> None"
  then obtain y where s: "sync_loop rd i n got buf = Some y" by auto
  have "\<not> ((\<forall>j \<ge> i. rd j = REof) \<and> got < n)"
  proof (rule sync_loop.raw_induct
      [where P = "\<lambda>rd i n got buf y. \<not> ((\<forall>j \<ge> i. rd j = REof) \<and> got < n)", OF _ s])
    fix f rd and i n got :: nat and buf y
    assume ih: "\<And>rd i n got buf y. f rd i n got buf = Some y \<Longrightarrow> \<not> ((\<forall>j \<ge> i. rd j = REof) \<and> (got :: nat) < n)"
      and eq: "(if n \<le> got then Some (0, buf)
        else case rd i of
             RData bs \<Rightarrow> f rd (i + 1) n (got + length (take n bs)) (take n bs @ drop (length (take n bs)) buf)
           | REof \<Rightarrow> f rd (i + 1) n got buf
           | RFail \<Rightarrow> Some (- 1, buf)) = Some y"
    show "\<not> ((\<forall>j \<ge> i. rd j = REof) \<and> got < n)"
    proof
      assume a: "(\<forall>j \<ge> i. rd j = REof) \<and> got < n"
      then have "f rd (i + 1) n got buf = Some y" using eq by auto
      from ih [OF this] show False using a by auto
    qed
  qed
  then show False using assms by blast
qed

text \<open>A message that arrives in one piece is received, whatever the buffer held.\<close>

lemma sync_whole:
  assumes "int n \<le> w" "rd 0 = RData bs" "length bs = n" "length buf = n"
  shows "sock_sync_data w rd n buf = Some (0, bs)"
  using sync_loop_pieces [of "[bs]" rd 0 0 n buf] assms by (simp add: sock_sync_data_def sync_loop_done)

text \<open>After a short write nothing is read; the count written is the result.\<close>

lemma sync_short_write: "0 < w \<Longrightarrow> w < int n \<Longrightarrow> sock_sync_data w rd n buf = Some (w, buf)"
  by (simp add: sock_sync_data_def)

text \<open>
  C39. \<open>sock_sync_data\<close> writes every piece that \<open>read\<close> gives it to the start of the buffer. So a message that
  arrives in one piece is received, of one that TCP delivers in several pieces the later ones overwrite the
  earlier, with 0 as the result all the same; and if the peer closes the connection before
  the message is complete, the call never returns.
\<close>

theorem sock_sync_pieces:
  assumes "int n \<le> w" "\<And>j. j < length ps \<Longrightarrow> rd j = RData (ps ! j)" "length (concat ps) \<le> n"
  shows "(length (concat ps) = n \<longrightarrow> sock_sync_data w rd n buf = Some (0, sock_overlay buf ps)) \<and>
     (length (concat ps) < n \<and> (\<forall>j \<ge> length ps. rd j = REof) \<longrightarrow> sock_sync_data w rd n buf = None)"
  using sync_loop_pieces [of ps rd 0 0 n buf] sync_loop_eof [of "length ps" rd "length (concat ps)" n "sock_overlay buf ps"] assms
  by (simp add: sock_sync_data_def sync_loop_done)

definition two_halves :: "nat \<Rightarrow> sock_read" where
  "two_halves j = (if j = 0 then RData [1, 2] else if j = 1 then RData [3, 4] else REof)"

theorem sock_sync_pieces_witness:
  "sock_sync_data 4 two_halves 4 [0, 0, 0, 0] = Some (0, [3, 4, 0, 0]) \<and>
   sock_sync_data 5 two_halves 5 [0, 0, 0, 0, 0] = None"
proof -
  have p: "\<And>j. j < length [[1, 2], [3, 4]] \<Longrightarrow> two_halves j = RData ([[1, 2], [3, 4]] ! j)"
    by (auto simp: two_halves_def less_Suc_eq)
  show ?thesis
    using sock_sync_pieces [of 4 4 "[[1, 2], [3, 4]]" two_halves "[0, 0, 0, 0]", OF _ p]
      sock_sync_pieces [of 5 5 "[[1, 2], [3, 4]]" two_halves "[0, 0, 0, 0, 0]", OF _ p]
    by (simp add: two_halves_def)
qed

end
