(* ===== verification/Rdma_Resources.thy ===== *)
theory Rdma_Resources
  imports Rdma_Sync Data_Gen
begin

text \<open>
  How the RDMA experiment sets a connection up and takes it down: \<open>initRDMAConnection\<close> and \<open>Destroy\<close> of
  \<open>lib/rdmahandler/handler.go\<close> with the C functions of \<open>rdma_operations.c\<close> they call. The answers of the
  verbs library, the resolver and the sockets are arguments. Which descriptors and verbs objects are
  live is kept as a list, so that a leak and a second release are visible.
\<close>

section \<open>Outcomes of C code\<close>

text \<open>A call returns, loops for ever, or writes outside of an array.\<close>

datatype 'a c_out = CRet 'a | CSpin | CFault

datatype rdma_obj = RFd int | RDevs | RCtx | RPd | RCq | RBuf | RMr | RQp

text \<open>The live objects, and how often something was released that was not live.\<close>

type_synonym rdma_os = "rdma_obj list \<times> nat"

definition rdma_acquire :: "rdma_obj \<Rightarrow> rdma_os \<Rightarrow> rdma_os" where
  "rdma_acquire x os = (x # fst os, snd os)"

definition rdma_release :: "rdma_obj \<Rightarrow> rdma_os \<Rightarrow> rdma_os" where
  "rdma_release x os = (if x \<in> set (fst os) then (remove1 x (fst os), snd os) else (fst os, snd os + 1))"

lemma release_acquired [simp]: "rdma_release x (rdma_acquire x os) = os"
  by (simp add: rdma_release_def rdma_acquire_def)

lemma release_below [simp]:
  "x \<noteq> y \<Longrightarrow> x \<in> set (fst os) \<Longrightarrow> rdma_release x (rdma_acquire y os) = rdma_acquire y (rdma_release x os)"
  by (simp add: rdma_release_def rdma_acquire_def)

lemma live_acquire [simp]: "set (fst (rdma_acquire x os)) = insert x (set (fst os))"
  by (simp add: rdma_acquire_def)


section \<open>Connection data\<close>

text \<open>\<open>struct cm_con_data_t\<close>, packed: 34 bytes, the numbers in network byte order.\<close>

record con_data =
  cd_addr :: u64
  cd_rkey :: u32
  cd_qp :: u32
  cd_lid :: "16 word"
  cd_gid :: "byte list"

definition put_con :: "con_data \<Rightarrow> byte list" where
  "put_con c = put_u64 (cd_addr c) @ put_u32 (cd_rkey c) @ put_u32 (cd_qp c)
     @ [ucast (drop_bit 8 (cd_lid c)), ucast (cd_lid c)] @ cd_gid c"

definition get_con :: "byte list \<Rightarrow> con_data" where
  "get_con bs =
     \<lparr>cd_addr = be_u64 (take 8 bs), cd_rkey = be_u32 (take 4 (drop 8 bs)), cd_qp = be_u32 (take 4 (drop 12 bs)),
      cd_lid = ucast (bs ! 17) OR push_bit 8 (ucast (bs ! 16)), cd_gid = take 16 (drop 18 bs)\<rparr>"

definition con_size :: nat where "con_size = 34"

lemma lid_bytes: "ucast (ucast v :: byte) OR push_bit 8 (ucast (ucast (drop_bit 8 v) :: byte)) = (v :: 16 word)"
proof (rule bit_word_eqI)
  fix n assume "n < LENGTH(16)"
  then have n: "n < 16" by simp
  show "bit (ucast (ucast v :: byte) OR push_bit 8 (ucast (ucast (drop_bit 8 v) :: byte)) :: 16 word) n = bit v n"
  proof (cases "bit v n")
    case True
    with n show ?thesis by (simp add: bit_or_iff bit_byte_at bit_byte_low) arith
  qed (simp add: bit_or_iff bit_byte_at bit_byte_low)
qed

lemma get_put_con: "length (cd_gid c) = 16 \<Longrightarrow> get_con (put_con c) = c"
proof -
  assume g: "length (cd_gid c) = 16"
  let ?b = "put_con c"
  have a: "take 8 ?b = put_u64 (cd_addr c)" "take 4 (drop 8 ?b) = put_u32 (cd_rkey c)"
    "take 4 (drop 12 ?b) = put_u32 (cd_qp c)" "take 16 (drop 18 ?b) = cd_gid c"
    using g by (simp_all add: put_con_def)
  have b: "?b ! 16 = ucast (drop_bit 8 (cd_lid c))" "?b ! 17 = ucast (cd_lid c)"
    by (simp_all add: put_con_def nth_append)
  show ?thesis using a b by (simp add: get_con_def lid_bytes)
qed

lemma length_put_con: "length (cd_gid c) = 16 \<Longrightarrow> length (put_con c) = con_size"
  by (simp add: put_con_def con_size_def)

section \<open>The answers of the libraries\<close>

text \<open>One address of \<open>getaddrinfo\<close> with what \<open>socket\<close>, \<open>connect\<close>, \<open>bind\<close> and \<open>accept\<close> answer for it.\<close>

record sock_addr =
  sa_fd :: int
  sa_connects :: bool
  sa_binds :: bool
  sa_accept :: int

text \<open>
  \<open>vb_gai\<close> is the result of \<open>getaddrinfo\<close>, \<open>vb_devs\<close> the names of the devices (\<open>None\<close>: the list cannot be
  had), \<open>vb_open\<close> to \<open>vb_qp\<close> whether a call succeeds, \<open>vb_release\<close> whether an object can be given back,
  \<open>vb_gidrc\<close> and \<open>vb_init\<close> to \<open>vb_rts\<close> return codes. \<open>vb_local\<close> holds address, keys and numbers of this side,
  the others are the answers of the socket and the uninitialised bytes of the stack.
\<close>

record verbs =
  vb_gai :: int
  vb_addrs :: "sock_addr list"
  vb_devs :: "string list option"
  vb_open :: bool
  vb_port :: bool
  vb_pd :: bool
  vb_cq :: bool
  vb_malloc :: bool
  vb_mr :: bool
  vb_qp :: bool
  vb_release :: "rdma_obj \<Rightarrow> bool"
  vb_gidrc :: int
  vb_init :: int
  vb_recv :: int
  vb_rtr :: int
  vb_rts :: int
  vb_local :: con_data
  vb_write1 :: int
  vb_read1 :: "nat \<Rightarrow> sock_read"
  vb_junk :: "byte list"
  vb_write2 :: int
  vb_read2 :: "nat \<Rightarrow> sock_read"
  vb_temp :: byte

text \<open>\<open>struct config_t\<close>; a pointer that may be \<open>NULL\<close> is an option. \<open>ib_port\<close> is always 1.\<close>

record rdma_config =
  cf_dev :: "string option"
  cf_server :: "string option"
  cf_port :: u32
  cf_gid :: int

definition rdma_default_config :: rdma_config where
  "rdma_default_config = \<lparr>cf_dev = None, cf_server = None, cf_port = 19875, cf_gid = - 1\<rparr>"

text \<open>\<open>struct resources\<close>: a handle is its being there, the buffer its contents.\<close>

record rdma_res =
  rs_fd :: int
  rs_ctx :: bool
  rs_pd :: bool
  rs_cq :: bool
  rs_buf :: "byte list option"
  rs_mr :: bool
  rs_qp :: bool
  rs_remote :: con_data

text \<open>The zero value with which Go starts; the descriptor is 0, not the -1 of \<open>resources_init\<close>.\<close>

definition rdma_zero :: rdma_res where
  "rdma_zero = \<lparr>rs_fd = 0, rs_ctx = False, rs_pd = False, rs_cq = False, rs_buf = None, rs_mr = False, rs_qp = False,
     rs_remote = \<lparr>cd_addr = 0, cd_rkey = 0, cd_qp = 0, cd_lid = 0, cd_gid = replicate 16 0\<rparr>\<rparr>"

text \<open>\<open>MSG_SIZE\<close>: the 79 characters of \<open>MSG\<close> and 6.\<close>

definition msg_size :: nat where "msg_size = 79 + 6"

section \<open>The control connection\<close>

fun sock_try :: "bool \<Rightarrow> sock_addr list \<Rightarrow> int \<Rightarrow> int \<Rightarrow> rdma_os \<Rightarrow> int \<times> int \<times> rdma_os" where
  "sock_try client [] sockfd listenfd os = (sockfd, listenfd, os)"
| "sock_try client (a # as) sockfd listenfd os =
     (if sa_fd a < 0 then sock_try client as (sa_fd a) listenfd os
      else if client then
        if sa_connects a then sock_try client as (sa_fd a) listenfd (rdma_acquire (RFd (sa_fd a)) os)
        else sock_try client as (- 1) listenfd (rdma_release (RFd (sa_fd a)) (rdma_acquire (RFd (sa_fd a)) os))
      else if \<not> sa_binds a then (- 1, sa_fd a, rdma_acquire (RFd (sa_fd a)) os)
      else sock_try client as (sa_accept a) (sa_fd a)
        (if sa_accept a < 0 then rdma_acquire (RFd (sa_fd a)) os
         else rdma_acquire (RFd (sa_accept a)) (rdma_acquire (RFd (sa_fd a)) os)))"

text \<open>\<open>sprintf\<close> with \<open>%d\<close>; the array \<open>service\<close> has six bytes.\<close>

definition c_int :: "int \<Rightarrow> string" where
  "c_int z = (if z < 0 then CHR ''-'' # decimal (nat (- z)) else decimal (nat z))"

definition sock_connect :: "verbs \<Rightarrow> bool \<Rightarrow> int \<Rightarrow> rdma_os \<Rightarrow> (int \<times> rdma_os) c_out" where
  "sock_connect v client port os =
     (if 6 < length (c_int port) + 1 then CFault
      else case (if vb_gai v < 0 then (vb_gai v, 0, os) else sock_try client (vb_addrs v) (vb_gai v) 0 os) of
             (sockfd, listenfd, os1) \<Rightarrow>
               CRet (sockfd, if listenfd \<noteq> 0 then rdma_release (RFd listenfd) os1 else os1))"

lemma decimal_length: "n < 10 ^ Suc k \<Longrightarrow> length (decimal n) \<le> Suc k"
proof (induction k arbitrary: n)
  case 0
  then show ?case by (simp add: decimal.simps [of n])
next
  case (Suc k)
  have "n div 10 < 10 ^ Suc k" using Suc.prems by (simp add: less_mult_imp_div_less)
  then show ?case using Suc.IH [of "n div 10"] by (simp add: decimal.simps [of n])
qed

text \<open>
  The loop over the addresses does not stop at the first that works: what a client has connected before the
  last address stays open. \<open>forgotten\<close> are these descriptors.
\<close>

definition forgotten :: "verbs \<Rightarrow> bool \<Rightarrow> int list" where
  "forgotten v client =
     (if vb_gai v < 0 \<or> \<not> client then []
      else map sa_fd (filter (\<lambda>a. 0 \<le> sa_fd a \<and> sa_connects a) (butlast (vb_addrs v))))"

definition with_fds :: "int list \<Rightarrow> rdma_os \<Rightarrow> rdma_os" where
  "with_fds fds os = fold (\<lambda>fd. rdma_acquire (RFd fd)) fds os"

lemma with_fds_simps [simp]:
  "with_fds [] os = os" "with_fds (fd # fds) os = with_fds fds (rdma_acquire (RFd fd) os)"
  by (simp_all add: with_fds_def)

definition kept_fd :: "int \<Rightarrow> rdma_os \<Rightarrow> rdma_os" where
  "kept_fd fd os = (if fd < 0 then os else rdma_acquire (RFd fd) os)"

lemma sock_try_client:
  "as \<noteq> [] \<Longrightarrow> \<exists>fd. sock_try True as sockfd listenfd os = (fd, listenfd,
     kept_fd fd (with_fds (map sa_fd (filter (\<lambda>a. 0 \<le> sa_fd a \<and> sa_connects a) (butlast as))) os))"
proof (induction as arbitrary: sockfd os)
  case (Cons a as)
  show ?case
  proof (cases "as = []")
    case True
    then show ?thesis by (cases "sa_fd a < 0"; cases "sa_connects a") (simp_all add: kept_fd_def)
  next
    case False
    note IH = Cons.IH [OF False]
    show ?thesis
      using False IH [of "sa_fd a" os] IH [of "sa_fd a" "rdma_acquire (RFd (sa_fd a)) os"] IH [of "- 1" os]
      by (cases "sa_fd a < 0"; cases "sa_connects a") simp_all
  qed
qed simp

lemma sock_connect_ok:
  assumes "0 \<le> port" "port < 100000" "vb_addrs v \<noteq> []"
    and one: "\<not> client \<longrightarrow> length (vb_addrs v) = 1 \<and> sa_fd (hd (vb_addrs v)) \<noteq> 0"
  shows "\<exists>fd. sock_connect v client port os = CRet (fd, kept_fd fd (with_fds (forgotten v client) os))"
proof -
  have "length (decimal (nat port)) \<le> 5" using decimal_length [of "nat port" 4] assms(1,2) by simp
  then have l: "length (c_int port) + 1 \<le> 6" using assms(1) by (simp add: c_int_def)
  show ?thesis
  proof (cases client)
    case True
    then show ?thesis
      using l sock_try_client [OF assms(3), of "vb_gai v" 0 os]
      by (cases "vb_gai v < 0") (auto simp: sock_connect_def forgotten_def kept_fd_def)
  next
    case False
    then obtain a where "vb_addrs v = [a]" "sa_fd a \<noteq> 0" using one by (auto simp: length_Suc_conv)
    then show ?thesis using l False
      by (cases "sa_accept a = sa_fd a") (simp_all add: sock_connect_def forgotten_def kept_fd_def)
  qed
qed

text \<open>Of a name with two addresses the client keeps the second connection and forgets the first.\<close>

lemma sock_connect_forgets:
  assumes "vb_gai v = 0" "vb_addrs v = [a, b]" "0 \<le> sa_fd a" "sa_connects a" "0 \<le> sa_fd b" "sa_connects b"
    "0 \<le> port" "port < 100000"
  shows "sock_connect v True port os = CRet (sa_fd b, rdma_acquire (RFd (sa_fd b)) (rdma_acquire (RFd (sa_fd a)) os))"
proof -
  have "length (decimal (nat port)) \<le> 5" using decimal_length [of "nat port" 4] assms(7,8) by simp
  then show ?thesis using assms by (simp add: sock_connect_def c_int_def)
qed

section \<open>Creating the resources\<close>

text \<open>A verbs object is given back if the library agrees; \<open>free\<close> and the device list always are.\<close>

definition rel :: "verbs \<Rightarrow> bool \<Rightarrow> rdma_obj \<Rightarrow> rdma_os \<Rightarrow> rdma_os" where
  "rel v held x os = (if held \<and> vb_release v x then rdma_release x os else os)"

definition free_buf :: "rdma_res \<Rightarrow> rdma_os \<Rightarrow> rdma_os" where
  "free_buf res os = (if rs_buf res = None then os else rdma_release RBuf os)"

definition resources_cleanup :: "verbs \<Rightarrow> bool \<Rightarrow> rdma_res \<Rightarrow> rdma_os \<Rightarrow> rdma_res \<times> rdma_os" where
  "resources_cleanup v devs res os =
     (let os = rel v (rs_qp res) RQp os;
          os = rel v (rs_mr res) RMr os;
          os = free_buf res os;
          os = rel v (rs_cq res) RCq os;
          os = rel v (rs_pd res) RPd os;
          os = rel v (rs_ctx res) RCtx os;
          os = (if devs then rdma_release RDevs os else os);
          os = rel v (0 \<le> rs_fd res) (RFd (rs_fd res)) os
      in (res\<lparr>rs_fd := (if 0 \<le> rs_fd res then - 1 else rs_fd res), rs_ctx := False, rs_pd := False, rs_cq := False,
            rs_buf := None, rs_mr := False, rs_qp := False\<rparr>, os))"

text \<open>The search for the device; without a name in the configuration the first one found is taken and remembered.\<close>

fun find_device :: "string option \<Rightarrow> string list \<Rightarrow> string option \<times> bool" where
  "find_device dev [] = (dev, False)"
| "find_device None (d # ds) = (Some d, True)"
| "find_device (Some name) (d # ds) = (if d = name then (Some name, True) else find_device (Some name) ds)"

text \<open>\<open>rdma_fail\<close> is the jump to \<open>resources_create_exit\<close> with a return code.\<close>

type_synonym created = "(int \<times> rdma_res \<times> rdma_config \<times> rdma_os) c_out"

definition rdma_fail :: "verbs \<Rightarrow> int \<Rightarrow> bool \<Rightarrow> rdma_res \<Rightarrow> rdma_config \<Rightarrow> rdma_os \<Rightarrow> created" where
  "rdma_fail v rc devs res cfg os = CRet (rc, fst (resources_cleanup v devs res os), cfg, snd (resources_cleanup v devs res os))"

text \<open>From the open device to the queue pair.\<close>

definition create_objects :: "verbs \<Rightarrow> rdma_res \<Rightarrow> rdma_config \<Rightarrow> rdma_os \<Rightarrow> created" where
  "create_objects v r cfg os =
     (if \<not> vb_port v then rdma_fail v 1 False r cfg os
      else if \<not> vb_pd v then rdma_fail v 1 False r cfg os
      else let r = r\<lparr>rs_pd := True\<rparr>; os = rdma_acquire RPd os in
      if \<not> vb_cq v then rdma_fail v 1 False r cfg os
      else let r = r\<lparr>rs_cq := True\<rparr>; os = rdma_acquire RCq os in
      if \<not> vb_malloc v then rdma_fail v 1 False r cfg os
      else let r = r\<lparr>rs_buf := Some (replicate msg_size 0)\<rparr>; os = rdma_acquire RBuf os in
      if \<not> vb_mr v then rdma_fail v 1 False r cfg os
      else let r = r\<lparr>rs_mr := True\<rparr>; os = rdma_acquire RMr os in
      if \<not> vb_qp v then rdma_fail v 1 False r cfg os
      else CRet (0, r\<lparr>rs_qp := True\<rparr>, cfg, rdma_acquire RQp os))"

definition resources_create :: "verbs \<Rightarrow> rdma_res \<Rightarrow> rdma_config \<Rightarrow> rdma_os \<Rightarrow> created" where
  "resources_create v res cfg os =
     (case sock_connect v (cf_server cfg \<noteq> None) (sint (cf_port cfg)) os of
        CFault \<Rightarrow> CFault
      | CSpin \<Rightarrow> CSpin
      | CRet out \<Rightarrow>
          let r = res\<lparr>rs_fd := fst out\<rparr>; os = snd out in
          if rs_fd r < 0 then rdma_fail v (- 1) False r cfg os
          else case vb_devs v of
                 None \<Rightarrow> rdma_fail v 1 False r cfg os
               | Some ds \<Rightarrow>
                   let os = rdma_acquire RDevs os in
                   if ds = [] then rdma_fail v 1 True r cfg os
                   else case find_device (cf_dev cfg) ds of (dev, found) \<Rightarrow>
                     let cfg = cfg\<lparr>cf_dev := dev\<rparr>
                     in if \<not> found then rdma_fail v 1 True r cfg os
                        else if \<not> vb_open v then rdma_fail v 1 True r cfg os
                        else create_objects v (r\<lparr>rs_ctx := True\<rparr>) cfg (rdma_release RDevs (rdma_acquire RCtx os)))"

section \<open>Connecting and destroying\<close>

text \<open>What this side sends; the identifier of the port is cleared again after it was asked for.\<close>

definition con_sent :: "verbs \<Rightarrow> byte list" where
  "con_sent v = put_con (vb_local v\<lparr>cd_gid := replicate 16 0\<rparr>)"

definition connect_qp :: "verbs \<Rightarrow> rdma_config \<Rightarrow> rdma_res \<Rightarrow> (int \<times> rdma_res) c_out" where
  "connect_qp v cfg res =
     (if 0 \<le> cf_gid cfg \<and> vb_gidrc v \<noteq> 0 then CRet (vb_gidrc v, res)
      else case sock_sync_data (vb_write1 v) (vb_read1 v) con_size (vb_junk v) of
        None \<Rightarrow> CSpin
      | Some (rc, tmp) \<Rightarrow>
          if rc < 0 then CRet (1, res)
          else let res = res\<lparr>rs_remote := get_con tmp\<rparr> in
          if vb_init v \<noteq> 0 then CRet (vb_init v, res)
          else if cf_server cfg \<noteq> None \<and> vb_recv v \<noteq> 0 then CRet (vb_recv v, res)
          else if vb_rtr v \<noteq> 0 then CRet (vb_rtr v, res)
          else if vb_rts v \<noteq> 0 then CRet (vb_rts v, res)
          else case sock_sync_data (vb_write2 v) (vb_read2 v) 1 [vb_temp v] of
                 None \<Rightarrow> CSpin
               | Some (rc, c) \<Rightarrow> CRet (if rc \<noteq> 0 then 1 else 0, res))"

text \<open>\<open>resources_destroy\<close> goes on after a failure and does not reset the handles.\<close>

definition resources_destroy :: "verbs \<Rightarrow> rdma_res \<Rightarrow> rdma_os \<Rightarrow> int \<times> rdma_os" where
  "resources_destroy v res os =
     (let os = rel v (rs_qp res) RQp os;
          os = rel v (rs_mr res) RMr os;
          os = free_buf res os;
          os = rel v (rs_cq res) RCq os;
          os = rel v (rs_pd res) RPd os;
          os = rel v (rs_ctx res) RCtx os;
          os = rel v (0 \<le> rs_fd res) (RFd (rs_fd res)) os
      in (if (rs_qp res \<longrightarrow> vb_release v RQp) \<and> (rs_mr res \<longrightarrow> vb_release v RMr) \<and> (rs_cq res \<longrightarrow> vb_release v RCq)
            \<and> (rs_pd res \<longrightarrow> vb_release v RPd) \<and> (rs_ctx res \<longrightarrow> vb_release v RCtx)
            \<and> (0 \<le> rs_fd res \<longrightarrow> vb_release v (RFd (rs_fd res))) then 0 else 1, os))"

definition initRDMAConnection :: "verbs \<Rightarrow> string \<Rightarrow> int \<Rightarrow> rdma_config \<Rightarrow> rdma_os \<Rightarrow>
    ((go_error + rdma_res) \<times> rdma_config \<times> rdma_os) c_out" where
  "initRDMAConnection v ip port cfg os =
     (let cfg = cfg\<lparr>cf_server := (if ip \<noteq> [] then Some ip else None), cf_port := word_of_int port\<rparr> in
      case resources_create v rdma_zero cfg os of
        CFault \<Rightarrow> CFault
      | CSpin \<Rightarrow> CSpin
      | CRet (rc, res, cfg, os) \<Rightarrow>
          if rc \<noteq> 0 then CRet (Inl (ErrMsg ''failed to create resources''), cfg, os)
          else case connect_qp v cfg res of
                 CFault \<Rightarrow> CFault
               | CSpin \<Rightarrow> CSpin
               | CRet (rc, res) \<Rightarrow>
                   if rc \<noteq> 0
                   then CRet (Inl (ErrMsg ''failed to connect QPs''), cfg, snd (resources_destroy v res os))
                   else CRet (Inr res, cfg, os))"

definition InitServer :: "verbs \<Rightarrow> int \<Rightarrow> rdma_config \<Rightarrow> rdma_os \<Rightarrow>
    ((go_error + rdma_res) \<times> rdma_config \<times> rdma_os) c_out" where
  "InitServer v port cfg os = initRDMAConnection v [] port cfg os"

definition InitClient :: "verbs \<Rightarrow> string \<Rightarrow> int \<Rightarrow> rdma_config \<Rightarrow> rdma_os \<Rightarrow>
    ((go_error + rdma_res) \<times> rdma_config \<times> rdma_os) c_out" where
  "InitClient v ip port cfg os = initRDMAConnection v ip port cfg os"

definition rdma_Destroy :: "verbs \<Rightarrow> rdma_res \<Rightarrow> rdma_os \<Rightarrow> go_error option \<times> rdma_os" where
  "rdma_Destroy v res os =
     (if fst (resources_destroy v res os) \<noteq> 0
      then (Some (ErrMsg ''failed to destroy resources''), snd (resources_destroy v res os))
      else (None, snd (resources_destroy v res os)))"

section \<open>Nothing is left behind\<close>

text \<open>The live objects of a \<open>struct resources\<close>, in the order of their creation, on top of what was live before.\<close>

definition acq :: "bool \<Rightarrow> rdma_obj \<Rightarrow> rdma_os \<Rightarrow> rdma_os" where
  "acq held x os = (if held then rdma_acquire x os else os)"

definition rdma_stack :: "rdma_res \<Rightarrow> rdma_os \<Rightarrow> rdma_os" where
  "rdma_stack res os =
     acq (rs_qp res) RQp (acq (rs_mr res) RMr (acq (rs_buf res \<noteq> None) RBuf (acq (rs_cq res) RCq (acq (rs_pd res) RPd
       (acq (rs_ctx res) RCtx (acq (0 \<le> rs_fd res) (RFd (rs_fd res)) os))))))"

lemma rel_acq: "vb_release v x \<Longrightarrow> rel v held x (acq held x os) = os"
  by (simp add: rel_def acq_def)

lemma free_acq: "free_buf res (acq (rs_buf res \<noteq> None) RBuf os) = os"
  by (simp add: free_buf_def acq_def)

lemma cleanup_stack: "(\<And>x. vb_release v x) \<Longrightarrow> snd (resources_cleanup v False res (rdma_stack res os)) = os"
  by (simp add: resources_cleanup_def rdma_stack_def Let_def rel_acq free_acq del: not_None_eq)

lemma destroy_stack: "(\<And>x. vb_release v x) \<Longrightarrow> resources_destroy v res (rdma_stack res os) = (0, os)"
  by (simp add: resources_destroy_def rdma_stack_def Let_def rel_acq free_acq del: not_None_eq)

text \<open>A creation that fails leaves everything as it was; one that succeeds holds what its handles say.\<close>

definition created_ok :: "rdma_os \<Rightarrow> created \<Rightarrow> bool" where
  "created_ok os out =
     (case out of
        CRet (rc, res, cfg, os') \<Rightarrow>
          if rc \<noteq> 0 then os' = os else os' = rdma_stack res os \<and> 0 \<le> rs_fd res \<and> rs_buf res = Some (replicate msg_size 0)
      | _ \<Rightarrow> False)"

lemma created_ok_ret:
  assumes "created_ok os out"
  shows "\<exists>rc res c os1. out = CRet (rc, res, c, os1) \<and> (if rc \<noteq> 0 then os1 = os else os1 = rdma_stack res os)"
proof (cases out)
  case (CRet x)
  obtain rc res c os1 where "x = (rc, res, c, os1)" by (cases x) blast
  then show ?thesis
    using assms CRet by (intro exI [of _ rc] exI [of _ res] exI [of _ c] exI [of _ os1]) (simp add: created_ok_def split: if_splits)
qed (use assms in \<open>simp_all add: created_ok_def\<close>)

lemma rdma_fail_ok:
  assumes "\<And>x. vb_release v x" "rc \<noteq> 0" "os' = rdma_stack res os"
  shows "created_ok os (rdma_fail v rc False res cfg os')"
  using assms cleanup_stack [of v res os] by (simp add: created_ok_def rdma_fail_def)

lemma rdma_fail_devs:
  assumes "\<And>x. vb_release v x" "rc \<noteq> 0" "res = rdma_zero\<lparr>rs_fd := fd\<rparr>" "0 \<le> fd"
  shows "created_ok os (rdma_fail v rc True res cfg (rdma_acquire RDevs (rdma_acquire (RFd fd) os)))"
  using assms by (simp add: created_ok_def rdma_fail_def resources_cleanup_def rel_def free_buf_def rdma_zero_def)

lemma create_objects_ok:
  assumes v: "\<And>x. vb_release v x" and r: "r = rdma_zero\<lparr>rs_fd := fd, rs_ctx := True\<rparr>" "0 \<le> fd"
  shows "created_ok os (create_objects v r cfg (rdma_acquire RCtx (rdma_acquire (RFd fd) os)))"
  unfolding create_objects_def Let_def
  using r by (auto intro!: rdma_fail_ok v simp: rdma_stack_def acq_def rdma_zero_def)
    (simp add: created_ok_def rdma_stack_def acq_def)

lemma resources_create_ok:
  assumes v: "\<And>x. vb_release v x" and a: "vb_addrs v \<noteq> []"
      "cf_server cfg = None \<longrightarrow> length (vb_addrs v) = 1 \<and> sa_fd (hd (vb_addrs v)) \<noteq> 0"
    and p: "cf_port cfg = word_of_int port" "0 \<le> port" "port < 100000"
  shows "created_ok (with_fds (forgotten v (cf_server cfg \<noteq> None)) os) (resources_create v rdma_zero cfg os)"
proof -
  let ?base = "with_fds (forgotten v (cf_server cfg \<noteq> None)) os"
  have "sint (cf_port cfg) = port"
    using p by (simp add: sint_sbintrunc' signed_take_bit_int_eq_self)
  then obtain fd where "sock_connect v (cf_server cfg \<noteq> None) (sint (cf_port cfg)) os = CRet (fd, kept_fd fd ?base)"
    using sock_connect_ok [OF p(2,3) a(1), of "cf_server cfg \<noteq> None" os] a(2) by auto
  then have "\<exists>out. sock_connect v (cf_server cfg \<noteq> None) (sint (cf_port cfg)) os = CRet out \<and>
      snd out = (if fst out < 0 then ?base else rdma_acquire (RFd (fst out)) ?base)"
    by (intro exI [of _ "(fd, kept_fd fd ?base)"]) (simp add: kept_fd_def)
  then obtain out where o: "sock_connect v (cf_server cfg \<noteq> None) (sint (cf_port cfg)) os = CRet out"
      "snd out = (if fst out < 0 then ?base else rdma_acquire (RFd (fst out)) ?base)"
    by blast
  show ?thesis
  proof (cases "fst out < 0")
    case True
    then have "created_ok ?base (rdma_fail v (- 1) False (rdma_zero\<lparr>rs_fd := fst out\<rparr>) cfg ?base)"
      by (intro rdma_fail_ok v) (auto simp: rdma_stack_def acq_def rdma_zero_def)
    then show ?thesis using True o by (simp add: resources_create_def)
  next
    case False
    let ?r = "rdma_zero\<lparr>rs_fd := fst out\<rparr>" and ?os = "rdma_acquire (RFd (fst out)) ?base"
    have "created_ok ?base (rdma_fail v 1 False ?r cfg ?os)"
      using False by (intro rdma_fail_ok v) (auto simp: rdma_stack_def acq_def rdma_zero_def)
    moreover have "created_ok ?base (rdma_fail v 1 True ?r c (rdma_acquire RDevs ?os))" for c
      using False by (intro rdma_fail_devs v) auto
    moreover have "created_ok ?base (create_objects v (?r\<lparr>rs_ctx := True\<rparr>) c (rdma_acquire RCtx ?os))" for c
      using False by (intro create_objects_ok v) auto
    ultimately show ?thesis using False o
      by (auto simp: resources_create_def Let_def split: option.split prod.split)
  qed
qed

lemma connect_qp_keeps:
  "connect_qp v cfg res = CRet (rc, res') \<Longrightarrow> rdma_stack res' os = rdma_stack res os \<and> rs_buf res' = rs_buf res"
  by (auto simp: connect_qp_def Let_def rdma_stack_def split: if_splits option.splits)

lemma connect_qp_ends:
  "(\<exists>rc res'. connect_qp v cfg res = CRet (rc, res')) \<or>
   connect_qp v cfg res = CSpin \<and> (sock_sync_data (vb_write1 v) (vb_read1 v) con_size (vb_junk v) = None \<or>
     sock_sync_data (vb_write2 v) (vb_read2 v) 1 [vb_temp v] = None)"
  by (auto simp: connect_qp_def Let_def split: option.splits)

text \<open>
  C38. \<open>initRDMAConnection\<close> of a client, for a name with any number of addresses, and of a server on one address,
  with a port of at most five digits and a library that gives back what it is asked to: it never writes outside
  of an array, and it loops for ever only if one of the two exchanges over the control
  socket does not end. Otherwise it returns, and whichever step fails, every descriptor and object made before is
  given back once, except for the connections to all but the last address, which stay open; after a success
  \<open>Destroy\<close> gives back exactly what the connection holds.
\<close>

theorem rdma_init_cleans_up:
  assumes v: "\<And>x. vb_release v x" and a: "vb_addrs v \<noteq> []"
      "ip = [] \<longrightarrow> length (vb_addrs v) = 1 \<and> sa_fd (hd (vb_addrs v)) \<noteq> 0"
    and p: "0 \<le> port" "port < 100000"
  shows "case initRDMAConnection v ip port cfg os of
       CRet (Inl e, cfg', os') \<Rightarrow> os' = with_fds (forgotten v (ip \<noteq> [])) os
     | CRet (Inr res, cfg', os') \<Rightarrow> rdma_Destroy v res os' = (None, with_fds (forgotten v (ip \<noteq> [])) os)
     | CSpin \<Rightarrow> sock_sync_data (vb_write1 v) (vb_read1 v) con_size (vb_junk v) = None \<or>
         sock_sync_data (vb_write2 v) (vb_read2 v) 1 [vb_temp v] = None
     | CFault \<Rightarrow> False"
proof -
  let ?cfg = "cfg\<lparr>cf_server := (if ip \<noteq> [] then Some ip else None), cf_port := word_of_int port\<rparr>"
  let ?base = "with_fds (forgotten v (ip \<noteq> [])) os"
  have "created_ok (with_fds (forgotten v (cf_server ?cfg \<noteq> None)) os) (resources_create v rdma_zero ?cfg os)"
    by (rule resources_create_ok [OF v a(1) _ _ p]) (use a(2) in simp_all)
  then have "created_ok ?base (resources_create v rdma_zero ?cfg os)" by (cases "ip = []") simp_all
  then obtain rc res c os1 where c: "resources_create v rdma_zero ?cfg os = CRet (rc, res, c, os1)"
      "if rc \<noteq> 0 then os1 = ?base else os1 = rdma_stack res ?base"
    using created_ok_ret by metis
  consider (ret) rc2 res2 where "connect_qp v c res = CRet (rc2, res2)" | (spin) "connect_qp v c res = CSpin"
      "sock_sync_data (vb_write1 v) (vb_read1 v) con_size (vb_junk v) = None \<or>
       sock_sync_data (vb_write2 v) (vb_read2 v) 1 [vb_temp v] = None"
    using connect_qp_ends [of v c res] by (elim disjE [where R = thesis] exE conjE) simp_all
  then show ?thesis
  proof cases
    case ret
    note stack = connect_qp_keeps [OF ret, of ?base]
    show ?thesis
      using c ret stack destroy_stack [OF v, of res2 ?base]
      by (cases "rc = 0"; cases "rc2 = 0") (simp_all add: initRDMAConnection_def rdma_Destroy_def)
  next
    case spin
    then show ?thesis using c by (cases "rc = 0") (simp_all add: initRDMAConnection_def)
  qed
qed

section \<open>Two sides\<close>

text \<open>Every call to the libraries succeeds, and the device that is asked for is there.\<close>

definition verbs_ok :: "verbs \<Rightarrow> rdma_config \<Rightarrow> bool" where
  "verbs_ok v cfg \<longleftrightarrow> 0 \<le> vb_gai v \<and> vb_open v \<and> vb_port v \<and> vb_pd v \<and> vb_cq v \<and> vb_malloc v \<and> vb_mr v \<and> vb_qp v \<and>
     vb_gidrc v = 0 \<and> vb_init v = 0 \<and> vb_recv v = 0 \<and> vb_rtr v = 0 \<and> vb_rts v = 0 \<and>
     (case vb_devs v of None \<Rightarrow> False | Some ds \<Rightarrow> ds \<noteq> [] \<and> snd (find_device (cf_dev cfg) ds))"

definition reachable :: "string \<Rightarrow> sock_addr \<Rightarrow> bool" where
  "reachable ip a \<longleftrightarrow> 0 < sa_fd a \<and> (if ip \<noteq> [] then sa_connects a else sa_binds a \<and> 0 \<le> sa_accept a)"

lemma sock_connect_reachable:
  assumes "0 \<le> port" "port < 100000" "vb_addrs v = [a]" "reachable ip a" "0 \<le> vb_gai v"
  shows "\<exists>fd os1. sock_connect v (ip \<noteq> []) port os = CRet (fd, os1) \<and> 0 \<le> fd"
proof -
  have "length (decimal (nat port)) \<le> 5" using decimal_length [of "nat port" 4] assms(1,2) by simp
  then show ?thesis using assms by (auto simp: sock_connect_def c_int_def reachable_def)
qed

lemma connect_qp_whole:
  assumes "verbs_ok v cfg" "vb_write1 v = int con_size" "vb_read1 v 0 = RData (con_sent peer)" "length (vb_junk v) = con_size"
    "vb_write2 v = 1" "vb_read2 v 0 = RData [c]"
  shows "connect_qp v cfg2 res = CRet (0, res\<lparr>rs_remote := vb_local peer\<lparr>cd_gid := replicate 16 0\<rparr>\<rparr>)"
proof -
  have l: "length (con_sent peer) = con_size" by (simp add: con_sent_def length_put_con)
  have "sock_sync_data (vb_write1 v) (vb_read1 v) con_size (vb_junk v) = Some (0, con_sent peer)"
    using assms l by (intro sync_whole) auto
  moreover have "sock_sync_data (vb_write2 v) (vb_read2 v) 1 [vb_temp v] = Some (0, [c])"
    using assms by (intro sync_whole) auto
  moreover have "get_con (con_sent peer) = vb_local peer\<lparr>cd_gid := replicate 16 0\<rparr>"
    by (simp add: con_sent_def get_put_con)
  ultimately show ?thesis using assms by (simp add: connect_qp_def verbs_ok_def Let_def)
qed

text \<open>
  When every call succeeds and the peer's 34 bytes arrive in one piece, a side ends up with the address and
  the keys of its peer and with a buffer of zeros.
\<close>

theorem rdma_sides_agree:
  assumes ok: "verbs_ok v cfg" and a: "vb_addrs v = [a]" "reachable ip a" and p: "0 \<le> port" "port < 100000"
    and x: "vb_write1 v = int con_size" "vb_read1 v 0 = RData (con_sent peer)" "length (vb_junk v) = con_size"
      "vb_write2 v = 1" "vb_read2 v 0 = RData [c]"
  shows "\<exists>res cfg' os'. initRDMAConnection v ip port cfg os = CRet (Inr res, cfg', os') \<and>
     rs_remote res = vb_local peer\<lparr>cd_gid := replicate 16 0\<rparr> \<and> rs_buf res = Some (replicate msg_size 0)"
proof -
  let ?cfg = "cfg\<lparr>cf_server := (if ip \<noteq> [] then Some ip else None), cf_port := word_of_int port\<rparr>"
  have s: "sint (word_of_int port :: u32) = port" using p by (simp add: sint_sbintrunc' signed_take_bit_int_eq_self)
  have "0 \<le> vb_gai v" using ok by (simp add: verbs_ok_def)
  then obtain fd os1 where f: "sock_connect v (ip \<noteq> []) port os = CRet (fd, os1)" "0 \<le> fd"
    using sock_connect_reachable [OF p a, of os] by blast
  obtain ds where ds: "vb_devs v = Some ds" "ds \<noteq> []" "snd (find_device (cf_dev cfg) ds)"
    using ok by (auto simp: verbs_ok_def split: option.splits)
  have "\<exists>res c os2. resources_create v rdma_zero ?cfg os = CRet (0, res, c, os2) \<and> rs_buf res = Some (replicate msg_size 0)"
    using f ds ok s by (auto simp: resources_create_def create_objects_def verbs_ok_def Let_def split: prod.split)
  then show ?thesis
    using connect_qp_whole [OF ok x] by (auto simp: initRDMAConnection_def)
qed

text \<open>
  \<open>resources_destroy\<close> leaves the handles as they are: a second \<open>Destroy\<close> reports success and
  releases all seven objects again, the buffer with \<open>free\<close>.
\<close>

lemma destroy_twice:
  assumes "\<And>x. vb_release v x" "rs_qp res" "rs_mr res" "rs_buf res = Some b" "rs_cq res" "rs_pd res" "rs_ctx res" "0 \<le> rs_fd res"
  shows "rdma_Destroy v res (snd (rdma_Destroy v res (rdma_stack res ([], 0)))) = (None, ([], 7))"
proof -
  have "resources_destroy v res ([], 0) = (0, ([], 7))"
    using assms by (simp add: resources_destroy_def Let_def rel_def free_buf_def rdma_release_def)
  then show ?thesis using destroy_stack [OF assms(1), of res "([], 0)"] by (simp add: rdma_Destroy_def)
qed

text \<open>An empty name makes \<open>InitClient\<close> a server; a port of six digits overruns the six bytes of \<open>service\<close>.\<close>

lemma InitClient_empty: "InitClient v [] port cfg os = InitServer v port cfg os"
  by (simp add: InitClient_def InitServer_def)

lemma decimal_100000: "length (decimal 100000) = 6"
  by (simp add: decimal.simps)

lemma InitServer_port_overflow: "InitServer v 100000 cfg os = CFault"
  by (simp add: InitServer_def initRDMAConnection_def resources_create_def sock_connect_def c_int_def decimal_100000 Let_def)

section \<open>An instance\<close>

definition demo_verbs :: verbs where
  "demo_verbs = \<lparr>vb_gai = 0, vb_addrs = [\<lparr>sa_fd = 5, sa_connects = True, sa_binds = True, sa_accept = 6\<rparr>],
     vb_devs = Some [''mlx5_0''], vb_open = True, vb_port = True, vb_pd = True, vb_cq = True, vb_malloc = True,
     vb_mr = False, vb_qp = True, vb_release = (\<lambda>x. True), vb_gidrc = 0, vb_init = 0, vb_recv = 0, vb_rtr = 0, vb_rts = 0,
     vb_local = \<lparr>cd_addr = 4096, cd_rkey = 7, cd_qp = 9, cd_lid = 1, cd_gid = replicate 16 0\<rparr>,
     vb_write1 = 34, vb_read1 = (\<lambda>j. RData (replicate 34 0)), vb_junk = replicate 34 0,
     vb_write2 = 1, vb_read2 = (\<lambda>j. RData [81]), vb_temp = 0\<rparr>"

definition demo_verbs_ok :: verbs where
  "demo_verbs_ok = demo_verbs\<lparr>vb_mr := True\<rparr>"

lemma demo_exchanges:
  "sock_sync_data 34 (\<lambda>j. RData (replicate 34 0)) con_size (replicate 34 0) = Some (0, replicate 34 0)"
  "sock_sync_data 1 (\<lambda>j. RData [81]) (Suc 0) [0] = Some (0, [81])"
  by (rule sync_whole; simp add: con_size_def)+

definition demo_verbs_two :: verbs where
  "demo_verbs_two = demo_verbs\<lparr>vb_addrs := [\<lparr>sa_fd = 5, sa_connects = True, sa_binds = True, sa_accept = 6\<rparr>,
     \<lparr>sa_fd = 8, sa_connects = True, sa_binds = True, sa_accept = 9\<rparr>]\<rparr>"

text \<open>The registration of the memory fails: a client with two addresses keeps the first of its sockets.\<close>

theorem rdma_init_cleans_up_witness:
  "(case initRDMAConnection demo_verbs_two ''host'' 8080 rdma_default_config ([], 0) of
      CRet (Inl e, cfg', os') \<Rightarrow> os' = ([RFd 5], 0)
    | CRet (Inr res, cfg', os') \<Rightarrow> rdma_Destroy demo_verbs_two res os' = (None, ([RFd 5], 0)) | _ \<Rightarrow> False) \<and>
   (case initRDMAConnection demo_verbs_ok [] 8080 rdma_default_config ([], 0) of
      CRet (Inl e, cfg', os') \<Rightarrow> os' = ([], 0)
    | CRet (Inr res, cfg', os') \<Rightarrow> rdma_Destroy demo_verbs_ok res os' = (None, ([], 0)) | _ \<Rightarrow> False)"
proof -
  have h: "\<And>x. vb_release demo_verbs_two x" "vb_addrs demo_verbs_two \<noteq> []"
      "''host'' = [] \<longrightarrow> length (vb_addrs demo_verbs_two) = 1 \<and> sa_fd (hd (vb_addrs demo_verbs_two)) \<noteq> 0"
      "\<And>x. vb_release demo_verbs_ok x" "vb_addrs demo_verbs_ok \<noteq> []"
      "[] = [] \<longrightarrow> length (vb_addrs demo_verbs_ok) = 1 \<and> sa_fd (hd (vb_addrs demo_verbs_ok)) \<noteq> 0"
    by (simp_all add: demo_verbs_two_def demo_verbs_ok_def demo_verbs_def)
  have f: "with_fds (forgotten demo_verbs_two (''host'' \<noteq> [])) ([], 0) = ([RFd 5], 0)"
      "with_fds (forgotten demo_verbs_ok ([] \<noteq> [])) ([], 0) = ([], 0)"
    by (simp_all add: forgotten_def demo_verbs_two_def demo_verbs_ok_def demo_verbs_def rdma_acquire_def)
  have x: "(sock_sync_data (vb_write1 v) (vb_read1 v) con_size (vb_junk v) = None \<or>
       sock_sync_data (vb_write2 v) (vb_read2 v) 1 [vb_temp v] = None) = False" if "v \<in> {demo_verbs_two, demo_verbs_ok}" for v
    using that by (auto simp: demo_verbs_two_def demo_verbs_ok_def demo_verbs_def demo_exchanges)
  have port: "(0 :: int) \<le> 8080" "(8080 :: int) < 100000" by simp_all
  show ?thesis
    using rdma_init_cleans_up [OF h(1-3) port, of "([], 0)" rdma_default_config, unfolded f]
      rdma_init_cleans_up [OF h(4-6) port, of "([], 0)" rdma_default_config, unfolded f]
    unfolding x [OF insertI1] x [OF insertI2 [OF singletonI]] by (intro conjI)
qed

end
