(* ===== verification/Rdma_Handler.thy ===== *)
theory Rdma_Handler
  imports Rdma_Resources
begin

text \<open>
  \<open>Write\<close> and \<open>Read\<close> of \<open>lib/rdmahandler/handler.go\<close>, run by the two sides of a connection at the same time.
  Both wait for each other before and after the transfer by exchanging a byte over the control socket; what
  they do in between is interleaved. Neither \<open>strcpy\<close> nor a transfer is atomic: the processor stores the bytes of
  the string one by one, and the adapter reads and writes the bytes of the two memories one by one, in any
  order. A request may be refused or complete badly; a good completion comes after the last byte.
\<close>

section \<open>C strings\<close>

text \<open>\<open>C.CString\<close> ends the string with a zero byte; \<open>strcpy\<close> and \<open>C.GoString\<close> stop at the first one.\<close>

definition c_string :: "byte list \<Rightarrow> byte list" where
  "c_string bs = takeWhile (\<lambda>b. b \<noteq> 0) bs"

text \<open>What \<open>strcpy\<close> leaves in the buffer; \<open>None\<close>: it writes behind the end of it.\<close>

definition c_strcpy :: "byte list \<Rightarrow> byte list \<Rightarrow> byte list option" where
  "c_strcpy buf s =
     (let t = c_string s in if length t < length buf then Some (t @ 0 # drop (length t + 1) buf) else None)"

lemma c_string_append: "c_string (c_string s @ 0 # r) = c_string s"
  unfolding c_string_def by (induction s) auto

lemma c_strcpy_string: "c_strcpy buf s = Some buf' \<Longrightarrow> c_string buf' = c_string s \<and> length buf' = length buf"
  by (auto simp: c_strcpy_def Let_def c_string_append split: if_splits)

lemma c_strcpy_fits: "(\<exists>buf'. c_strcpy buf s = Some buf') \<longleftrightarrow> length (c_string s) < length buf"
  by (auto simp: c_strcpy_def Let_def)

section \<open>One side\<close>

text \<open>
  Where a side is: waiting for the peer's byte of the first or the second \<open>syncData\<close>, inside \<open>strcpy\<close> with the
  positions still to be stored, with a write posted and the positions still to be placed at the peer, with a read
  posted, the bytes fetched so far and the positions still to be stored, past \<open>poll_completion\<close>, or returned.
\<close>

datatype rdma_pc =
    Entry
  | Sync1
  | Synced
  | Copying "nat set"
  | Sending "nat set"
  | Fetching "nat \<Rightarrow> byte option" "nat set"
  | Polled
  | Sync2
  | Returned "go_error + byte list"

text \<open>\<open>rp_buf\<close> is the registered buffer, \<open>rp_in\<close> the bytes that arrived on the control socket.\<close>

record rdma_peer =
  rp_pc :: rdma_pc
  rp_buf :: "byte list"
  rp_in :: "byte list"

text \<open>\<open>syncData\<close>: send the character \<open>R\<close> to the peer, then take one byte from it.\<close>

definition sync_put :: "rdma_peer \<Rightarrow> rdma_peer" where
  "sync_put other = other\<lparr>rp_in := rp_in other @ [82]\<rparr>"

text \<open>
  \<open>Write\<close>: the steps of this side (\<open>s\<close>) with the peer (\<open>p\<close>). A string that does not fit has no step: it
  overruns the buffer.
\<close>

inductive write_step :: "byte list \<Rightarrow> string \<Rightarrow> rdma_peer \<Rightarrow> rdma_peer \<Rightarrow> rdma_peer \<Rightarrow> rdma_peer \<Rightarrow> bool"
  for contents character
where
  W_send: "rp_pc s = Entry \<Longrightarrow> write_step contents character s p (s\<lparr>rp_pc := Sync1\<rparr>) (sync_put p)"
| W_recv: "rp_pc s = Sync1 \<Longrightarrow> rp_in s = c # cs \<Longrightarrow>
    write_step contents character s p (s\<lparr>rp_pc := Synced, rp_in := cs\<rparr>) p"
| W_copy: "rp_pc s = Synced \<Longrightarrow> length (c_string contents @ [0]) \<le> length (rp_buf s) \<Longrightarrow>
    write_step contents character s p (s\<lparr>rp_pc := Copying {..<length (c_string contents @ [0])}\<rparr>) p"
| W_store: "rp_pc s = Copying todo \<Longrightarrow> i \<in> todo \<Longrightarrow>
    write_step contents character s p
      (s\<lparr>rp_pc := Copying (todo - {i}), rp_buf := (rp_buf s)[i := (c_string contents @ [0]) ! i]\<rparr>) p"
| W_post: "rp_pc s = Copying {} \<Longrightarrow> write_step contents character s p (s\<lparr>rp_pc := Sending {..<msg_size}\<rparr>) p"
| W_post_fails: "rp_pc s = Copying {} \<Longrightarrow>
    write_step contents character s p (s\<lparr>rp_pc := Returned (Inl (ErrMsg (character @ '': failed to post SR'')))\<rparr>) p"
| W_place: "rp_pc s = Sending todo \<Longrightarrow> i \<in> todo \<Longrightarrow>
    write_step contents character s p (s\<lparr>rp_pc := Sending (todo - {i})\<rparr>) (p\<lparr>rp_buf := (rp_buf p)[i := rp_buf s ! i]\<rparr>)"
| W_poll: "rp_pc s = Sending {} \<Longrightarrow> write_step contents character s p (s\<lparr>rp_pc := Polled\<rparr>) p"
| W_poll_fails: "rp_pc s = Sending todo \<Longrightarrow>
    write_step contents character s p
      (s\<lparr>rp_pc := Returned (Inl (ErrMsg (character @ '': poll completion failed'')))\<rparr>) p"
| W_send2: "rp_pc s = Polled \<Longrightarrow> write_step contents character s p (s\<lparr>rp_pc := Sync2\<rparr>) (sync_put p)"
| W_recv2: "rp_pc s = Sync2 \<Longrightarrow> rp_in s = c # cs \<Longrightarrow>
    write_step contents character s p (s\<lparr>rp_pc := Returned (Inr []), rp_in := cs\<rparr>) p"

text \<open>\<open>Read\<close>: each byte of the peer's memory is fetched at one moment and stored in this side's at a later one.\<close>

inductive read_step :: "string \<Rightarrow> rdma_peer \<Rightarrow> rdma_peer \<Rightarrow> rdma_peer \<Rightarrow> rdma_peer \<Rightarrow> bool"
  for character
where
  R_send: "rp_pc s = Entry \<Longrightarrow> read_step character s p (s\<lparr>rp_pc := Sync1\<rparr>) (sync_put p)"
| R_recv: "rp_pc s = Sync1 \<Longrightarrow> rp_in s = c # cs \<Longrightarrow> read_step character s p (s\<lparr>rp_pc := Synced, rp_in := cs\<rparr>) p"
| R_post: "rp_pc s = Synced \<Longrightarrow> read_step character s p (s\<lparr>rp_pc := Fetching Map.empty {..<msg_size}\<rparr>) p"
| R_post_fails: "rp_pc s = Synced \<Longrightarrow>
    read_step character s p (s\<lparr>rp_pc := Returned (Inl (ErrMsg (character @ '': failed to post SR'')))\<rparr>) p"
| R_fetch: "rp_pc s = Fetching got todo \<Longrightarrow> i \<in> todo \<Longrightarrow> got i = None \<Longrightarrow>
    read_step character s p (s\<lparr>rp_pc := Fetching (got(i \<mapsto> rp_buf p ! i)) todo\<rparr>) p"
| R_store: "rp_pc s = Fetching got todo \<Longrightarrow> i \<in> todo \<Longrightarrow> got i = Some v \<Longrightarrow>
    read_step character s p (s\<lparr>rp_pc := Fetching got (todo - {i}), rp_buf := (rp_buf s)[i := v]\<rparr>) p"
| R_poll: "rp_pc s = Fetching got {} \<Longrightarrow> read_step character s p (s\<lparr>rp_pc := Polled\<rparr>) p"
| R_poll_fails: "rp_pc s = Fetching got todo \<Longrightarrow>
    read_step character s p
      (s\<lparr>rp_pc := Returned (Inl (ErrMsg (character @ '': poll completion after post_send failed'')))\<rparr>) p"
| R_send2: "rp_pc s = Polled \<Longrightarrow> read_step character s p (s\<lparr>rp_pc := Sync2\<rparr>) (sync_put p)"
| R_recv2: "rp_pc s = Sync2 \<Longrightarrow> rp_in s = c # cs \<Longrightarrow>
    read_step character s p (s\<lparr>rp_pc := Returned (Inr (c_string (rp_buf s))), rp_in := cs\<rparr>) p"

inductive_cases write_stepE: "write_step contents character s p s' p'"
inductive_cases read_stepE: "read_step character s p s' p'"

section \<open>A write that meets a read\<close>

text \<open>The pairs of states that one side in \<open>Write\<close> and the other in \<open>Read\<close> can reach.\<close>

inductive pair_reach ::
    "byte list \<Rightarrow> string \<Rightarrow> string \<Rightarrow> byte list \<Rightarrow> byte list \<Rightarrow> rdma_peer \<Rightarrow> rdma_peer \<Rightarrow> bool"
  for contents cw cr old other
where
  P_start: "pair_reach contents cw cr old other
     \<lparr>rp_pc = Entry, rp_buf = old, rp_in = []\<rparr> \<lparr>rp_pc = Entry, rp_buf = other, rp_in = []\<rparr>"
| P_write: "pair_reach contents cw cr old other w r \<Longrightarrow> write_step contents cw w r w' r' \<Longrightarrow>
     pair_reach contents cw cr old other w' r'"
| P_read: "pair_reach contents cw cr old other w r \<Longrightarrow> read_step cr r w r' w' \<Longrightarrow>
     pair_reach contents cw cr old other w' r'"

text \<open>How many bytes of the control socket a side has sent and taken.\<close>

definition pc_sent :: "rdma_pc \<Rightarrow> nat" where
  "pc_sent pc = (case pc of Entry \<Rightarrow> 0 | Sync2 \<Rightarrow> 2 | Returned (Inr x) \<Rightarrow> 2 | _ \<Rightarrow> 1)"

definition pc_taken :: "rdma_pc \<Rightarrow> nat" where
  "pc_taken pc = (case pc of Entry \<Rightarrow> 0 | Sync1 \<Rightarrow> 0 | Returned (Inr x) \<Rightarrow> 2 | _ \<Rightarrow> 1)"

lemma pc_counts [simp]:
  "pc_sent Entry = 0" "pc_sent Sync1 = 1" "pc_sent Synced = 1" "pc_sent (Copying t) = 1" "pc_sent (Sending t) = 1"
  "pc_sent (Fetching d t) = 1" "pc_sent Polled = 1" "pc_sent Sync2 = 2"
  "pc_sent (Returned (Inl e)) = 1" "pc_sent (Returned (Inr b)) = 2"
  "pc_taken Entry = 0" "pc_taken Sync1 = 0" "pc_taken Synced = 1" "pc_taken (Copying t) = 1" "pc_taken (Sending t) = 1"
  "pc_taken (Fetching d t) = 1" "pc_taken Polled = 1" "pc_taken Sync2 = 1"
  "pc_taken (Returned (Inl e)) = 1" "pc_taken (Returned (Inr b)) = 2"
  by (simp_all add: pc_sent_def pc_taken_def)

text \<open>
  The writer's buffer before and after the copy, and what one byte of either buffer can then be: the old byte or
  the one stored over it.
\<close>

definition copied :: "byte list \<Rightarrow> byte list \<Rightarrow> byte list" where
  "copied contents old = c_string contents @ 0 # drop (length (c_string contents) + 1) old"

definition byte_ok :: "byte list \<Rightarrow> byte list \<Rightarrow> nat \<Rightarrow> byte \<Rightarrow> bool" where
  "byte_ok contents old i v \<longleftrightarrow> v = old ! i \<or> (length (c_string contents) < length old \<and> v = copied contents old ! i)"

definition torn :: "byte list \<Rightarrow> byte list \<Rightarrow> byte list \<Rightarrow> bool" where
  "torn contents old b \<longleftrightarrow> length b = length old \<and> (\<forall>i < length old. byte_ok contents old i (b ! i))"

lemma copied_length: "length (c_string contents) < length old \<Longrightarrow> length (copied contents old) = length old"
  by (simp add: copied_def)

lemma copied_nth:
  "i < length (c_string contents @ [0]) \<Longrightarrow> copied contents old ! i = (c_string contents @ [0]) ! i"
  "length (c_string contents) < i \<Longrightarrow> i < length old \<Longrightarrow> copied contents old ! i = old ! i"
  by (auto simp: copied_def nth_append nth_Cons' less_Suc_eq)

lemma copied_strcpy: "c_strcpy old contents = Some buf \<Longrightarrow> buf = copied contents old"
  by (auto simp: c_strcpy_def copied_def Let_def split: if_splits)

text \<open>Where the writer is in the copy.\<close>

definition writer_ok :: "byte list \<Rightarrow> byte list \<Rightarrow> rdma_peer \<Rightarrow> bool" where
  "writer_ok contents old w \<longleftrightarrow> length (rp_buf w) = length old \<and>
     (case rp_pc w of
        Entry \<Rightarrow> rp_buf w = old
      | Sync1 \<Rightarrow> rp_buf w = old
      | Synced \<Rightarrow> rp_buf w = old
      | Copying todo \<Rightarrow> length (c_string contents) < length old \<and> todo \<subseteq> {..<length (c_string contents @ [0])} \<and>
          (\<forall>i < length old. rp_buf w ! i = (if i \<in> todo then old ! i else copied contents old ! i))
      | _ \<Rightarrow> length (c_string contents) < length old \<and> rp_buf w = copied contents old)"

definition reader_ok :: "byte list \<Rightarrow> byte list \<Rightarrow> rdma_peer \<Rightarrow> bool" where
  "reader_ok contents old r \<longleftrightarrow> length (rp_buf r) = length old \<and>
     (case rp_pc r of
        Fetching got todo \<Rightarrow> (\<forall>i < length old. (\<forall>v. got i = Some v \<longrightarrow> byte_ok contents old i v) \<and>
          (i \<notin> todo \<longrightarrow> byte_ok contents old i (rp_buf r ! i)))
      | Polled \<Rightarrow> torn contents old (rp_buf r)
      | Sync2 \<Rightarrow> torn contents old (rp_buf r)
      | Returned (Inr b) \<Rightarrow> (\<exists>buf. torn contents old buf \<and> b = c_string buf)
      | _ \<Rightarrow> True)"

definition pair_inv :: "byte list \<Rightarrow> byte list \<Rightarrow> rdma_peer \<Rightarrow> rdma_peer \<Rightarrow> bool" where
  "pair_inv contents old w r \<longleftrightarrow>
     pc_taken (rp_pc w) + length (rp_in w) = pc_sent (rp_pc r) \<and>
     pc_taken (rp_pc r) + length (rp_in r) = pc_sent (rp_pc w) \<and>
     writer_ok contents old w \<and> reader_ok contents old r"

lemma writer_bytes: "writer_ok contents old w \<Longrightarrow> i < length old \<Longrightarrow> byte_ok contents old i (rp_buf w ! i)"
  by (auto simp: writer_ok_def byte_ok_def split: rdma_pc.splits if_splits)

lemma byte_ok_upd:
  "(i < length old \<longrightarrow> byte_ok contents old i v) \<Longrightarrow> j < length old \<Longrightarrow> byte_ok contents old j (b ! j) \<Longrightarrow>
     byte_ok contents old j (b[i := v] ! j)"
  by (cases "j = i"; cases "i < length b") (auto simp: list_update_beyond not_less)

lemma sync_put_sel [simp]:
  "rp_pc (sync_put p) = rp_pc p" "rp_buf (sync_put p) = rp_buf p" "rp_in (sync_put p) = rp_in p @ [82]"
  by (simp_all add: sync_put_def)

lemma sync_put_ok [simp]:
  "writer_ok contents old (sync_put p) = writer_ok contents old p" "reader_ok contents old (sync_put p) = reader_ok contents old p"
  by (cases p; simp add: writer_ok_def reader_ok_def sync_put_def split: rdma_pc.split sum.split)+

text \<open>A good byte in the reader's buffer does no harm, whoever stores it.\<close>

lemma reader_ok_store:
  assumes r: "reader_ok contents old r" and v: "i < length old \<longrightarrow> byte_ok contents old i v"
  shows "reader_ok contents old (r\<lparr>rp_buf := (rp_buf r)[i := v]\<rparr>)"
  using assms by (auto simp: reader_ok_def torn_def intro!: byte_ok_upd split: rdma_pc.splits sum.splits)

lemma writer_ok_store:
  assumes w: "writer_ok contents old w" and pc: "rp_pc w = Copying todo" "i \<in> todo"
  shows "writer_ok contents old
    (w\<lparr>rp_pc := Copying (todo - {i}), rp_buf := (rp_buf w)[i := (c_string contents @ [0]) ! i]\<rparr>)"
proof -
  have i: "i < length (c_string contents @ [0])" "length (c_string contents) < length old"
    using w pc by (auto simp: writer_ok_def)
  have "i < length old" using i by simp
  then show ?thesis
    using w pc copied_nth(1) [OF i(1), of old] by (auto simp: writer_ok_def nth_list_update)
qed

lemma writer_ok_posted:
  assumes w: "writer_ok contents old w" and pc: "rp_pc w = Copying {}"
  shows "length (c_string contents) < length old \<and> rp_buf w = copied contents old"
proof -
  have l: "length (c_string contents) < length old" "length (rp_buf w) = length old" using w pc by (simp_all add: writer_ok_def)
  moreover have "rp_buf w = copied contents old"
    by (rule nth_equalityI) (use w pc l copied_length [OF l(1)] in \<open>simp_all add: writer_ok_def\<close>)
  ultimately show ?thesis by simp
qed

lemma writer_ok_started:
  assumes "writer_ok contents old w" "rp_pc w = Synced" "length (c_string contents @ [0]) \<le> length (rp_buf w)"
  shows "writer_ok contents old (w\<lparr>rp_pc := Copying {..<length (c_string contents @ [0])}\<rparr>)"
  using assms copied_nth(2) [of contents _ old] by (auto simp: writer_ok_def)

lemma write_step_inv:
  assumes inv: "pair_inv contents old w r" and step: "write_step contents cw w r w' r'"
  shows "pair_inv contents old w' r'"
proof -
  have w: "writer_ok contents old w" and r: "reader_ok contents old r" using inv by (simp_all add: pair_inv_def)
  show ?thesis
    using step
  proof cases
    case W_copy
    then show ?thesis using inv writer_ok_started [OF w] by (simp add: pair_inv_def)
  next
    case (W_store todo i)
    then show ?thesis using inv writer_ok_store [OF w W_store(3,4)] by (simp add: pair_inv_def)
  next
    case W_post
    then show ?thesis using inv writer_ok_posted [OF w] by (auto simp: pair_inv_def writer_ok_def)
  next
    case W_post_fails
    then show ?thesis using inv writer_ok_posted [OF w] by (auto simp: pair_inv_def writer_ok_def)
  next
    case (W_place todo i)
    then show ?thesis
      using inv reader_ok_store [OF r, of i "rp_buf w ! i"] writer_bytes [OF w, of i] copied_length [of contents old]
      by (simp add: pair_inv_def writer_ok_def)
  qed (use inv in \<open>auto simp: pair_inv_def writer_ok_def\<close>)
qed

lemma reader_ok_fetch:
  "reader_ok contents old r \<Longrightarrow> rp_pc r = Fetching got todo \<Longrightarrow> i < length old \<longrightarrow> byte_ok contents old i v \<Longrightarrow>
     reader_ok contents old (r\<lparr>rp_pc := Fetching (got(i \<mapsto> v)) todo\<rparr>)"
  by (auto simp: reader_ok_def)

lemma reader_ok_stored:
  assumes r: "reader_ok contents old r" and pc: "rp_pc r = Fetching got todo" "got i = Some v"
  shows "reader_ok contents old (r\<lparr>rp_pc := Fetching got (todo - {i}), rp_buf := (rp_buf r)[i := v]\<rparr>)"
proof -
  have v: "i < length old \<Longrightarrow> byte_ok contents old i v" using r pc by (auto simp: reader_ok_def)
  have "byte_ok contents old j ((rp_buf r)[i := v] ! j)" if "j < length old" "j \<notin> todo - {i}" for j
    using r pc v that by (cases "j = i") (auto simp: reader_ok_def)
  then show ?thesis using r pc by (simp add: reader_ok_def)
qed

lemma read_step_inv:
  assumes old: "length old = msg_size" and inv: "pair_inv contents old w r" and step: "read_step cr r w r' w'"
  shows "pair_inv contents old w' r'"
proof -
  have w: "writer_ok contents old w" and r: "reader_ok contents old r" using inv by (simp_all add: pair_inv_def)
  show ?thesis
    using step
  proof cases
    case (R_fetch got todo i)
    then show ?thesis using inv reader_ok_fetch [OF r R_fetch(3)] writer_bytes [OF w, of i] by (simp add: pair_inv_def)
  next
    case (R_store got todo i v)
    then show ?thesis using inv reader_ok_stored [OF r R_store(3,5)] by (simp add: pair_inv_def)
  next
    case R_post
    then show ?thesis using inv old by (auto simp: pair_inv_def reader_ok_def)
  qed (use inv in \<open>auto simp: pair_inv_def reader_ok_def torn_def\<close>)
qed

lemma pair_reach_inv:
  assumes "length old = msg_size" "length other = msg_size" and "pair_reach contents cw cr old other w r"
  shows "pair_inv contents old w r"
  using assms(3)
proof induction
  case P_start
  then show ?case using assms(1,2) by (simp add: pair_inv_def writer_ok_def reader_ok_def)
next
  case (P_write w r w' r')
  from write_step_inv [OF P_write(3) P_write(2)] show ?case .
next
  case (P_read w r r' w')
  from read_step_inv [OF assms(1) P_read(3) P_read(2)] show ?case .
qed

text \<open>
  The two exchanges keep the sides together: a \<open>Read\<close> that returned has met a \<open>Write\<close> whose transfer is
  complete, also when a request failed on the way.
\<close>

lemma read_waits_for_write:
  assumes "length old = msg_size" "length other = msg_size" and "pair_reach contents cw cr old other w r"
    and "rp_pc r = Returned (Inr b)"
  shows "(rp_pc w = Sync2 \<or> (\<exists>x. rp_pc w = Returned (Inr x))) \<and> length (c_string contents) < msg_size"
proof -
  have inv: "pair_inv contents old w r" using pair_reach_inv [OF assms(1-3)] .
  then have "2 \<le> pc_sent (rp_pc w)" using assms(4) by (simp add: pair_inv_def)
  then have pc: "rp_pc w = Sync2 \<or> (\<exists>x. rp_pc w = Returned (Inr x))"
    by (auto simp: pc_sent_def split: rdma_pc.splits sum.splits)
  then show ?thesis using inv assms(1) by (auto simp: pair_inv_def writer_ok_def)
qed

section \<open>The runs\<close>

text \<open>A buffer of which some positions have been overwritten.\<close>

definition blend :: "nat set \<Rightarrow> byte list \<Rightarrow> byte list \<Rightarrow> byte list" where
  "blend B xs ys = map (\<lambda>i. if i \<in> B then ys ! i else xs ! i) [0..<length xs]"

lemma blend_none: "blend {} xs ys = xs"
  by (simp add: blend_def map_nth)

lemma blend_next:
  assumes "v = ys ! i"
  shows "(blend B xs ys)[i := v] = blend (insert i B) xs ys"
proof (rule nth_equalityI)
  fix j assume "j < length ((blend B xs ys)[i := v])"
  then show "(blend B xs ys)[i := v] ! j = blend (insert i B) xs ys ! j"
    by (cases "j = i") (simp_all add: blend_def assms)
qed (simp add: blend_def)

lemma blend_over: "length ys = length xs \<Longrightarrow> (\<And>i. i < length xs \<Longrightarrow> i \<notin> B \<Longrightarrow> xs ! i = ys ! i) \<Longrightarrow> blend B xs ys = ys"
  by (rule nth_equalityI) (auto simp: blend_def)

lemma one_by_one:
  assumes "finite A" "P {}" "\<And>i B. i \<in> A \<Longrightarrow> B \<subseteq> A \<Longrightarrow> i \<notin> B \<Longrightarrow> P B \<Longrightarrow> P (insert i B)"
  shows "P A"
proof -
  have "B \<subseteq> A \<Longrightarrow> P B" if "finite B" for B
    using that by (induction B rule: finite_induct) (use assms in auto)
  then show ?thesis using assms(1) by blast
qed

abbreviation side :: "rdma_pc \<Rightarrow> byte list \<Rightarrow> byte list \<Rightarrow> rdma_peer" where
  "side pc buf inb \<equiv> \<lparr>rp_pc = pc, rp_buf = buf, rp_in = inb\<rparr>"

lemma run_synced: "pair_reach contents cw cr old other (side Synced old []) (side Synced other [])"
proof -
  let ?R = "pair_reach contents cw cr old other"
  have "?R (side Sync1 old []) (side Entry other [82])"
    using P_write [OF P_start W_send] by (simp add: sync_put_def)
  then have "?R (side Sync1 old [82]) (side Sync1 other [82])"
    using P_read [OF _ R_send] by (force simp: sync_put_def)
  then have "?R (side Synced old []) (side Sync1 other [82])"
    using P_write [OF _ W_recv] by force
  then show ?thesis using P_read [OF _ R_recv] by force
qed

lemma run_polled:
  assumes "pair_reach contents cw cr old other (side Polled a []) (side Polled b [])"
  shows "\<exists>w r. pair_reach contents cw cr old other w r \<and> rp_pc w = Returned (Inr []) \<and> rp_pc r = Returned (Inr (c_string b))"
proof -
  let ?R = "pair_reach contents cw cr old other"
  have "?R (side Sync2 a []) (side Polled b [82])"
    using P_write [OF assms W_send2] by (simp add: sync_put_def)
  then have "?R (side Sync2 a [82]) (side Sync2 b [82])"
    using P_read [OF _ R_send2] by (force simp: sync_put_def)
  then have "?R (side (Returned (Inr [])) a []) (side Sync2 b [82])"
    using P_write [OF _ W_recv2] by force
  then have "?R (side (Returned (Inr [])) a []) (side (Returned (Inr (c_string b))) b [])"
    using P_read [OF _ R_recv2] by force
  then show ?thesis by (intro exI conjI) auto
qed

text \<open>Part of the bytes is fetched before the copy, the rest after it.\<close>

definition got_from :: "nat set \<Rightarrow> byte list \<Rightarrow> nat \<Rightarrow> byte option" where
  "got_from B buf i = (if i \<in> B then Some (buf ! i) else None)"

lemma run_fetch:
  assumes start: "pair_reach contents cw cr old other (side pc a inb) (side (Fetching (got_from D b) {..<msg_size}) c inc)"
    and A: "A \<subseteq> {..<msg_size}" and same: "\<And>i. i \<in> A - D \<Longrightarrow> a ! i = b ! i"
  shows "pair_reach contents cw cr old other (side pc a inb) (side (Fetching (got_from (D \<union> A) b) {..<msg_size}) c inc)"
proof -
  let ?R = "\<lambda>B. pair_reach contents cw cr old other (side pc a inb) (side (Fetching (got_from (D \<union> B) b) {..<msg_size}) c inc)"
  have "?R (A - D)"
  proof (rule one_by_one [where P = ?R])
    fix i B assume i: "i \<in> A - D" "i \<notin> B" "?R B"
    have "got_from (D \<union> B) b i = None" using i by (simp add: got_from_def)
    moreover have "(got_from (D \<union> B) b)(i \<mapsto> a ! i) = got_from (D \<union> insert i B) b"
      using same [OF i(1)] by (auto simp: got_from_def fun_eq_iff)
    moreover have "i \<in> {..<msg_size}" using i(1) A by auto
    ultimately show "?R (insert i B)" using P_read [OF i(3) R_fetch, of _ _ i] by force
  qed (use start A finite_subset in auto)
  then show ?thesis by (simp add: Un_Diff_cancel)
qed

lemma run_copy:
  assumes start: "pair_reach contents cw cr old other (side Synced old ina) r" and fits: "length (c_string contents) < length old"
  shows "pair_reach contents cw cr old other (side (Copying {}) (copied contents old) ina) r"
proof -
  let ?T = "{..<length (c_string contents @ [0])}" and ?new = "copied contents old"
  let ?R = "\<lambda>B. pair_reach contents cw cr old other (side (Copying (?T - B)) (blend B old ?new) ina) r"
  have "?R ?T"
  proof (rule one_by_one [where P = ?R])
    have "length (c_string contents @ [0]) \<le> length old" using fits by simp
    then show "?R {}" using P_write [OF start W_copy] by (simp add: blend_none)
  next
    fix i B assume i: "i \<in> ?T" "i \<notin> B" "?R B"
    have "(blend B old ?new)[i := (c_string contents @ [0]) ! i] = blend (insert i B) old ?new"
      by (rule blend_next) (use i(1) copied_nth(1) [of i contents old] in simp)
    moreover have "?T - B - {i} = ?T - insert i B" by blast
    ultimately show "?R (insert i B)" using P_write [OF i(3) W_store, of "?T - B" i] i(1,2) by force
  qed simp
  moreover have "blend ?T old ?new = ?new"
    by (rule blend_over) (use copied_length [OF fits] copied_nth(2) [of contents _ old] in auto)
  ultimately show ?thesis by simp
qed

lemma run_place:
  assumes start: "pair_reach contents cw cr old other (side (Copying {}) a ina) (side pc b inb)"
    and len: "length a = msg_size" "length b = msg_size"
  shows "pair_reach contents cw cr old other (side Polled a ina) (side pc a inb)"
proof -
  let ?R = "\<lambda>B. pair_reach contents cw cr old other (side (Sending ({..<msg_size} - B)) a ina) (side pc (blend B b a) inb)"
  have "?R {..<msg_size}"
  proof (rule one_by_one [where P = ?R])
    show "?R {}" using P_write [OF start W_post] by (simp add: blend_none)
  next
    fix i B assume i: "i \<in> {..<msg_size}" "i \<notin> B" "?R B"
    have "{..<msg_size} - B - {i} = {..<msg_size} - insert i B" by blast
    then show "?R (insert i B)"
      using P_write [OF i(3) W_place, of "{..<msg_size} - B" i] i(1,2) blend_next [of "a ! i" a i B b] by force
  qed simp
  moreover have "blend {..<msg_size} b a = a" by (rule blend_over) (use len in auto)
  ultimately have "pair_reach contents cw cr old other (side (Sending {}) a ina) (side pc a inb)" by simp
  then show ?thesis using P_write [OF _ W_poll] by force
qed

lemma run_store:
  assumes start: "pair_reach contents cw cr old other w (side (Fetching (got_from {..<msg_size} d) {..<msg_size}) b inb)"
    and len: "length b = msg_size" "length d = msg_size"
  shows "pair_reach contents cw cr old other w (side Polled d inb)"
proof -
  let ?g = "got_from {..<msg_size} d"
  let ?R = "\<lambda>B. pair_reach contents cw cr old other w (side (Fetching ?g ({..<msg_size} - B)) (blend B b d) inb)"
  have "?R {..<msg_size}"
  proof (rule one_by_one [where P = ?R])
    show "?R {}" using start by (simp add: blend_none)
  next
    fix i B assume i: "i \<in> {..<msg_size}" "i \<notin> B" "?R B"
    have "{..<msg_size} - B - {i} = {..<msg_size} - insert i B" by blast
    moreover have "?g i = Some (d ! i)" using i(1) by (simp add: got_from_def)
    ultimately show "?R (insert i B)"
      using P_read [OF i(3) R_store, of ?g "{..<msg_size} - B" i] i(1,2) blend_next [of "d ! i" d i B b] by force
  qed simp
  moreover have "blend {..<msg_size} b d = d" by (rule blend_over) (use len in auto)
  ultimately have "pair_reach contents cw cr old other w (side (Fetching ?g {}) d inb)" by simp
  then show ?thesis using P_read [OF _ R_poll] by force
qed

lemma run_torn:
  assumes len: "length old = msg_size" "length other = msg_size" "length d = msg_size"
    and fits: "length (c_string contents) < msg_size"
    and d: "\<And>i. i < msg_size \<Longrightarrow> d ! i = old ! i \<or> d ! i = copied contents old ! i"
  shows "pair_reach contents cw cr old other (side Polled (copied contents old) []) (side Polled d [])"
proof -
  let ?R = "pair_reach contents cw cr old other" and ?new = "copied contents old"
  let ?S = "{i. i < msg_size \<and> d ! i = old ! i}"
  have none: "got_from {} d = Map.empty" by (simp add: got_from_def fun_eq_iff)
  have "?R (side Synced old []) (side (Fetching (got_from {} d) {..<msg_size}) other [])"
    unfolding none using P_read [OF run_synced R_post] by force
  then have "?R (side Synced old []) (side (Fetching (got_from ({} \<union> ?S) d) {..<msg_size}) other [])"
    by (rule run_fetch) auto
  then have "?R (side Synced old []) (side (Fetching (got_from ?S d) {..<msg_size}) other [])" by simp
  from run_copy [OF this] fits len(1)
  have "?R (side (Copying {}) ?new []) (side (Fetching (got_from ?S d) {..<msg_size}) other [])" by simp
  from run_place [OF this] copied_length [of contents old] fits len
  have "?R (side Polled ?new []) (side (Fetching (got_from ?S d) {..<msg_size}) ?new [])" by simp
  then have "?R (side Polled ?new []) (side (Fetching (got_from (?S \<union> {..<msg_size}) d) {..<msg_size}) ?new [])"
    by (rule run_fetch) (use d in fastforce)+
  moreover have "?S \<union> {..<msg_size} = {..<msg_size}" by auto
  ultimately have "?R (side Polled ?new []) (side (Fetching (got_from {..<msg_size} d) {..<msg_size}) ?new [])" by simp
  from run_store [OF this] copied_length [of contents old] fits len show ?thesis by simp
qed

text \<open>
  C37. When one side's \<open>Write\<close> of a string that fits the buffer meets the other's \<open>Read\<close>, the strings that the
  \<open>Read\<close> can return beside a successful \<open>Write\<close> are exactly those of the buffers each of whose bytes is the
  one that the writer's buffer had there before, or the one that \<open>strcpy\<close> stores there: the string written, the
  old one, and every mixture. The exchange of bytes orders the calls, but not the two transfers, which both fill
  the reader's buffer, nor the copy and the fetch.
\<close>

theorem rdma_read_mixes:
  assumes len: "length old = msg_size" "length other = msg_size" and fits: "length (c_string contents) < msg_size"
  shows "(\<exists>w r. pair_reach contents cw cr old other w r \<and>
       rp_pc w = Returned (Inr []) \<and> rp_pc r = Returned (Inr b)) \<longleftrightarrow>
     (\<exists>buf. length buf = msg_size \<and> b = c_string buf \<and> (\<forall>i < msg_size. buf ! i = old ! i \<or>
        buf ! i = (c_string contents @ 0 # drop (length (c_string contents) + 1) old) ! i))"
proof
  assume "\<exists>w r. pair_reach contents cw cr old other w r \<and> rp_pc w = Returned (Inr []) \<and> rp_pc r = Returned (Inr b)"
  then obtain w r where w: "pair_reach contents cw cr old other w r" "rp_pc r = Returned (Inr b)" by blast
  have "pair_inv contents old w r" by (rule pair_reach_inv [OF len w(1)])
  then obtain buf where "torn contents old buf" "b = c_string buf" using w(2) by (auto simp: pair_inv_def reader_ok_def)
  then show "\<exists>buf. length buf = msg_size \<and> b = c_string buf \<and> (\<forall>i < msg_size. buf ! i = old ! i \<or>
        buf ! i = (c_string contents @ 0 # drop (length (c_string contents) + 1) old) ! i)"
    using len(1) by (auto simp: torn_def byte_ok_def copied_def)
next
  assume "\<exists>buf. length buf = msg_size \<and> b = c_string buf \<and> (\<forall>i < msg_size. buf ! i = old ! i \<or>
        buf ! i = (c_string contents @ 0 # drop (length (c_string contents) + 1) old) ! i)"
  then obtain buf where "length buf = msg_size" "b = c_string buf"
      "\<And>i. i < msg_size \<Longrightarrow> buf ! i = old ! i \<or> buf ! i = copied contents old ! i"
    by (auto simp: copied_def)
  then show "\<exists>w r. pair_reach contents cw cr old other w r \<and> rp_pc w = Returned (Inr []) \<and> rp_pc r = Returned (Inr b)"
    using run_polled [OF run_torn [OF len _ fits]] by blast
qed

theorem rdma_read_mixes_witness:
  "\<exists>w r. pair_reach [104, 105] ''client'' ''server'' (replicate 85 65) (replicate 85 0) w r \<and>
     rp_pc w = Returned (Inr []) \<and> rp_pc r = Returned (Inr [104, 65])"
proof -
  let ?old = "replicate 85 (65 :: byte)" and ?buf = "104 # 65 # 0 # replicate 82 (65 :: byte)"
  have c: "c_string [104, 105] = [104, 105]" "c_string ?buf = [104, 65]" by (simp_all add: c_string_def)
  have "?buf ! i = ?old ! i \<or> ?buf ! i = ([104, 105] @ 0 # drop 3 ?old) ! i" if "i < msg_size" for i
    using that by (auto simp: msg_size_def nth_Cons' nth_append)
  then show ?thesis
    using rdma_read_mixes [of ?old "replicate 85 0" "[104, 105]" "''client''" "''server''" "[104, 65]"] c
    by (auto simp: msg_size_def intro!: exI [of _ ?buf])
qed

text \<open>A string of 85 bytes or more is copied behind the end of the buffer.\<close>

lemma rdma_Write_overflows: "length buf = msg_size \<Longrightarrow> c_strcpy buf s = None \<longleftrightarrow> 85 \<le> length (c_string s)"
  by (simp add: c_strcpy_def Let_def msg_size_def not_less)

end
