(* ===== verification/Net_Lifecycle.thy ===== *)
theory Net_Lifecycle
  imports Plain_Blocks Rpc_Setup
begin

text \<open>
  The ends of the block services: how the clients of \<open>gonet\<close>, \<open>tcpsendfile\<close>, \<open>gorpc\<close>, \<open>quic\<close> and \<open>perf\<close> are
  made and closed, the address that the \<open>quic\<close> client dials, the remaining \<open>Serve\<close> loops, the settings with
  which \<open>pkg/net/iorpc\<close> starts the RPC client and server, and the listener of \<open>pkg/iorpc\<close> for other networks.
\<close>

section \<open>Clients with a pool\<close>

text \<open>\<open>make\<close> of a channel or a slice panics at a negative size.\<close>

definition make_len :: "int \<Rightarrow> go_error + nat" where
  "make_len n = (if n < 0 then Inl (Panic ''makechan: size out of range'') else Inr (nat n))"

record block_client =
  bc_addr :: string
  bc_compressOn :: bool
  bc_crcOn :: bool
  bc_conns :: pool

definition gonet_NewClient :: "string \<Rightarrow> int \<Rightarrow> bool \<Rightarrow> bool \<Rightarrow> go_error + block_client" where
  "gonet_NewClient addr cons compressOn crcOn =
     (case make_len cons of
        Inl e \<Rightarrow> Inl e
      | Inr n \<Rightarrow> Inr \<lparr>bc_addr = addr, bc_compressOn = compressOn, bc_crcOn = crcOn, bc_conns = new_pool n\<rparr>)"

definition gonet_Close :: "block_client \<Rightarrow> go_error + block_client" where
  "gonet_Close c = (case pool_Close (bc_conns c) of Inl e \<Rightarrow> Inl e | Inr p \<Rightarrow> Inr (c\<lparr>bc_conns := p\<rparr>))"

text \<open>The clients of \<open>tcpsendfile\<close> (which also keeps the generator) and \<open>gorpc\<close> have no other settings.\<close>

definition sendfile_NewClient :: "string \<Rightarrow> int \<Rightarrow> data_gen \<Rightarrow> go_error + string \<times> data_gen \<times> pool" where
  "sendfile_NewClient addr cons dg =
     (case make_len cons of Inl e \<Rightarrow> Inl e | Inr n \<Rightarrow> Inr (addr, dg, new_pool n))"

definition sendfile_Close :: "string \<times> data_gen \<times> pool \<Rightarrow> go_error + string \<times> data_gen \<times> pool" where
  "sendfile_Close c = (case c of (addr, dg, p) \<Rightarrow>
     (case pool_Close p of Inl e \<Rightarrow> Inl e | Inr p' \<Rightarrow> Inr (addr, dg, p')))"

definition gorpc_NewClient :: "string \<Rightarrow> int \<Rightarrow> go_error + string \<times> pool" where
  "gorpc_NewClient addr cons = (case make_len cons of Inl e \<Rightarrow> Inl e | Inr n \<Rightarrow> Inr (addr, new_pool n))"

definition gorpc_Close :: "string \<times> pool \<Rightarrow> go_error + string \<times> pool" where
  "gorpc_Close c = (case c of (addr, p) \<Rightarrow> (case pool_Close p of Inl e \<Rightarrow> Inl e | Inr p' \<Rightarrow> Inr (addr, p')))"

text \<open>A new client holds no connection, is closed once, and not twice.\<close>

lemma gonet_closed_once:
  assumes "gonet_NewClient addr cons co cr = Inr c"
  shows "conns_of (bc_conns c) = [] \<and> pl_cap (bc_conns c) = nat cons
     \<and> (\<exists>c'. gonet_Close c = Inr c' \<and> gonet_Close c' = Inl (Panic ''close of closed channel''))"
  using assms by (auto simp: gonet_NewClient_def make_len_def gonet_Close_def pool_Close_def new_pool_def conns_of_def
      split: sum.splits if_splits)

section \<open>The address of the quic client\<close>

text \<open>
  \<open>NewClient\<close> splits its address at the colons: the second part is the port, the first goes through
  \<open>net.ParseIP\<close>. Without a colon that part can only be an IPv4 address; anything else gives the nil address.
\<close>

definition octet :: "string \<Rightarrow> nat option" where
  "octet s =
     (if s = [] \<or> 1 < length s \<and> hd s = CHR ''0'' then None
      else case digits_value 0 s of None \<Rightarrow> None | Some n \<Rightarrow> if n \<le> 255 then Some n else None)"

definition parse_ipv4 :: "string \<Rightarrow> ip_addr option" where
  "parse_ipv4 s =
     (case map octet (split_at (CHR ''.'') s) of
        [Some a, Some b, Some c, Some d] \<Rightarrow> Some (IPv4 a b c d)
      | _ \<Rightarrow> None)"

record quic_client =
  qc_ip :: "ip_addr option"
  qc_port :: int
  qc_compressOn :: bool
  qc_crcOn :: bool
  qc_Allow0RTT :: bool
  qc_conns :: pool

text \<open>\<open>Inr None\<close> is the nil client.\<close>

definition quic_NewClient :: "string \<Rightarrow> int \<Rightarrow> bool \<Rightarrow> bool \<Rightarrow> go_error + quic_client option" where
  "quic_NewClient addr cons compressOn crcOn =
     (let parts = split_at (CHR '':'') addr in
      if length parts \<le> 1 then Inl (Panic ''index out of range'')
      else case Atoi (parts ! 1) of
             Inl e \<Rightarrow> Inr None
           | Inr port \<Rightarrow>
               (case make_len cons of
                  Inl e \<Rightarrow> Inl e
                | Inr n \<Rightarrow> Inr (Some \<lparr>qc_ip = parse_ipv4 (parts ! 0), qc_port = port, qc_compressOn = compressOn,
                                   qc_crcOn = crcOn, qc_Allow0RTT = True, qc_conns = new_pool n\<rparr>)))"

definition quic_Close :: "quic_client \<Rightarrow> go_error + quic_client" where
  "quic_Close c = (case pool_Close (qc_conns c) of Inl e \<Rightarrow> Inl e | Inr p \<Rightarrow> Inr (c\<lparr>qc_conns := p\<rparr>))"

text \<open>\<open>c.addr.String()\<close>, which \<open>getConn\<close> dials: a nil address is the empty host.\<close>

definition quic_dial_addr :: "quic_client \<Rightarrow> string" where
  "quic_dial_addr c =
     (case qc_ip c of None \<Rightarrow> [] | Some ip \<Rightarrow> ip_string ip)
     @ '':'' @ (if qc_port c < 0 then ''-'' @ decimal (nat (- qc_port c)) else decimal (nat (qc_port c)))"

text \<open>
  \<open>NewTLSConfig\<close> with the results of the key, of the certificate and of the pair; \<open>GetTLSConfig\<close> returns it, and
  the lines after its first are not reached. The result is the list of protocols.
\<close>

definition NewTLSConfig :: "go_error option \<Rightarrow> go_error option \<Rightarrow> go_error option \<Rightarrow> go_error + string list" where
  "NewTLSConfig keyErr certErr pairErr =
     (case keyErr of
        Some e \<Rightarrow> Inl e
      | None \<Rightarrow>
          (case certErr of
             Some e \<Rightarrow> Inl e
           | None \<Rightarrow> (case pairErr of Some e \<Rightarrow> Inl (Panic ''tls.X509KeyPair'') | None \<Rightarrow> Inr [''camera-quic-server''])))"

definition GetTLSConfig :: "go_error option \<Rightarrow> go_error option \<Rightarrow> go_error option \<Rightarrow> go_error + string list" where
  "GetTLSConfig = NewTLSConfig"

subsection \<open>The client dials the address of the server\<close>

lemma undigit_only_digits: "undigit c = None \<Longrightarrow> c \<notin> set (decimal n)"
  using decimal_digits [of n] by (auto simp: undigit_digit simp del: undigit.simps dest!: subsetD)

lemma plain_decimal: "CHR ''.'' \<notin> set (decimal n)" "CHR '':'' \<notin> set (decimal n)"
  by (rule undigit_only_digits, code_simp)+

lemma decimal_head: "10 \<le> n \<Longrightarrow> hd (decimal n) \<noteq> CHR ''0''"
proof (induction n rule: decimal.induct)
  case (1 n)
  have z: "digit m \<noteq> CHR ''0''" if "0 < m" "m < 10" for m
    using that by (auto simp: digit_def dest!: arg_cong [where f = "of_char :: char \<Rightarrow> nat"] simp: of_char_of)
  have "decimal n = decimal (n div 10) @ [digit (n mod 10)]" using 1(2) by (simp add: decimal.simps [of n])
  moreover have "hd (decimal (n div 10)) \<noteq> CHR ''0''"
  proof (cases "n div 10 < 10")
    case True
    then show ?thesis using z [of "n div 10"] 1(2) by (simp add: decimal.simps [of "n div 10"])
  qed (use 1 in simp)
  ultimately show ?case by (simp add: hd_append)
qed

lemma octet_decimal: "n \<le> 255 \<Longrightarrow> octet (decimal n) = Some n"
  using digits_value_decimal [of n] decimal_head [of n]
  by (cases "n < 10") (auto simp: octet_def decimal.simps [of n])

lemma split_dots: "CHR ''.'' \<notin> set s \<Longrightarrow> split_at (CHR ''.'') (s @ CHR ''.'' # t) = s # split_at (CHR ''.'') t"
  by (induction s) auto

lemma parse_ip_string:
  "a \<le> 255 \<Longrightarrow> b \<le> 255 \<Longrightarrow> c \<le> 255 \<Longrightarrow> d \<le> 255 \<Longrightarrow> parse_ipv4 (ip_string (IPv4 a b c d)) = Some (IPv4 a b c d)"
  by (simp add: parse_ipv4_def split_dots split_at_plain plain_decimal octet_decimal)

text \<open>
  The client made for the address of a server with an IPv4 address dials exactly that; made for a host name, it
  dials the port of the local host.
\<close>

lemma quic_NewClient_parts:
  assumes "CHR '':'' \<notin> set h" "int port < 2 ^ 63" "0 \<le> cons"
  shows "\<exists>q. quic_NewClient (h @ '':'' @ decimal port) cons co cr = Inr (Some q)
     \<and> quic_dial_addr q = (case parse_ipv4 h of None \<Rightarrow> [] | Some ip \<Rightarrow> ip_string ip) @ '':'' @ decimal port"
proof -
  have parts: "split_at (CHR '':'') (h @ '':'' @ decimal port) = [h, decimal port]"
    using split_at_once [OF assms(1) plain_decimal(2), of port] by simp
  show ?thesis
    unfolding quic_NewClient_def parts Let_def
    using assms(2,3) by (simp add: Atoi_decimal make_len_def quic_dial_addr_def)
qed

lemma quic_client_finds_server:
  assumes ip: "bs_ip s = ip_string (IPv4 a b c d)" "a \<le> 255" "b \<le> 255" "c \<le> 255" "d \<le> 255"
    and "int (bs_port s) < 2 ^ 63" "0 \<le> cons"
  shows "\<exists>q. quic_NewClient (server_Addr s) cons co cr = Inr (Some q) \<and> quic_dial_addr q = server_Addr s"
proof -
  have "CHR '':'' \<notin> set (bs_ip s)" using plain_decimal(2) by (simp add: ip(1))
  moreover have "parse_ipv4 (bs_ip s) = Some (IPv4 a b c d)" unfolding ip(1) by (rule parse_ip_string [OF ip(2-5)])
  ultimately show ?thesis
    using quic_NewClient_parts [of "bs_ip s" "bs_port s" cons co cr] assms(6,7) ip(1) by (simp only: server_Addr_def option.case not_False_eq_True simp_thms)
qed

lemma quic_host_name_dials_local:
  assumes "int port < 2 ^ 63"
  shows "\<exists>q. quic_NewClient (''server7:'' @ decimal port) 1 co cr = Inr (Some q) \<and> quic_dial_addr q = '':'' @ decimal port"
proof -
  have "parse_ipv4 ''server7'' = None" by code_simp
  then show ?thesis using quic_NewClient_parts [OF _ assms, of "''server7''" 1 co cr] by simp
qed

lemma quic_no_port:
  "quic_NewClient ''server7'' 1 co cr = Inl (Panic ''index out of range'')"
  "quic_NewClient ''[::1]:8000'' 1 co cr = Inr None"
  by (simp_all add: quic_NewClient_def Atoi_def)

section \<open>perf\<close>

text \<open>\<open>NewClient\<close> has a slot for each connection and dials none; \<open>Close\<close> closes them all in turn.\<close>

definition perf_NewClient :: "string \<Rightarrow> int \<Rightarrow> go_error + string \<times> stream option list" where
  "perf_NewClient addr cons =
     (if cons < 0 then Inl (Panic ''makeslice: len out of range'') else Inr (addr, replicate (nat cons) None))"

definition perf_getConn :: "(string \<Rightarrow> go_error + stream) \<Rightarrow> string \<Rightarrow> go_error + stream" where
  "perf_getConn dial addr = (case dial addr of Inl e \<Rightarrow> Inl e | Inr conn \<Rightarrow> Inr conn)"

fun perf_Close :: "'c option list \<Rightarrow> 'c list \<times> go_error option" where
  "perf_Close [] = ([], None)"
| "perf_Close (None # conns) = ([], Some (Panic ''nil pointer dereference''))"
| "perf_Close (Some c # conns) = (case perf_Close conns of (cs, r) \<Rightarrow> (c # cs, r))"

text \<open>\<open>Close\<close> returns exactly when every slot has been dialled; otherwise the connections behind the first empty slot stay open.\<close>

lemma perf_Close_outcome:
  "fst (perf_Close conns) = map the (takeWhile (\<lambda>c. c \<noteq> None) conns)"
  "snd (perf_Close conns) = None \<longleftrightarrow> None \<notin> set conns"
  by (induction conns rule: perf_Close.induct) (auto split: prod.splits)

lemma perf_unused_Close_panics:
  "perf_NewClient addr cons = Inr (a, conns) \<Longrightarrow> 0 < cons \<Longrightarrow> perf_Close conns = ([], Some (Panic ''nil pointer dereference''))"
  by (cases "nat cons") (auto simp: perf_NewClient_def split: if_splits)

section \<open>Serving\<close>

definition perf_Serve :: "(nat \<Rightarrow> go_error option) \<Rightarrow> (go_error + 'c) list \<Rightarrow> block_server \<Rightarrow>
    (block_server \<times> 'c list \<times> go_error option option) option" where
  "perf_Serve = tcp_Serve"

text \<open>\<open>jnet\<close>: each accepted connection gets a backend, and \<open>Close\<close> closes their connections; the listener stays.\<close>

definition jnet_server_backends :: "(go_error + 'c) list \<Rightarrow> 'c list" where
  "jnet_server_backends accepts = foldl (\<lambda>backends c. backends @ [c]) [] (fst (accept_loop accepts))"

definition jnet_server_Close :: "(nat \<Rightarrow> bool) \<Rightarrow> nat list \<Rightarrow> nat \<Rightarrow> bool" where
  "jnet_server_Close closed backends = foldl (\<lambda>cl c. cl(c := True)) closed backends"

lemma jnet_Close_all: "jnet_server_Close closed backends c \<longleftrightarrow> closed c \<or> c \<in> set backends"
  unfolding jnet_server_Close_def by (induction backends arbitrary: closed) auto

lemma jnet_backends_all: "jnet_server_backends accepts = fst (accept_loop accepts)"
proof -
  have "foldl (\<lambda>backends c. backends @ [c]) bs xs = bs @ xs" for bs xs :: "'a list" by (induction xs arbitrary: bs) auto
  then show ?thesis by (simp add: jnet_server_backends_def)
qed

text \<open>
  \<open>grpc\<close> looks for a free port as the others do and hands the listener to the library; \<open>gorpc\<close> and \<open>gonet\<close>
  try one address only, and \<open>gorpc\<close> ends the process if that fails. \<open>lib\<close> is what the library's \<open>Serve\<close> returns.
\<close>

definition grpc_Serve :: "(nat \<Rightarrow> go_error option) \<Rightarrow> go_error option \<Rightarrow> block_server \<Rightarrow> (block_server \<times> go_error option) option" where
  "grpc_Serve listens lib s =
     (case listen_from listens (bs_port s) of None \<Rightarrow> None | Some p \<Rightarrow> Some (s\<lparr>bs_port := p\<rparr>, lib))"

datatype serve_end = ServeReturns "go_error option" | ProcessExits go_error

definition gorpc_Serve :: "(string \<Rightarrow> go_error option) \<Rightarrow> block_server \<Rightarrow> serve_end" where
  "gorpc_Serve lib s =
     (case lib (server_Addr s) of Some e \<Rightarrow> ProcessExits (Wrap ''Cannot start rpc server'' e) | None \<Rightarrow> ServeReturns None)"

definition gonet_Addr :: "block_server \<Rightarrow> string" where
  "gonet_Addr s = bs_ip s @ '':8000''"

definition gonet_Serve :: "(string \<Rightarrow> go_error option) \<Rightarrow> block_server \<Rightarrow> go_error option" where
  "gonet_Serve lib s = lib (''tcp://'' @ gonet_Addr s)"

lemma gonet_Addr_eq: "gonet_NewServer ifs ip iname = Inr s \<Longrightarrow> gonet_Addr s = server_Addr s"
proof -
  have d: "decimal 8000 = ''8000''" by (simp add: decimal.simps digit_def char_of_def bit_Suc bit_0)
  show "gonet_NewServer ifs ip iname = Inr s \<Longrightarrow> gonet_Addr s = server_Addr s"
    by (auto simp: gonet_NewServer_def with_ip_def gonet_Addr_def server_Addr_def d split: sum.splits)
qed

section \<open>The RPC client and server of the block service\<close>

text \<open>
  \<open>Server.Serve\<close> of \<open>pkg/iorpc\<close> starts the server and waits until its accept loop has ended; \<open>stop\<close> is the
  call of \<open>Stop\<close> that ends it, if there is one, and \<open>None\<close> says that \<open>Serve\<close> does not return.
\<close>

definition Server_Serve :: "net_listen \<Rightarrow> bool option \<Rightarrow> server_conf \<Rightarrow> (go_error option \<times> server_conf) option" where
  "Server_Serve net stop s =
     (case Server_Start net s of
        (Some e, s') \<Rightarrow> Some (Some e, s')
      | (None, s') \<Rightarrow> (case stop of None \<Rightarrow> None | Some asleep \<Rightarrow> Some (None, snd (Server_Stop asleep s'))))"

text \<open>
  \<open>NewClient\<close>, \<open>Close\<close> and \<open>Serve\<close> of \<open>pkg/net/iorpc\<close>. \<open>Serve\<close> makes a new RPC server; the package's \<open>Close\<close>
  does nothing, so nobody stops it.
\<close>

definition iorpc_NewClient :: "string \<Rightarrow> int \<Rightarrow> go_error + client_conf" where
  "iorpc_NewClient addr conns =
     Client_Start ((NewTCPClient addr)\<lparr>cc_DisableCompression := True, cc_Conns := conns, cc_FlushDelay := 10 * 1000\<rparr>)"

definition iorpc_Close :: "client_conf \<Rightarrow> go_error + client_conf" where
  "iorpc_Close = Client_Stop"

definition iorpc_Serve :: "net_listen \<Rightarrow> block_server \<Rightarrow> (go_error option \<times> server_conf) option" where
  "iorpc_Serve net s =
     Server_Serve net None (blank_server\<lparr>sf_FlushDelay := 10 * 1000, sf_Handler := True, sf_Addr := server_Addr s\<rparr>)"

lemma iorpc_client_settings:
  "\<exists>c. iorpc_NewClient addr conns = Inr c \<and> client_ready c \<and> cc_DisableCompression c \<and> cc_FlushDelay c = 10000
     \<and> cc_handlers c = nat (max 1 conns) \<and> \<not> cc_CloseBody c \<and> cc_PendingRequests c = DefaultPendingMessages"
proof -
  obtain c where c: "iorpc_NewClient addr conns = Inr c"
    by (simp add: iorpc_NewClient_def Client_Start_def NewTCPClient_def blank_client_def Let_def)
  then show ?thesis
    using Client_Start_ready [OF c [unfolded iorpc_NewClient_def]]
    by (auto simp: iorpc_NewClient_def Client_Start_def NewTCPClient_def blank_client_def Let_def at_least_1_def)
qed

text \<open>\<open>Serve\<close> of the block service returns only if it cannot listen; a busy port is not searched around.\<close>

lemma iorpc_Serve_outcome:
  "iorpc_Serve net s =
     (case net defaultListener (server_Addr s) of
        None \<Rightarrow> None
      | Some e \<Rightarrow> Some (Some (Wrap ''gorpc.Server: cannot listen'' e),
          snd (Server_Start net (blank_server\<lparr>sf_FlushDelay := 10 * 1000, sf_Handler := True, sf_Addr := server_Addr s\<rparr>))))"
  by (simp add: iorpc_Serve_def Server_Serve_def Server_Start_def server_defaults_def blank_server_def Let_def
      ListenAddr_def ln_Init_def split: option.splits)

section \<open>Listeners for other networks\<close>

text \<open>
  \<open>netListener\<close> of \<open>transport.go\<close> with the function that opens the socket; its \<open>Accept\<close> sets no socket option.
  A socket that was opened is \<open>Some open\<close>.
\<close>

definition netListener_Init :: "(string \<Rightarrow> go_error option) \<Rightarrow> string \<Rightarrow> go_error option \<times> bool option" where
  "netListener_Init F addr = (case F addr of Some e \<Rightarrow> (Some e, None) | None \<Rightarrow> (None, Some True))"

definition netListener_ListenAddr :: "(bool \<Rightarrow> 'a) \<Rightarrow> bool option \<Rightarrow> 'a option" where
  "netListener_ListenAddr Addr L = (case L of Some l \<Rightarrow> Some (Addr l) | None \<Rightarrow> None)"

definition netListener_Accept :: "(bool \<Rightarrow> go_error + string) \<Rightarrow> bool option \<Rightarrow> go_error + string" where
  "netListener_Accept accept L =
     (case L of
        None \<Rightarrow> Inl (Panic ''nil pointer dereference'')
      | Some l \<Rightarrow> (case accept l of Inl e \<Rightarrow> Inl e | Inr addr \<Rightarrow> Inr addr))"

definition unixDial :: "(string \<Rightarrow> go_error + 'c) \<Rightarrow> string \<Rightarrow> go_error + 'c" where
  "unixDial dial addr = (case dial addr of Inl e \<Rightarrow> Inl e | Inr c \<Rightarrow> Inr c)"

text \<open>The listener that \<open>Server\<close> drives is this one when it is of this kind.\<close>

lemma ln_netListener:
  "ln_kind ln = netListener \<Longrightarrow> (case ln_Init net addr ln of (e, ln') \<Rightarrow> (e, ln_L ln')) = netListener_Init (net netListener) addr"
  "ln_kind ln = netListener \<Longrightarrow> ListenAddr ln \<longleftrightarrow> netListener_ListenAddr Addr (ln_L ln) \<noteq> None"
  "ln_kind ln = netListener \<Longrightarrow> ln_Accept a ln = netListener_Accept (\<lambda>l. if \<not> l then Inl (ErrMsg ''use of closed network connection'')
       else case a of AcceptErr e \<Rightarrow> Inl e | AcceptConn p k1 k2 \<Rightarrow> Inr p) (ln_L ln)"
  by (auto simp: ln_Init_def netListener_Init_def ListenAddr_def netListener_ListenAddr_def ln_Accept_def
      netListener_Accept_def split: option.splits bool.splits accepted.splits)

end
