(* ===== verification/Byte_Buffers.thy ===== *)
theory Byte_Buffers
  imports Net_Prelude
begin

text \<open>
  The pooled byte buffers of \<open>pkg/iorpc/buffer.go\<close>, from which the message encoder takes its header buffer. A
  buffer is a number; \<open>bp_held\<close> is history, the buffers that were handed out and not closed.
\<close>

section \<open>Allocator and buffers\<close>

record byte_buf =
  bb_data :: "byte list"
  bb_cap :: nat

record buf_pool =
  bp_free :: "nat list"
  bp_buf :: "nat \<Rightarrow> byte_buf"
  bp_next :: nat
  bp_held :: "nat list"

definition empty_buf :: byte_buf where
  "empty_buf = \<lparr>bb_data = [], bb_cap = 0\<rparr>"

definition new_buf_pool :: buf_pool where
  "new_buf_pool = \<lparr>bp_free = [], bp_buf = (\<lambda>_. empty_buf), bp_next = 0, bp_held = []\<rparr>"

text \<open>\<open>Grow\<close> and \<open>Write\<close> of \<open>bytes.Buffer\<close>; \<open>rnd\<close> is the allocator's rounding of a capacity.\<close>

definition bb_Grow :: "(nat \<Rightarrow> nat) \<Rightarrow> nat \<Rightarrow> byte_buf \<Rightarrow> byte_buf" where
  "bb_Grow rnd n b =
     (if length (bb_data b) + n \<le> bb_cap b then b
      else b\<lparr>bb_cap := rnd (max (length (bb_data b) + n) (2 * bb_cap b))\<rparr>)"

definition bb_Write :: "(nat \<Rightarrow> nat) \<Rightarrow> byte list \<Rightarrow> byte_buf \<Rightarrow> byte_buf" where
  "bb_Write rnd p b = (bb_Grow rnd (length p) b)\<lparr>bb_data := bb_data b @ p\<rparr>"

text \<open>
  \<open>RegisterAllocator\<close> sets the package's allocator, \<open>init\<close> the default one unless there is one already. The
  default takes a buffer from the pool (\<open>pick\<close>: which one, if the pool gives one) and grows it.
\<close>

definition RegisterAllocator :: "'a \<Rightarrow> 'a option \<Rightarrow> 'a option" where
  "RegisterAllocator allocator var = Some allocator"

definition init_allocator :: "'a \<Rightarrow> 'a option \<Rightarrow> 'a option" where
  "init_allocator dflt var = (case var of None \<Rightarrow> RegisterAllocator dflt var | Some a \<Rightarrow> var)"

definition pool_Get :: "nat option \<Rightarrow> buf_pool \<Rightarrow> nat \<times> buf_pool" where
  "pool_Get pick p =
     (case pick of
        Some i \<Rightarrow>
          if i < length (bp_free p)
          then (bp_free p ! i, p\<lparr>bp_free := take i (bp_free p) @ drop (Suc i) (bp_free p)\<rparr>)
          else (bp_next p, p\<lparr>bp_next := Suc (bp_next p), bp_buf := (bp_buf p)(bp_next p := empty_buf)\<rparr>)
      | None \<Rightarrow> (bp_next p, p\<lparr>bp_next := Suc (bp_next p), bp_buf := (bp_buf p)(bp_next p := empty_buf)\<rparr>))"

definition default_allocator :: "(nat \<Rightarrow> nat) \<Rightarrow> nat option \<Rightarrow> nat \<Rightarrow> buf_pool \<Rightarrow> nat \<times> buf_pool" where
  "default_allocator rnd pick sz p =
     (case pool_Get pick p of
        (i, p1) \<Rightarrow> (i, p1\<lparr>bp_buf := (bp_buf p1)(i := bb_Grow rnd sz (bp_buf p1 i)), bp_held := i # bp_held p1\<rparr>))"

text \<open>\<open>Close\<close> resets the buffer and puts it back; it does not look whether that was done before.\<close>

definition buffer_Close :: "nat \<Rightarrow> buf_pool \<Rightarrow> buf_pool" where
  "buffer_Close i p =
     p\<lparr>bp_buf := (bp_buf p)(i := (bp_buf p i)\<lparr>bb_data := []\<rparr>), bp_free := i # bp_free p, bp_held := remove1 i (bp_held p)\<rparr>"

text \<open>Holders write to their buffers and close them.\<close>

inductive buf_reach :: "(nat \<Rightarrow> nat) \<Rightarrow> buf_pool \<Rightarrow> bool" for rnd where
  start: "buf_reach rnd new_buf_pool"
| alloc: "buf_reach rnd p \<Longrightarrow> buf_reach rnd (snd (default_allocator rnd pick sz p))"
| write_to: "buf_reach rnd p \<Longrightarrow> i \<in> set (bp_held p) \<Longrightarrow> buf_reach rnd (p\<lparr>bp_buf := (bp_buf p)(i := bb_Write rnd s (bp_buf p i))\<rparr>)"
| close_held: "buf_reach rnd p \<Longrightarrow> i \<in> set (bp_held p) \<Longrightarrow> buf_reach rnd (buffer_Close i p)"

section \<open>A buffer has one holder\<close>

definition bufs_inv :: "buf_pool \<Rightarrow> bool" where
  "bufs_inv p \<longleftrightarrow> distinct (bp_free p @ bp_held p) \<and> (\<forall>i \<in> set (bp_free p @ bp_held p). i < bp_next p)
     \<and> (\<forall>i \<in> set (bp_free p). bb_data (bp_buf p i) = [])"

lemma bb_Grow_simps [simp]: "bb_data (bb_Grow rnd n b) = bb_data b"
  by (simp add: bb_Grow_def)

lemma bb_Grow_room: "(\<And>n. n \<le> rnd n) \<Longrightarrow> length (bb_data b) + n \<le> bb_cap (bb_Grow rnd n b)"
  using order_trans [of "length (bb_data b) + n" "max (length (bb_data b) + n) (2 * bb_cap b)"
      "rnd (max (length (bb_data b) + n) (2 * bb_cap b))"]
  by (simp add: bb_Grow_def)

lemma take_drop_nth:
  assumes "i < length xs" "distinct xs"
  shows "xs ! i \<notin> set (take i xs @ drop (Suc i) xs) \<and> distinct (take i xs @ drop (Suc i) xs)"
    "set (take i xs @ drop (Suc i) xs) \<subseteq> set xs"
proof -
  have "distinct (take i xs @ xs ! i # drop (Suc i) xs)" using assms id_take_nth_drop by metis
  then show "xs ! i \<notin> set (take i xs @ drop (Suc i) xs) \<and> distinct (take i xs @ drop (Suc i) xs)" by simp
  show "set (take i xs @ drop (Suc i) xs) \<subseteq> set xs"
    using set_take_subset [of i xs] set_drop_subset [of "Suc i" xs] by simp
qed

lemma pool_Get_inv:
  assumes "bufs_inv p" "pool_Get pick p = (i, p')"
  shows "bufs_inv p' \<and> i \<notin> set (bp_free p' @ bp_held p') \<and> i < bp_next p' \<and> bb_data (bp_buf p' i) = [] \<and> bp_held p' = bp_held p"
proof (cases "\<exists>j. pick = Some j \<and> j < length (bp_free p)")
  case True
  then obtain j where j: "pick = Some j" "j < length (bp_free p)" by blast
  let ?xs = "take j (bp_free p) @ drop (Suc j) (bp_free p)"
  have p': "i = bp_free p ! j" "p' = p\<lparr>bp_free := ?xs\<rparr>" using assms(2) j by (simp_all add: pool_Get_def)
  have i: "i \<in> set (bp_free p)" using nth_mem [OF j(2)] p'(1) by simp
  have d: "distinct (bp_free p)" "distinct (bp_held p)" "set (bp_free p) \<inter> set (bp_held p) = {}"
    using assms(1) by (simp_all add: bufs_inv_def)
  note xs = take_drop_nth [OF j(2) d(1)]
  have "distinct (?xs @ bp_held p)" using xs d unfolding distinct_append [of ?xs] by blast
  then show ?thesis
    using assms(1) xs d(3) i unfolding p'(2) p'(1) [symmetric]
    by (simp add: bufs_inv_def del: set_append distinct_append) (simp only: set_append Un_iff, blast)
next
  case False
  then have "i = bp_next p" "p' = p\<lparr>bp_next := Suc (bp_next p), bp_buf := (bp_buf p)(bp_next p := empty_buf)\<rparr>"
    using assms(2) by (auto simp: pool_Get_def split: option.splits if_splits)
  then show ?thesis using assms(1) by (auto simp: bufs_inv_def empty_buf_def less_Suc_eq)
qed

lemma default_allocator_parts:
  "default_allocator rnd pick sz p = (i, p') \<Longrightarrow>
   \<exists>p1. pool_Get pick p = (i, p1) \<and> p' = p1\<lparr>bp_buf := (bp_buf p1)(i := bb_Grow rnd sz (bp_buf p1 i)), bp_held := i # bp_held p1\<rparr>"
  by (auto simp: default_allocator_def split: prod.splits)

lemma allocator_inv:
  assumes "bufs_inv p"
  shows "bufs_inv (snd (default_allocator rnd pick sz p))"
proof -
  obtain i p' where a: "default_allocator rnd pick sz p = (i, p')" by fastforce
  obtain p1 where p1: "pool_Get pick p = (i, p1)"
      "p' = p1\<lparr>bp_buf := (bp_buf p1)(i := bb_Grow rnd sz (bp_buf p1 i)), bp_held := i # bp_held p1\<rparr>"
    using default_allocator_parts [OF a] by blast
  then show ?thesis using pool_Get_inv [OF assms p1(1)] a by (auto simp: bufs_inv_def)
qed

lemma close_inv: "bufs_inv p \<Longrightarrow> i \<in> set (bp_held p) \<Longrightarrow> bufs_inv (buffer_Close i p)"
  by (auto simp: bufs_inv_def buffer_Close_def)

lemma bufs_reach_inv: "buf_reach rnd p \<Longrightarrow> bufs_inv p"
proof (induction rule: buf_reach.induct)
  case start
  then show ?case by (simp add: bufs_inv_def new_buf_pool_def)
next
  case (write_to p i s)
  then show ?case by (auto simp: bufs_inv_def)
qed (auto intro: allocator_inv close_inv)

text \<open>
  As long as only holders close, the allocator hands out a buffer that nobody else has, empty and with the
  room that was asked for.
\<close>

lemma allocator_exclusive:
  assumes "buf_reach rnd p" "\<And>n. n \<le> rnd n" "default_allocator rnd pick sz p = (i, p')"
  shows "i \<notin> set (bp_held p) \<and> bb_data (bp_buf p' i) = [] \<and> sz \<le> bb_cap (bp_buf p' i)"
proof -
  obtain p1 where p1: "pool_Get pick p = (i, p1)"
      "p' = p1\<lparr>bp_buf := (bp_buf p1)(i := bb_Grow rnd sz (bp_buf p1 i)), bp_held := i # bp_held p1\<rparr>"
    using default_allocator_parts [OF assms(3)] by blast
  show ?thesis
    using pool_Get_inv [OF bufs_reach_inv [OF assms(1)] p1(1)] bb_Grow_room [OF assms(2), of "bp_buf p1 i" sz] p1(2)
    by auto
qed

text \<open>A buffer closed twice is handed out twice.\<close>

lemma double_Close_shares:
  "case default_allocator id None 8 new_buf_pool of (i, p) \<Rightarrow>
     case default_allocator id (Some 0) 8 (buffer_Close i (buffer_Close i p)) of (j, p1) \<Rightarrow>
     case default_allocator id (Some 0) 8 p1 of (k, p2) \<Rightarrow> j = k"
  by code_simp

end
