(* ===== verification/Spec2Isabelle.thy ===== *)
theory Spec2Isabelle
  imports Rpc_Api Rpc_Serve Body_Closes Jnet_Queue Body_Buffers Work_Pool Pipe_Utils Bench Stack_FS Rdma_Handler Net_Lifecycle
    Byte_Buffers
begin

text \<open>
  A verification development for \<open>net-model-bench\<close>, a benchmark that serves blocks of 4 KiB to 4 MiB over
  eight network stacks: its own RPC library \<open>pkg/iorpc\<close> with a zero-copy path, the batching protocol
  \<open>pkg/net/jnet\<close>, the plain protocols \<open>tcppool\<close>, \<open>quic\<close>, \<open>gonet\<close>, \<open>tcpsendfile\<close> and \<open>perf\<close>, and the two
  library based ones, \<open>grpc\<close> and \<open>gorpc\<close>. \<open>cmd/rpcbench\<close> starts one of them as server or as client.

  \<^bold>\<open>How the parts fit together.\<close> A data generator (\<open>pkg/datagen\<close>) holds the blocks in memory or in files. A
  client's \<open>Get\<close> takes a connection from a pool, writes a request for one of the five blocks and reads the
  response into a pooled buffer, whose reference the benchmark loop drops. In \<open>iorpc\<close> a call goes through
  a queue to a writer goroutine, which gives it a message id and encodes it; the server's reader decodes
  requests, at most \<open>Concurrency\<close> workers handle them through a dispatcher, and a writer encodes the
  responses; the client's reader finds the waiting call by the id. Bodies move through kernel pipes where
  both ends can splice, and are copied otherwise. \<open>jnet\<close> gathers requests into batches under a cookie and
  spreads the responses to the callers.

  \<^bold>\<open>Theories\<close>, in the order of their dependence:
  \<^item> \<open>Net_Prelude\<close>: errors and panics as values, slices and \<open>copy\<close>, Go's division, big-endian words,
    streams cut into segments and \<open>io.ReadFull\<close>; locales for formats that carry their own length.
  \<^item> \<open>Ring_Buffer\<close> (\<open>iorpc/buffer.go\<close>): the decoder's ring buffer, its refinement of a queue of bytes and
    the one call that panics. \<open>Byte_Buffers\<close>: the pool of header buffers, each with one holder. A locale states
    what the decoder needs of a byte queue.
  \<^item> \<open>Conn_Stats\<close> (\<open>conn_stats.go\<close>, \<open>conn_stats_generic.go\<close>), \<open>Dispatcher\<close> (\<open>dispatcher.go\<close>).
  \<^item> \<open>Body_Splice\<close> (\<open>body.go\<close>): bodies, the constructors of pipes, \<open>spliceTo\<close> over the outcomes of the
    kernel calls; what is sent, what a fallback keeps, and when the fill loop never ends.
  \<^item> \<open>Message_Codec\<close> (\<open>encoding.go\<close>), \<open>Read_Headers\<close> (\<open>net/iorpc/headers.go\<close>): the encoder with its shared
    header buffer and the decoder; round trips of requests and responses, and the inputs they break on.
  \<^item> \<open>Rpc_Client\<close> (\<open>client.go\<close>), \<open>Rpc_Server\<close> (\<open>server.go\<close>): step relations over queue, pools, pending
    calls, workers and writers; each operation is a function, and an invariant holds in every reachable
    state. \<open>Rpc_Setup\<close> (\<open>client.go\<close>, \<open>server.go\<close>, \<open>transport.go\<close>, \<open>common.go\<close>): settings, start and stop,
    listeners, handshake, timers. \<open>Rpc_Api\<close>: the calls made of these. \<open>Body_Closes\<close>: how often the encoder
    closes a body. \<open>Rpc_Runs\<close>: the loops of the client's writer and reader over a whole queue.
  \<^item> \<open>Data_Gen\<close> (\<open>pkg/datagen\<close>): memory and files serve the same blocks. \<open>Net_Iorpc\<close> (\<open>pkg/net/iorpc\<close>): the
    block service on the RPC library, one call from end to end. \<open>Rpc_Serve\<close>: client and server together, any
    number of calls through any interleaving of the server.
  \<^item> \<open>Block_Wire\<close>, \<open>Block_Servers\<close>, \<open>Conn_Pool\<close>: formats, connection loops, clients and connection pools of
    the plain protocols. \<open>Net_Setup\<close> (\<open>utils.go\<close> and the constructors): local address, ports, accepting.
    \<open>Pipe_Utils\<close> (\<open>utils\<close>): the other pipe constructors and the LZ4 helper.
  \<^item> \<open>Plain_Blocks\<close> (\<open>perf\<close>, \<open>gorpc\<close>, the client of \<open>tcpsendfile\<close>), \<open>Grpc_Blocks\<close> (\<open>pkg/net/grpc\<close>).
    \<open>Net_Lifecycle\<close>: how the clients and servers under \<open>pkg/net\<close> are made, serve and close; the address that
    the \<open>quic\<close> client dials is the one its server listens at.
  \<^item> \<open>Jnet_Wire\<close>, \<open>Jnet\<close>, \<open>Work_Pool\<close>, \<open>Jnet_Serve\<close> (\<open>pkg/net/jnet\<close>): formats, gathering and completion of
    batches, the pool of workers, a batch from end to end. \<open>Jnet_Queue\<close>: the whole
    client under interleaved callers and workers. \<open>Body_Buffers\<close> (\<open>common/response.go\<close>): reference counts of the pooled bodies.
  \<^item> \<open>Bench\<close> (\<open>cmd/rpcbench\<close>), \<open>Stack_FS\<close> (\<open>cmd/fuseexpr\<close>).
  \<^item> \<open>Rdma_Sync\<close>, \<open>Rdma_Resources\<close>, \<open>Rdma_Handler\<close> (\<open>lib/rdmahandler\<close>, the Go handler and the C functions it calls):
    exchange of bytes, setup and release of a connection's objects, a write that meets a read. The CPU's
    copy of a string and the adapter's transfers move one byte per step, so a read sees any mixture.

  \<^bold>\<open>Conventions.\<close> A struct is a record with the source's field names behind a prefix; an unsigned integer of
  the wire or of a counter is a word of its width, Go's \<open>int\<close> is \<open>int\<close> where it is compared or can be
  negative and \<open>nat\<close> for lengths. A function that returns an error has a sum as its result, \<open>Inl\<close> the error;
  a run-time panic is the error \<open>Panic\<close>. A loop that may run for ever returns an option, \<open>None\<close> for a run
  that has not ended: the splice loops consume a list of kernel outcomes, the search for a port, the
  server of \<open>perf\<close> and the loop of \<open>sock_sync_data\<close> are \<open>partial_function\<close>s. All other loops are total functions, mostly because each round
  takes bytes from the stream, so no fuel is used. Goroutines are step relations whose steps are the
  stretches between two points of synchronisation; where a goroutine changes a table under its lock and a
  counter after it, the two are separate steps. Fields described as history record what
  happened and are read by no operation.

  \<^bold>\<open>What the lemmas show.\<close> Formats: encoding and decoding are inverse from any segmentation of the stream,
  for the values the code can carry. Concurrency: channels are closed once, identifiers are fresh,
  counters are exact up to the goroutines that are about to change them, no request is answered twice, pooled connections, buffers and tickets have one owner,
  nothing waits for ever that could be drained. Composition: all the calls that a client has queued are
  completed with their own blocks, whatever the order in which the server handles them; a block travels from the files of the server
  to the caller unchanged through \<open>iorpc\<close> and \<open>tcppool\<close>, and through \<open>jnet\<close> unless it crosses a multiple of
  4 MiB. Errors: where the code does not keep what its comments promise, a theorem states exactly when, as
  for the header buffer that moves under its start line, the writer that never flushes, pooled objects
  that are not reset, the \<open>jnet\<close> buffer that is released under its readers, and the loops that
  cannot end.

  Each interface on which proofs rest is a locale with an interpretation on the model: formats with their
  own length (requests, responses, batch headers), the byte queue, the batch limits of \<open>jnet\<close>, the source
  of pooled connections, the block source served by memory and files.

  \<^bold>\<open>Outside the model.\<close> Sockets, the kernel, clocks, the Go scheduler's fairness, \<open>math/rand\<close> and the libraries
  the program calls (go-fuse's \<open>splice\<close>, LZ4 of juicefs, libibverbs, gRPC, \<open>valyala/gorpc\<close>, quic-go, gnet) are
  arguments: functions, lists of outcomes, or the choice of the next step. Logging and printing are left
  out. A \<open>sync.Pool\<close> may give any object it holds or a new one.

  \<^bold>\<open>Not modelled.\<close> \<open>conn_stats_386.go\<close> names fields that \<open>ConnStats\<close> does not have and does not compile.
  \<open>lib/rdma_common\<close> is C behind one line of Go and is used by nothing. The files of
  \<open>grpc/proto\<close> are generated. The averages of \<open>ConnStats\<close> are floating point. The flags of the command line,
  the profiler and the mounting of the FUSE file system are calls into libraries.
\<close>

end
